theory Spec2Isabelle
  imports Main "HOL-Library.Word"
begin

section \<open>Data model\<close>

text \<open>
  The program is a thread pool (\<^verbatim>\<open>os_threadpool.c\<close>) driving a parallel graph traversal
  (\<^verbatim>\<open>parallel.c\<close>). All memory the two files touch is one record \<open>state\<close>, passed
  explicitly. Pointers are addresses (\<open>addr\<close>); the heap is split by type: \<open>tasks\<close> holds the
  \<^verbatim>\<open>os_task_t\<close> objects and \<open>uints\<close> the \<^verbatim>\<open>malloc(sizeof(uint))\<close> cells that carry a
  node index. The \<^verbatim>\<open>list\<close> member of a task and the \<^verbatim>\<open>head\<close> member of the pool are
  list nodes; their \<^verbatim>\<open>next\<close> and \<^verbatim>\<open>prev\<close> fields are the two maps \<open>lnext\<close> and
  \<open>lprev\<close> over node references.
\<close>

type_synonym addr = nat

datatype thread = Main_thread | Worker nat

datatype mutex = Mutex_queue | Mutex_graph

datatype lock_event = Acquire mutex | Release mutex

text \<open>
  A call that does not return a value to its caller stops in one of four ways: it is
  \<open>Blocked\<close> (a mutex held by another thread, a condition wait, a join of a running
  thread: the caller does not move in this state), the process is terminated by
  \<^verbatim>\<open>DIE\<close> or a failed \<^verbatim>\<open>assert\<close> (\<open>Fatal\<close>, with the diagnostic), the call has
  undefined behaviour in C (\<open>Fault\<close>: a dangling pointer, an index out of range), or
  it runs forever (\<open>Diverges\<close>).
\<close>

datatype stop = Blocked | Fatal string | Fault string | Diverges

text \<open>\<^verbatim>\<open>&tp->head\<close> or \<^verbatim>\<open>&t->list\<close> for the task at an address.\<close>

datatype node_ref = Head | Task_node addr

text \<open>The functions whose addresses the program stores in a task.\<close>

datatype action_fn = Process_node

datatype destroy_fn = Free_function

record os_task =
  argument :: addr
  action :: action_fn
  destroy_arg :: "destroy_fn option"

text \<open>
  Modelled from the spec: \<^verbatim>\<open>os_graph.h\<close> is not among the sources. The spec gives a node a
  value and a list of neighbour indices, and each node a visited flag that is not-visited
  or done; \<^verbatim>\<open>num_neighbours\<close> is the length of \<open>neighbours\<close> and \<^verbatim>\<open>num_nodes\<close>
  the length of \<open>nodes\<close>.
\<close>

datatype visited_t = NOT_VISITED | DONE

record os_node =
  info :: "32 word"
  neighbours :: "nat list"

text \<open>Where a worker stands in \<^verbatim>\<open>thread_loop_function\<close>, and the main thread in \<^verbatim>\<open>main\<close>.\<close>

datatype worker_pc =
    W_dequeue
  | W_action addr
  | W_loop addr nat nat
  | W_exited

datatype main_pc = M_start | M_seed | M_wait | M_join nat | M_exit

record state =
  num_threads :: nat
  threads :: "nat option list"
  num_tasks :: "32 word"
  finished :: bool
  lnext :: "node_ref \<Rightarrow> node_ref"
  lprev :: "node_ref \<Rightarrow> node_ref"
  tasks :: "addr \<rightharpoonup> os_task"
  uints :: "addr \<rightharpoonup> nat"
  brk :: addr
  sum_total :: "32 word"
  nodes :: "os_node list"
  visited :: "visited_t list"
  mutex :: "mutex \<Rightarrow> thread option"
  lock_log :: "(thread \<times> lock_event) list"
  rcs :: "nat \<Rightarrow> int"
  clock :: nat
  workers :: "worker_pc list"
  mpc :: main_pc
  printed :: "32 word option"

section \<open>Errors and library calls\<close>

definition then_r :: "stop + 'a \<Rightarrow> ('a \<Rightarrow> stop + 'b) \<Rightarrow> stop + 'b" where
  "then_r m f = (case m of Inl e \<Rightarrow> Inl e | Inr x \<Rightarrow> f x)"

text \<open>
  Modelled from the spec: \<^verbatim>\<open>utils.h\<close> is not among the sources. \<^verbatim>\<open>DIE(assertion, msg)\<close>
  terminates the process with a diagnostic when the assertion holds.
\<close>

definition DIE :: "bool \<Rightarrow> string \<Rightarrow> 'a \<Rightarrow> stop + 'a" where
  "DIE assertion call_description x = (if assertion then Inl (Fatal call_description) else Inr x)"

text \<open>
  The return code of the next library call is \<open>rcs s (clock s)\<close>: the environment's
  answers are a stream fixed in advance, and each call consumes one.
\<close>

definition libc_call :: "state \<Rightarrow> int \<times> state" where
  "libc_call s = (rcs s (clock s), s\<lparr>clock := Suc (clock s)\<rparr>)"

definition pthread_mutex_init :: "mutex \<Rightarrow> state \<Rightarrow> int \<times> state" where
  "pthread_mutex_init m s =
     (let (rc, s1) = libc_call s in (rc, s1\<lparr>mutex := (mutex s1)(m := None)\<rparr>))"

definition pthread_mutex_lock :: "thread \<Rightarrow> mutex \<Rightarrow> state \<Rightarrow> stop + int \<times> state" where
  "pthread_mutex_lock me m s =
     (case mutex s m of
        Some other \<Rightarrow> Inl Blocked
      | None \<Rightarrow>
          (let (rc, s1) = libc_call s in
           if rc \<noteq> 0 then Inr (rc, s1)
           else Inr (0, s1\<lparr>mutex := (mutex s1)(m := Some me),
                            lock_log := lock_log s1 @ [(me, Acquire m)]\<rparr>)))"

definition pthread_mutex_unlock :: "thread \<Rightarrow> mutex \<Rightarrow> state \<Rightarrow> stop + int \<times> state" where
  "pthread_mutex_unlock me m s =
     (if mutex s m \<noteq> Some me then Inl (Fault ''pthread_mutex_unlock: not the owner'')
      else
        (let (rc, s1) = libc_call s in
         if rc \<noteq> 0 then Inr (rc, s1)
         else Inr (0, s1\<lparr>mutex := (mutex s1)(m := None),
                          lock_log := lock_log s1 @ [(me, Release m)]\<rparr>)))"

text \<open>
  \<^verbatim>\<open>pthread_cond_wait\<close> releases the mutex and sleeps. A waiter that is woken takes the
  mutex again and re-evaluates the loop condition of \<^verbatim>\<open>dequeue_task\<close>, which is what
  the caller does when it is scheduled again at the top of that function; so a wait that
  does not fail is \<open>Blocked\<close> and leaves no trace in the state.
\<close>

definition pthread_cond_wait :: "thread \<Rightarrow> state \<Rightarrow> stop + int \<times> state" where
  "pthread_cond_wait me s =
     (let (rc, s1) = libc_call s in if rc \<noteq> 0 then Inr (rc, s1) else Inl Blocked)"

definition pthread_cond_broadcast :: "state \<Rightarrow> int \<times> state" where
  "pthread_cond_broadcast s = libc_call s"

definition pthread_cond_init :: "state \<Rightarrow> int \<times> state" where
  "pthread_cond_init s = libc_call s"

definition pthread_mutex_destroy :: "mutex \<Rightarrow> state \<Rightarrow> int \<times> state" where
  "pthread_mutex_destroy m s = libc_call s"

definition pthread_cond_destroy :: "state \<Rightarrow> int \<times> state" where
  "pthread_cond_destroy s = libc_call s"

text \<open>
  \<^verbatim>\<open>pthread_create(&tp->threads[i], NULL, &thread_loop_function, tp)\<close>: on success a new
  worker stands at the top of its loop and its handle is written to slot \<open>i\<close>; on failure
  the slot is left as it was.
\<close>

definition pthread_create :: "nat \<Rightarrow> state \<Rightarrow> int \<times> state" where
  "pthread_create i s =
     (let (rc, s1) = libc_call s in
      if rc \<noteq> 0 then (rc, s1)
      else (0, s1\<lparr>threads := (threads s1)[i := Some (length (workers s1))],
                   workers := workers s1 @ [W_dequeue]\<rparr>))"

definition pthread_join :: "nat option \<Rightarrow> state \<Rightarrow> stop + int \<times> state" where
  "pthread_join handle s =
     (case handle of
        None \<Rightarrow> Inl (Fault ''pthread_join: uninitialised handle'')
      | Some w \<Rightarrow>
          if w < length (workers s) \<and> workers s ! w = W_exited then Inr (libc_call s)
          else Inl Blocked)"

text \<open>
  \<^verbatim>\<open>malloc\<close> returns \<^verbatim>\<open>NULL\<close> (\<open>None\<close>) when the environment's answer is not 0, and
  otherwise an address that no live or past object has.
\<close>

definition malloc :: "state \<Rightarrow> addr option \<times> state" where
  "malloc s =
     (let (rc, s1) = libc_call s in
      if rc \<noteq> 0 then (None, s1) else (Some (brk s1), s1\<lparr>brk := Suc (brk s1)\<rparr>))"

definition free_uint :: "addr \<Rightarrow> state \<Rightarrow> stop + state" where
  "free_uint a s =
     (if a \<in> dom (uints s) then Inr (s\<lparr>uints := (uints s)(a := None)\<rparr>)
      else Inl (Fault ''free: not allocated''))"

definition free_task :: "addr \<Rightarrow> state \<Rightarrow> stop + state" where
  "free_task t s =
     (if t \<in> dom (tasks s) then Inr (s\<lparr>tasks := (tasks s)(t := None)\<rparr>)
      else Inl (Fault ''free: not allocated''))"

section \<open>The list of \<^verbatim>\<open>os_list.h\<close>\<close>

text \<open>
  Modelled from the spec: \<^verbatim>\<open>os_list.h\<close> is not among the sources. The comment on
  \<^verbatim>\<open>head\<close> in \<^verbatim>\<open>os_threadpool.h\<close> fixes the representation (a circular list through a
  sentinel: the first item is \<^verbatim>\<open>head.next\<close>, the last \<^verbatim>\<open>head.prev\<close>, and the queue is
  empty when they are the head itself); \<open>list_del\<close> unlinks a node from its two
  neighbours and \<open>list_entry\<close> goes from a task's list node back to the task.
\<close>

definition list_init :: "node_ref \<Rightarrow> state \<Rightarrow> state" where
  "list_init h s = s\<lparr>lnext := (lnext s)(h := h), lprev := (lprev s)(h := h)\<rparr>"

definition list_empty :: "node_ref \<Rightarrow> state \<Rightarrow> bool" where
  "list_empty h s = (lnext s h = h)"

definition list_del :: "node_ref \<Rightarrow> state \<Rightarrow> state" where
  "list_del n s =
     (let s1 = s\<lparr>lnext := (lnext s)(lprev s n := lnext s n)\<rparr>
      in s1\<lparr>lprev := (lprev s1)(lnext s1 n := lprev s1 n)\<rparr>)"

definition list_entry :: "node_ref \<Rightarrow> stop + addr" where
  "list_entry n =
     (case n of Head \<Rightarrow> Inl (Fault ''list_entry: the head is not a task'')
              | Task_node t \<Rightarrow> Inr t)"

section \<open>\<^verbatim>\<open>os_threadpool.c\<close>\<close>

definition create_task ::
  "action_fn \<Rightarrow> addr \<Rightarrow> destroy_fn option \<Rightarrow> state \<Rightarrow> stop + addr \<times> state" where
  "create_task act arg destroy s =
     (let (p, s1) = malloc s in
      then_r (DIE (p = None) ''malloc'' s1) (\<lambda>s2.
        case p of
          None \<Rightarrow> Inl (Fatal ''malloc'')
        | Some t \<Rightarrow>
            Inr (t, s2\<lparr>tasks := (tasks s2)(t \<mapsto>
                   \<lparr>argument = arg, action = act, destroy_arg = destroy\<rparr>)\<rparr>)))"

definition free_function :: "addr \<Rightarrow> state \<Rightarrow> stop + state" where
  "free_function arg s = free_uint arg s"

definition call_destroy_arg :: "destroy_fn \<Rightarrow> addr \<Rightarrow> state \<Rightarrow> stop + state" where
  "call_destroy_arg f arg s = (case f of Free_function \<Rightarrow> free_function arg s)"

definition destroy_task :: "addr \<Rightarrow> state \<Rightarrow> stop + state" where
  "destroy_task t s =
     (case tasks s t of
        None \<Rightarrow> Inl (Fault ''destroy_task: dangling task'')
      | Some tk \<Rightarrow>
          then_r (case destroy_arg tk of
                    None \<Rightarrow> Inr s
                  | Some f \<Rightarrow> call_destroy_arg f (argument tk) s)
                 (free_task t))"

text \<open>
  \<^verbatim>\<open>enqueue_task\<close>, lines 36 to 57. The four assignments of lines 47 to 50 are made one
  after the other, each reading the state the one before left.
\<close>

definition enqueue_task :: "thread \<Rightarrow> addr option \<Rightarrow> state \<Rightarrow> stop + state" where
  "enqueue_task me p s =
     (case p of
        None \<Rightarrow> Inl (Fatal ''assert: t != NULL'')
      | Some t \<Rightarrow>
          then_r (pthread_mutex_lock me Mutex_queue s) (\<lambda>(rc, s1).
          then_r (DIE (rc \<noteq> 0) ''pthread_mutex_lock'' s1) (\<lambda>s2.
            let s3 = s2\<lparr>num_tasks := num_tasks s2 + 1\<rparr>;
                s4 = s3\<lparr>lnext := (lnext s3)(lprev s3 Head := Task_node t)\<rparr>;
                s5 = s4\<lparr>lprev := (lprev s4)(Task_node t := lprev s4 Head)\<rparr>;
                s6 = s5\<lparr>lnext := (lnext s5)(Task_node t := Head)\<rparr>;
                s7 = s6\<lparr>lprev := (lprev s6)(Head := Task_node t)\<rparr>;
                (rc_b, s8) = pthread_cond_broadcast s7
            in
          then_r (DIE (rc_b \<noteq> 0) ''pthread_cond_broad'' s8) (\<lambda>s9.
          then_r (pthread_mutex_unlock me Mutex_queue s9) (\<lambda>(rc_u, s10).
          DIE (rc_u \<noteq> 0) ''pthread_mutex_unlock'' s10)))))"

definition queue_is_empty :: "state \<Rightarrow> bool" where
  "queue_is_empty s = list_empty Head s"

text \<open>
  \<^verbatim>\<open>dequeue_task\<close>, lines 75 to 104: \<open>None\<close> is the \<^verbatim>\<open>NULL\<close> it returns when work is
  complete. While the queue is empty and \<^verbatim>\<open>finished\<close> is not set the caller waits.
\<close>

definition dequeue_task :: "thread \<Rightarrow> state \<Rightarrow> stop + addr option \<times> state" where
  "dequeue_task me s =
     then_r (pthread_mutex_lock me Mutex_queue s) (\<lambda>(rc, s1).
     then_r (DIE (rc \<noteq> 0) ''pthread_mutex_lock'' s1) (\<lambda>s2.
       if queue_is_empty s2 \<and> \<not> finished s2 then
         then_r (pthread_cond_wait me s2) (\<lambda>(rc_w, s3).
         then_r (DIE (rc_w \<noteq> 0) ''pthread_cond_wait'' s3) (\<lambda>s4. Inl Blocked))
       else if num_tasks s2 \<le> 0 then
         then_r (pthread_mutex_unlock me Mutex_queue s2) (\<lambda>(rc_u, s3).
         then_r (DIE (rc_u \<noteq> 0) ''pthread_mutex_unlock'' s3) (\<lambda>s4. Inr (None, s4)))
       else
         (let s3 = s2\<lparr>num_tasks := num_tasks s2 - 1\<rparr> in
          then_r (list_entry (lprev s3 Head)) (\<lambda>t.
            let s4 = list_del (lprev s3 Head) s3 in
            then_r (pthread_mutex_unlock me Mutex_queue s4) (\<lambda>(rc_u, s5).
            then_r (DIE (rc_u \<noteq> 0) ''pthread_mutex_unlock'' s5) (\<lambda>s6. Inr (Some t, s6)))))))"

text \<open>
  \<^verbatim>\<open>create_threadpool\<close>, lines 143 to 168. The loop of lines 162 to 165 is
  \<open>create_threads\<close>, counting the iterations left; \<^verbatim>\<open>DIE(rc < 0, ...)\<close> is the test
  the source makes on the return code of \<^verbatim>\<open>pthread_create\<close>.
\<close>

primrec create_threads :: "nat \<Rightarrow> nat \<Rightarrow> state \<Rightarrow> stop + state" where
  "create_threads 0 i s = Inr s"
| "create_threads (Suc k) i s =
     (let (rc, s1) = pthread_create i s in
      then_r (DIE (rc < 0) ''pthread_create'' s1) (create_threads k (Suc i)))"

definition create_threadpool :: "nat \<Rightarrow> state \<Rightarrow> stop + state" where
  "create_threadpool n s =
     (let (tp, s1) = malloc s in
      then_r (DIE (tp = None) ''malloc'' s1) (\<lambda>s2.
        let s3 = list_init Head s2;
            (rc_m, s4) = pthread_mutex_init Mutex_queue s3;
            (rc_c, s5) = pthread_cond_init s4;
            s6 = s5\<lparr>num_tasks := 0\<rparr>;
            s7 = s6\<lparr>finished := False\<rparr>;
            s8 = s7\<lparr>num_threads := n\<rparr>;
            (ths, s9) = malloc s8
        in
      then_r (DIE (ths = None) ''malloc'' (s9\<lparr>threads := replicate n None\<rparr>))
        (create_threads n 0)))"

text \<open>
  \<^verbatim>\<open>wait_for_completion\<close>, lines 125 to 140, in two parts: the critical section that
  raises \<^verbatim>\<open>finished\<close> (lines 127 to 135; the return code of the unlock of line 135 is
  dropped, as in the source), and one join of the loop of lines 138 and 139.
\<close>

definition wait_for_completion_signal :: "thread \<Rightarrow> state \<Rightarrow> stop + state" where
  "wait_for_completion_signal me s =
     then_r (pthread_mutex_lock me Mutex_queue s) (\<lambda>(rc, s1).
     then_r (DIE (rc \<noteq> 0) ''pthread_mutex_lock'' s1) (\<lambda>s2.
       let s3 = s2\<lparr>finished := True\<rparr>;
           (rc_b, s4) = pthread_cond_broadcast s3
       in
     then_r (DIE (rc_b \<noteq> 0) ''pthread_cond_broadcast'' s4) (\<lambda>s5.
     then_r (pthread_mutex_unlock me Mutex_queue s5) (\<lambda>(rc_u, s6). Inr s6))))"

definition wait_for_completion_join :: "nat \<Rightarrow> state \<Rightarrow> stop + state" where
  "wait_for_completion_join i s =
     (if i < length (threads s) then
        then_r (pthread_join (threads s ! i) s) (\<lambda>(rc, s1).
          DIE (rc \<noteq> 0) ''pthread_join'' s1)
      else Inl (Fault ''threads: index out of range''))"

text \<open>
  \<^verbatim>\<open>destroy_threadpool\<close>, lines 171 to 186. \<^verbatim>\<open>list_for_each_safe(n, p, &tp->head)\<close>
  starts at \<^verbatim>\<open>head.next\<close>, reads \<^verbatim>\<open>n->next\<close> into \<^verbatim>\<open>p\<close> before the body runs and
  goes on with \<^verbatim>\<open>p\<close>, until it is back at the head. \<open>destroy_tasks n s\<close> is the loop
  from node \<open>n\<close>; it is \<open>None\<close> when the walk never comes back to the head. The pool
  and its thread table are not heap objects of the model, so the two last calls of
  \<^verbatim>\<open>free\<close> have no counterpart here.
\<close>

partial_function (option) destroy_tasks :: "node_ref \<Rightarrow> state \<Rightarrow> (stop + state) option" where
  "destroy_tasks n s =
     (if n = Head then Some (Inr s)
      else
        (let p = lnext s n; s1 = list_del n s in
         case list_entry n of
           Inl e \<Rightarrow> Some (Inl e)
         | Inr t \<Rightarrow>
             (case destroy_task t s1 of
                Inl e \<Rightarrow> Some (Inl e)
              | Inr s2 \<Rightarrow> destroy_tasks p s2)))"

definition destroy_threadpool :: "state \<Rightarrow> stop + state" where
  "destroy_threadpool s =
     (let (rc_m, s1) = pthread_mutex_destroy Mutex_queue s;
          (rc_c, s2) = pthread_cond_destroy s1
      in case destroy_tasks (lnext s2 Head) s2 of
           None \<Rightarrow> Inl Diverges
         | Some r \<Rightarrow> r)"

section \<open>\<^verbatim>\<open>parallel.c\<close>\<close>

definition NUM_THREADS :: nat where
  "NUM_THREADS = 4"

text \<open>
  \<^verbatim>\<open>process_node\<close>, lines 30 to 61, in the parts between which other threads can run.
  \<open>process_node_visit\<close> is lines 32 to 42: it reads the index, takes the graph mutex and,
  when the node is not visited, adds its value to the total and marks it done; it returns
  whether it did. \<open>process_node_neighbour\<close> is one turn of the loop of lines 44 to 57,
  and \<open>process_node_unlock\<close> is line 60.
\<close>

definition process_node_visit :: "thread \<Rightarrow> addr \<Rightarrow> state \<Rightarrow> stop + (nat \<times> bool) \<times> state" where
  "process_node_visit me arg s =
     (case uints s arg of
        None \<Rightarrow> Inl (Fault ''process_node: dangling argument'')
      | Some idx \<Rightarrow>
          then_r (pthread_mutex_lock me Mutex_graph s) (\<lambda>(rc, s1).
          then_r (DIE (rc \<noteq> 0) ''pthread_mutex_lock'' s1) (\<lambda>s2.
            if idx < length (visited s2) then
              (if visited s2 ! idx = NOT_VISITED then
                 (if idx < length (nodes s2) then
                    (let node = nodes s2 ! idx;
                         s3 = s2\<lparr>sum_total := sum_total s2 + info node\<rparr>;
                         s4 = s3\<lparr>visited := (visited s3)[idx := DONE]\<rparr>
                     in Inr ((idx, True), s4))
                  else Inl (Fault ''nodes: index out of range''))
               else Inr ((idx, False), s2))
            else Inl (Fault ''visited: index out of range''))))"

definition process_node_neighbour :: "thread \<Rightarrow> nat \<Rightarrow> nat \<Rightarrow> state \<Rightarrow> stop + state" where
  "process_node_neighbour me idx i s =
     (if idx < length (nodes s) \<and> i < length (neighbours (nodes s ! idx)) then
        (let nb = neighbours (nodes s ! idx) ! i in
         if nb < length (visited s) then
           (if visited s ! nb = NOT_VISITED then
              (let (new_arg, s1) = malloc s in
               then_r (DIE (new_arg = None) ''malloc'' s1) (\<lambda>s2.
                 case new_arg of
                   None \<Rightarrow> Inl (Fatal ''malloc'')
                 | Some a \<Rightarrow>
                     (let s3 = s2\<lparr>uints := (uints s2)(a \<mapsto> nb)\<rparr> in
                      then_r (create_task Process_node a (Some Free_function) s3)
                        (\<lambda>(new_task, s4). enqueue_task me (Some new_task) s4))))
            else Inr s)
         else Inl (Fault ''visited: index out of range''))
      else Inl (Fault ''neighbours: index out of range''))"

definition process_node_unlock :: "thread \<Rightarrow> state \<Rightarrow> stop + state" where
  "process_node_unlock me s =
     then_r (pthread_mutex_unlock me Mutex_graph s) (\<lambda>(rc, s1).
       DIE (rc \<noteq> 0) ''pthread_mutex_unlock'' s1)"

text \<open>The loop of lines 44 to 57 run to its end, counting the iterations left.\<close>

primrec process_node_loop :: "nat \<Rightarrow> thread \<Rightarrow> nat \<Rightarrow> nat \<Rightarrow> state \<Rightarrow> stop + state" where
  "process_node_loop 0 me idx i s = Inr s"
| "process_node_loop (Suc k) me idx i s =
     then_r (process_node_neighbour me idx i s) (process_node_loop k me idx (Suc i))"

text \<open>The whole of \<^verbatim>\<open>process_node\<close>, as one thread runs it when no other thread moves.\<close>

definition process_node :: "thread \<Rightarrow> addr \<Rightarrow> state \<Rightarrow> stop + state" where
  "process_node me arg s =
     then_r (process_node_visit me arg s) (\<lambda>((idx, fresh), s1).
     then_r (if fresh
             then process_node_loop (length (neighbours (nodes s1 ! idx))) me idx 0 s1
             else Inr s1)
       (process_node_unlock me))"

definition call_action :: "action_fn \<Rightarrow> thread \<Rightarrow> addr \<Rightarrow> state \<Rightarrow> stop + state" where
  "call_action f me arg s = (case f of Process_node \<Rightarrow> process_node me arg s)"

section \<open>Threads\<close>

text \<open>
  One step of a worker in \<^verbatim>\<open>thread_loop_function\<close>, lines 107 to 122. At \<open>W_dequeue\<close>
  the worker calls \<^verbatim>\<open>dequeue_task\<close> and leaves the loop on \<^verbatim>\<open>NULL\<close>. At \<open>W_action t\<close>
  it calls \<^verbatim>\<open>t->action(t->argument)\<close> up to the loop of \<^verbatim>\<open>process_node\<close>; at
  \<open>W_loop t idx i\<close> it makes turn \<open>i\<close> of that loop for node \<open>idx\<close>, holding the graph
  mutex, or leaves the loop, unlocks, returns and calls \<^verbatim>\<open>destroy_task(t)\<close>. A worker
  that has returned makes no step.
\<close>

definition set_worker :: "nat \<Rightarrow> worker_pc \<Rightarrow> state \<Rightarrow> state" where
  "set_worker w pc s = s\<lparr>workers := (workers s)[w := pc]\<rparr>"

definition worker_step :: "nat \<Rightarrow> state \<Rightarrow> stop + state" where
  "worker_step w s =
     (if w < length (workers s) then
        (case workers s ! w of
           W_dequeue \<Rightarrow>
             then_r (dequeue_task (Worker w) s) (\<lambda>(t, s1).
               case t of
                 None \<Rightarrow> Inr (set_worker w W_exited s1)
               | Some t' \<Rightarrow> Inr (set_worker w (W_action t') s1))
         | W_action t \<Rightarrow>
             (case tasks s t of
                None \<Rightarrow> Inl (Fault ''thread_loop_function: dangling task'')
              | Some tk \<Rightarrow>
                  (case action tk of
                     Process_node \<Rightarrow>
                       then_r (process_node_visit (Worker w) (argument tk) s)
                         (\<lambda>((idx, fresh), s1).
                            if fresh then Inr (set_worker w (W_loop t idx 0) s1)
                            else
                              then_r (process_node_unlock (Worker w) s1) (\<lambda>s2.
                              then_r (destroy_task t s2) (\<lambda>s3.
                                Inr (set_worker w W_dequeue s3))))))
         | W_loop t idx i \<Rightarrow>
             if i < length (neighbours (nodes s ! idx)) then
               then_r (process_node_neighbour (Worker w) idx i s) (\<lambda>s1.
                 Inr (set_worker w (W_loop t idx (Suc i)) s1))
             else
               then_r (process_node_unlock (Worker w) s) (\<lambda>s1.
               then_r (destroy_task t s1) (\<lambda>s2.
                 Inr (set_worker w W_dequeue s2)))
         | W_exited \<Rightarrow> Inl Blocked)
      else Inl Blocked)"

text \<open>
  One step of \<^verbatim>\<open>main\<close> from line 77 on, the graph being read; \<open>n\<close> is the value of the
  macro \<^verbatim>\<open>NUM_THREADS\<close>. \<open>M_start\<close> is lines 77 to 85, \<open>M_seed\<close> lines 88 to 96,
  \<open>M_wait\<close> and \<open>M_join i\<close> are \<^verbatim>\<open>wait_for_completion\<close>, and the last step, once the
  joins are made, is lines 99 to 103.
\<close>

definition main_seed :: "state \<Rightarrow> stop + state" where
  "main_seed s =
     (let (initial_arg, s1) = malloc s in
      then_r (DIE (initial_arg = None) ''malloc'' s1) (\<lambda>s2.
        case initial_arg of
          None \<Rightarrow> Inl (Fatal ''malloc'')
        | Some a \<Rightarrow>
            (let s3 = s2\<lparr>uints := (uints s2)(a \<mapsto> 0)\<rparr> in
             then_r (create_task Process_node a (Some Free_function) s3)
               (\<lambda>(initial_task, s4). enqueue_task Main_thread (Some initial_task) s4))))"

definition main_init :: "nat \<Rightarrow> state \<Rightarrow> stop + state" where
  "main_init n s =
     (let (rc, s1) = pthread_mutex_init Mutex_graph s;
          s2 = s1\<lparr>sum_total := 0\<rparr>
      in
      if length (nodes s2) \<le> length (visited s2) then
        create_threadpool n
          (s2\<lparr>visited := replicate (length (nodes s2)) NOT_VISITED
                            @ drop (length (nodes s2)) (visited s2)\<rparr>)
      else Inl (Fault ''visited: index out of range''))"

definition main_finish :: "state \<Rightarrow> stop + state" where
  "main_finish s =
     then_r (destroy_threadpool s) (\<lambda>s1.
       let (rc, s2) = pthread_mutex_destroy Mutex_graph s1
       in Inr (s2\<lparr>printed := Some (sum_total s2)\<rparr>))"

definition main_step :: "nat \<Rightarrow> state \<Rightarrow> stop + state" where
  "main_step n s =
     (case mpc s of
        M_start \<Rightarrow> then_r (main_init n s) (\<lambda>s1. Inr (s1\<lparr>mpc := M_seed\<rparr>))
      | M_seed \<Rightarrow> then_r (main_seed s) (\<lambda>s1. Inr (s1\<lparr>mpc := M_wait\<rparr>))
      | M_wait \<Rightarrow>
          then_r (wait_for_completion_signal Main_thread s) (\<lambda>s1. Inr (s1\<lparr>mpc := M_join 0\<rparr>))
      | M_join i \<Rightarrow>
          if i < num_threads s then
            then_r (wait_for_completion_join i s) (\<lambda>s1. Inr (s1\<lparr>mpc := M_join (Suc i)\<rparr>))
          else then_r (main_finish s) (\<lambda>s1. Inr (s1\<lparr>mpc := M_exit\<rparr>))
      | M_exit \<Rightarrow> Inl Blocked)"

definition step :: "nat \<Rightarrow> thread \<Rightarrow> state \<Rightarrow> stop + state" where
  "step n th s = (case th of Main_thread \<Rightarrow> main_step n s | Worker w \<Rightarrow> worker_step w s)"

text \<open>
  A schedule is the list of the threads that move, in order. The run stops at the first
  step that does not return a state: a schedule that names a thread which cannot move
  is \<open>Blocked\<close>.
\<close>

fun run :: "nat \<Rightarrow> thread list \<Rightarrow> state \<Rightarrow> stop + state" where
  "run n [] s = Inr s"
| "run n (th # ths) s = then_r (step n th s) (run n ths)"

text \<open>
  The state at line 77: the graph as \<^verbatim>\<open>create_graph_from_file\<close> returned it, the
  environment's answers, no thread but \<^verbatim>\<open>main\<close>, nothing allocated.
\<close>

definition boot :: "(nat \<Rightarrow> int) \<Rightarrow> os_node list \<Rightarrow> visited_t list \<Rightarrow> state" where
  "boot env ns vs =
     \<lparr>num_threads = 0, threads = [], num_tasks = 0, finished = False,
      lnext = (\<lambda>n. Head), lprev = (\<lambda>n. Head), tasks = Map.empty, uints = Map.empty,
      brk = 0, sum_total = 0, nodes = ns, visited = vs, mutex = (\<lambda>m. None),
      lock_log = [], rcs = env, clock = 0, workers = [], mpc = M_start, printed = None\<rparr>"

section \<open>Notions of the specification\<close>

text \<open>
  \<open>chain f a ts b\<close>: following the field \<open>f\<close> from node \<open>a\<close> passes through the list
  nodes of the tasks \<open>ts\<close>, in this order, and then reaches \<open>b\<close>. The tasks \<open>q\<close> are
  linked in the queue, first to last, when \<^verbatim>\<open>next\<close> leads from the head through \<open>q\<close>
  back to the head and \<^verbatim>\<open>prev\<close> does so through \<open>q\<close> reversed. \<open>calls_ok\<close>: no library
  call ever reports an error. \<open>queue_inv\<close>: the count is the number of linked tasks.
\<close>

primrec chain :: "(node_ref \<Rightarrow> node_ref) \<Rightarrow> node_ref \<Rightarrow> addr list \<Rightarrow> node_ref \<Rightarrow> bool" where
  "chain f a [] b = (f a = b)"
| "chain f a (t # ts) b = (f a = Task_node t \<and> chain f (Task_node t) ts b)"

definition linked :: "state \<Rightarrow> addr list \<Rightarrow> bool" where
  "linked s q = (distinct q \<and> chain (lnext s) Head q Head \<and> chain (lprev s) Head (rev q) Head)"

definition calls_ok :: "state \<Rightarrow> bool" where
  "calls_ok s = (\<forall>i. rcs s i = 0)"

definition queue_inv :: "state \<Rightarrow> addr list \<Rightarrow> bool" where
  "queue_inv s q = (linked s q \<and> unat (num_tasks s) = length q)"

text \<open>The scenarios of the claims about order: enqueue some tasks, dequeue some times.\<close>

primrec enqueue_all :: "thread \<Rightarrow> addr list \<Rightarrow> state \<Rightarrow> stop + state" where
  "enqueue_all me [] s = Inr s"
| "enqueue_all me (t # ts) s = then_r (enqueue_task me (Some t) s) (enqueue_all me ts)"

primrec dequeue_n :: "thread \<Rightarrow> nat \<Rightarrow> state \<Rightarrow> stop + addr option list \<times> state" where
  "dequeue_n me 0 s = Inr ([], s)"
| "dequeue_n me (Suc k) s =
     then_r (dequeue_task me s) (\<lambda>(r, s1).
     then_r (dequeue_n me k s1) (\<lambda>(rs, s2). Inr (r # rs, s2)))"

text \<open>A pool whose queue is initialised and empty, in an environment without failures.\<close>

definition empty_pool :: state where
  "empty_pool = list_init Head (boot (\<lambda>i. 0) [] [])"

text \<open>
  Concrete states and environments: a pool after shutdown was requested, with one worker
  at the top of its loop; two tasks on the heap, one without a destructor; an environment
  in which the sixth library call returns \<^verbatim>\<open>EAGAIN\<close> (11), and one in which the third
  returns \<^verbatim>\<open>EPERM\<close> (1).
\<close>

definition finished_pool :: state where
  "finished_pool = empty_pool\<lparr>finished := True, workers := [W_dequeue]\<rparr>"

definition two_tasks :: state where
  "two_tasks = empty_pool\<lparr>
     tasks := [1 \<mapsto> \<lparr>argument = 0, action = Process_node, destroy_arg = None\<rparr>,
               3 \<mapsto> \<lparr>argument = 2, action = Process_node, destroy_arg = Some Free_function\<rparr>],
     uints := [0 \<mapsto> 5, 2 \<mapsto> 6], brk := 4\<rparr>"

definition eagain_env :: "nat \<Rightarrow> int" where
  "eagain_env i = (if i = 5 then 11 else 0)"

definition eperm_env :: "nat \<Rightarrow> int" where
  "eperm_env i = (if i = 2 then 1 else 0)"

section \<open>The traversal: graphs, abstraction and invariants\<close>

text \<open>Reachability in the graph, and the graphs the program is defined on.\<close>

definition edges :: "os_node list \<Rightarrow> (nat \<times> nat) set" where
  "edges g = {(u, v). u < length g \<and> v \<in> set (neighbours (g ! u))}"

definition reachable :: "os_node list \<Rightarrow> nat set" where
  "reachable g = {v. (0, v) \<in> (edges g)\<^sup>*}"

definition num_edges :: "os_node list \<Rightarrow> nat" where
  "num_edges g = (\<Sum>u<length g. length (neighbours (g ! u)))"

definition wf_graph :: "os_node list \<Rightarrow> bool" where
  "wf_graph g =
     (0 < length g \<and> (\<forall>u<length g. \<forall>v\<in>set (neighbours (g ! u)). v < length g) \<and>
      Suc (num_edges g) < 2 ^ 32)"

text \<open>The number of steps of a run that mark node \<open>v\<close> done.\<close>

fun visits :: "nat \<Rightarrow> nat \<Rightarrow> thread list \<Rightarrow> state \<Rightarrow> nat" where
  "visits n v [] s = 0"
| "visits n v (th # ths) s =
     (case step n th s of
        Inl e \<Rightarrow> 0
      | Inr s' \<Rightarrow>
          (if v < length (visited s) \<and> visited s ! v = NOT_VISITED \<and> visited s' ! v = DONE
           then 1 else 0) + visits n v ths s')"

text \<open>
  The abstraction used in the proofs: a task is the node index it carries, the queue the
  list of these indices, a worker at a task stands at its index.
\<close>

datatype apc = A_dequeue | A_action nat | A_loop nat nat | A_exited

record astate =
  a_queue :: "nat list"
  a_workers :: "apc list"
  a_visited :: "visited_t list"
  a_sum :: "32 word"
  a_finished :: bool
  a_mpc :: main_pc

fun is_loop :: "apc \<Rightarrow> bool" where
  "is_loop (A_loop idx i) = True"
| "is_loop p = False"

definition a_locked :: "astate \<Rightarrow> bool" where
  "a_locked a = (\<exists>p\<in>set (a_workers a). is_loop p)"

definition a_set_worker :: "nat \<Rightarrow> apc \<Rightarrow> astate \<Rightarrow> astate" where
  "a_set_worker w p a = a\<lparr>a_workers := (a_workers a)[w := p]\<rparr>"

definition a_worker_step :: "os_node list \<Rightarrow> nat \<Rightarrow> astate \<Rightarrow> astate option" where
  "a_worker_step g w a =
     (if w < length (a_workers a) then
        (case a_workers a ! w of
           A_dequeue \<Rightarrow>
             if a_queue a = [] then
               (if a_finished a then Some (a_set_worker w A_exited a) else None)
             else Some (a_set_worker w (A_action (last (a_queue a)))
                          (a\<lparr>a_queue := butlast (a_queue a)\<rparr>))
         | A_action idx \<Rightarrow>
             if a_locked a then None
             else if a_visited a ! idx = NOT_VISITED then
               Some (a_set_worker w (A_loop idx 0)
                       (a\<lparr>a_visited := (a_visited a)[idx := DONE],
                          a_sum := a_sum a + info (g ! idx)\<rparr>))
             else Some (a_set_worker w A_dequeue a)
         | A_loop idx i \<Rightarrow>
             if i < length (neighbours (g ! idx)) then
               (if a_visited a ! (neighbours (g ! idx) ! i) = NOT_VISITED then
                  Some (a_set_worker w (A_loop idx (Suc i))
                          (a\<lparr>a_queue := a_queue a @ [neighbours (g ! idx) ! i]\<rparr>))
                else Some (a_set_worker w (A_loop idx (Suc i)) a))
             else Some (a_set_worker w A_dequeue a)
         | A_exited \<Rightarrow> None)
      else None)"

definition a_main_step :: "os_node list \<Rightarrow> nat \<Rightarrow> astate \<Rightarrow> astate option" where
  "a_main_step g n a =
     (case a_mpc a of
        M_start \<Rightarrow> None
      | M_seed \<Rightarrow> Some (a\<lparr>a_queue := a_queue a @ [0], a_mpc := M_wait\<rparr>)
      | M_wait \<Rightarrow> Some (a\<lparr>a_finished := True, a_mpc := M_join 0\<rparr>)
      | M_join i \<Rightarrow>
          if i < n then
            (if a_workers a ! i = A_exited then Some (a\<lparr>a_mpc := M_join (Suc i)\<rparr>) else None)
          else Some (a\<lparr>a_mpc := M_exit\<rparr>)
      | M_exit \<Rightarrow> None)"

definition a_step :: "os_node list \<Rightarrow> nat \<Rightarrow> thread \<Rightarrow> astate \<Rightarrow> astate option" where
  "a_step g n th a =
     (case th of Main_thread \<Rightarrow> a_main_step g n a | Worker w \<Rightarrow> a_worker_step g w a)"

definition a_init :: "os_node list \<Rightarrow> nat \<Rightarrow> astate" where
  "a_init g n =
     \<lparr>a_queue = [], a_workers = replicate n A_dequeue,
      a_visited = replicate (length g) NOT_VISITED, a_sum = 0, a_finished = False,
      a_mpc = M_seed\<rparr>"

definition idx_of :: "state \<Rightarrow> addr \<Rightarrow> nat" where
  "idx_of s t = the (uints s (argument (the (tasks s t))))"

fun apc_of :: "state \<Rightarrow> worker_pc \<Rightarrow> apc" where
  "apc_of s W_dequeue = A_dequeue"
| "apc_of s (W_action t) = A_action (idx_of s t)"
| "apc_of s (W_loop t idx i) = A_loop idx i"
| "apc_of s W_exited = A_exited"

definition abs_state :: "state \<Rightarrow> addr list \<Rightarrow> astate" where
  "abs_state s q =
     \<lparr>a_queue = map (idx_of s) q, a_workers = map (apc_of s) (workers s),
      a_visited = visited s, a_sum = sum_total s, a_finished = finished s, a_mpc = mpc s\<rparr>"

text \<open>The invariant of the memory: queue, heap, mutexes, thread table.\<close>

fun held_task :: "worker_pc \<Rightarrow> addr option" where
  "held_task (W_action t) = Some t"
| "held_task (W_loop t idx i) = Some t"
| "held_task pc = None"

definition pending :: "state \<Rightarrow> addr list \<Rightarrow> addr set" where
  "pending s q =
     set q \<union> {t. \<exists>w<length (workers s). held_task (workers s ! w) = Some t}"

definition valid_task :: "state \<Rightarrow> addr \<Rightarrow> bool" where
  "valid_task s t =
     (\<exists>a v. tasks s t = Some \<lparr>argument = a, action = Process_node,
                               destroy_arg = Some Free_function\<rparr> \<and> uints s a = Some v)"

definition arg_of :: "state \<Rightarrow> addr \<Rightarrow> addr" where
  "arg_of s t = argument (the (tasks s t))"

definition cinv_env :: "os_node list \<Rightarrow> nat \<Rightarrow> state \<Rightarrow> bool" where
  "cinv_env g n s =
     (calls_ok s \<and> nodes s = g \<and> num_threads s = n \<and> length (workers s) = n \<and>
      threads s = map Some [0..<n] \<and> mutex s Mutex_queue = None)"

fun in_loop :: "worker_pc \<Rightarrow> bool" where
  "in_loop (W_loop t idx i) = True"
| "in_loop pc = False"

definition cinv_mutex :: "state \<Rightarrow> bool" where
  "cinv_mutex s =
     ((\<forall>w<length (workers s). in_loop (workers s ! w) = (mutex s Mutex_graph = Some (Worker w))) \<and>
      (mutex s Mutex_graph = None \<or>
       (\<exists>w<length (workers s). mutex s Mutex_graph = Some (Worker w))))"

definition cinv_heap :: "state \<Rightarrow> addr list \<Rightarrow> bool" where
  "cinv_heap s q =
     ((\<forall>t\<in>pending s q. valid_task s t) \<and>
      (\<forall>w<length (workers s). \<forall>t. held_task (workers s ! w) = Some t \<longrightarrow> t \<notin> set q) \<and>
      (\<forall>w<length (workers s). \<forall>w'<length (workers s). \<forall>t.
          held_task (workers s ! w) = Some t \<longrightarrow> held_task (workers s ! w') = Some t \<longrightarrow> w = w') \<and>
      inj_on (arg_of s) (pending s q) \<and>
      dom (tasks s) \<subseteq> {..<brk s} \<and> dom (uints s) \<subseteq> {..<brk s})"

definition cinv :: "os_node list \<Rightarrow> nat \<Rightarrow> state \<Rightarrow> addr list \<Rightarrow> bool" where
  "cinv g n s q = (cinv_env g n s \<and> queue_inv s q \<and> cinv_mutex s \<and> cinv_heap s q)"

text \<open>
  The potential bounds the length of the queue, the measure falls at every step, and
  the invariant of the abstraction says what the memory of a run stands for.
\<close>

definition deg :: "os_node list \<Rightarrow> nat \<Rightarrow> nat" where
  "deg g u = length (neighbours (g ! u))"

definition unvisited :: "os_node list \<Rightarrow> astate \<Rightarrow> nat set" where
  "unvisited g a = {v. v < length g \<and> a_visited a ! v = NOT_VISITED}"

definition done_nodes :: "os_node list \<Rightarrow> astate \<Rightarrow> nat set" where
  "done_nodes g a = {v. v < length g \<and> a_visited a ! v = DONE}"

fun pot_w :: "os_node list \<Rightarrow> apc \<Rightarrow> nat" where
  "pot_w g (A_action idx) = 1"
| "pot_w g (A_loop u i) = Suc (deg g u - i)"
| "pot_w g p = 0"

definition potential :: "os_node list \<Rightarrow> astate \<Rightarrow> nat" where
  "potential g a =
     length (a_queue a) + sum_list (map (pot_w g) (a_workers a))
     + (\<Sum>v\<in>unvisited g a. deg g v) + (if a_mpc a = M_seed then 1 else 0)"

fun mu_w :: "os_node list \<Rightarrow> apc \<Rightarrow> nat" where
  "mu_w g A_dequeue = 1"
| "mu_w g (A_action idx) = 3"
| "mu_w g (A_loop u i) = 2 + 4 * (deg g u - i)"
| "mu_w g A_exited = 0"

fun mu_m :: "nat \<Rightarrow> main_pc \<Rightarrow> nat" where
  "mu_m n M_start = n + 7"
| "mu_m n M_seed = n + 6"
| "mu_m n M_wait = n + 2"
| "mu_m n (M_join i) = Suc (n - i)"
| "mu_m n M_exit = 0"

definition mu :: "os_node list \<Rightarrow> nat \<Rightarrow> astate \<Rightarrow> nat" where
  "mu g n a =
     3 * length (a_queue a) + sum_list (map (mu_w g) (a_workers a))
     + 4 * (\<Sum>v\<in>unvisited g a. deg g v) + mu_m n (a_mpc a)"

definition ainv_shape :: "os_node list \<Rightarrow> nat \<Rightarrow> astate \<Rightarrow> bool" where
  "ainv_shape g n a = (length (a_visited a) = length g \<and> length (a_workers a) = n)"

fun apc_ok :: "os_node list \<Rightarrow> astate \<Rightarrow> apc \<Rightarrow> bool" where
  "apc_ok g a (A_action idx) = (idx \<in> reachable g)"
| "apc_ok g a (A_loop idx i) =
     (idx \<in> reachable g \<and> i \<le> deg g idx \<and> a_visited a ! idx = DONE)"
| "apc_ok g a p = True"

definition ainv_reach :: "os_node list \<Rightarrow> astate \<Rightarrow> bool" where
  "ainv_reach g a =
     ((\<forall>idx\<in>set (a_queue a). idx \<in> reachable g) \<and>
      (\<forall>p\<in>set (a_workers a). apc_ok g a p) \<and>
      done_nodes g a \<subseteq> reachable g)"

definition ainv_sum :: "os_node list \<Rightarrow> astate \<Rightarrow> bool" where
  "ainv_sum g a = (a_sum a = (\<Sum>v\<in>done_nodes g a. info (g ! v)))"

text \<open>Node \<open>v\<close> is on its way: in the queue or at a worker about to process it.\<close>

definition underway :: "astate \<Rightarrow> nat \<Rightarrow> bool" where
  "underway a v = (v \<in> set (a_queue a) \<or> A_action v \<in> set (a_workers a))"

definition ainv_closed :: "os_node list \<Rightarrow> astate \<Rightarrow> bool" where
  "ainv_closed g a =
     ((\<forall>u\<in>done_nodes g a. \<forall>j<deg g u.
         neighbours (g ! u) ! j \<in> done_nodes g a \<or> underway a (neighbours (g ! u) ! j) \<or>
         (\<exists>i\<le>j. A_loop u i \<in> set (a_workers a))) \<and>
      (a_mpc a = M_seed \<or> 0 \<in> done_nodes g a \<or> underway a 0))"

definition ainv_lock :: "nat \<Rightarrow> astate \<Rightarrow> bool" where
  "ainv_lock n a =
     (\<forall>w<n. \<forall>w'<n. is_loop (a_workers a ! w) \<longrightarrow> is_loop (a_workers a ! w') \<longrightarrow> w = w')"

definition ainv_ctl :: "os_node list \<Rightarrow> nat \<Rightarrow> astate \<Rightarrow> bool" where
  "ainv_ctl g n a =
     (a_mpc a \<noteq> M_start \<and>
      (a_mpc a = M_seed \<or> a_mpc a = M_wait \<longrightarrow> \<not> a_finished a) \<and>
      (\<not> a_finished a \<longrightarrow> A_exited \<notin> set (a_workers a)) \<and>
      (a_mpc a = M_seed \<longrightarrow> a_queue a = [] \<and> (\<forall>p\<in>set (a_workers a). p = A_dequeue) \<and>
         (\<forall>v\<in>set (a_visited a). v = NOT_VISITED)) \<and>
      (a_mpc a = M_exit \<or> (\<exists>i. a_mpc a = M_join i) \<longrightarrow> a_finished a) \<and>
      (\<forall>i. a_mpc a = M_join i \<longrightarrow> i \<le> n \<and> (\<forall>j<i. a_workers a ! j = A_exited)) \<and>
      (a_mpc a = M_exit \<longrightarrow> (\<forall>j<n. a_workers a ! j = A_exited)) \<and>
      ((\<forall>j<n. a_workers a ! j = A_exited) \<longrightarrow> a_queue a = []))"

definition ainv_pot :: "os_node list \<Rightarrow> astate \<Rightarrow> bool" where
  "ainv_pot g a = (potential g a \<le> Suc (num_edges g))"

definition ainv :: "os_node list \<Rightarrow> nat \<Rightarrow> astate \<Rightarrow> bool" where
  "ainv g n a =
     (ainv_shape g n a \<and> ainv_reach g a \<and> ainv_sum g a \<and> ainv_closed g a \<and>
      ainv_lock n a \<and> ainv_ctl g n a \<and> ainv_pot g a)"

text \<open>A node is marked once: the steps that mark it are counted by the marks.\<close>

definition marked :: "state \<Rightarrow> nat \<Rightarrow> nat" where
  "marked s v = (if visited s ! v = DONE then 1 else 0)"

text \<open>A graph of five nodes: node 4, of value 99, is not reachable from node 0.\<close>

definition g0 :: "os_node list" where
  "g0 = [\<lparr>info = 10, neighbours = [1, 2]\<rparr>, \<lparr>info = 20, neighbours = [3]\<rparr>,
         \<lparr>info = 30, neighbours = [3, 0]\<rparr>, \<lparr>info = 40, neighbours = []\<rparr>,
         \<lparr>info = 99, neighbours = [0]\<rparr>]"

text \<open>A worker about to run a task for a node that is done already.\<close>

definition seen_node :: state where
  "seen_node = (boot (\<lambda>i. 0) [\<lparr>info = 5, neighbours = [0]\<rparr>] [DONE])\<lparr>
     tasks := [3 \<mapsto> \<lparr>argument = 2, action = Process_node, destroy_arg = Some Free_function\<rparr>],
     uints := [2 \<mapsto> 0], brk := 4, sum_total := 5, workers := [W_action 3]\<rparr>"

text \<open>
  What a step has submitted: when the count of the queue has grown by one, the node
  index carried by the task now at the end of the list. \<open>submissions n me sched s\<close>
  collects this over the steps that thread \<open>me\<close> makes in the run of \<open>sched\<close> from \<open>s\<close>.
\<close>

definition submitted :: "state \<Rightarrow> state \<Rightarrow> nat list" where
  "submitted s s' =
     (if num_tasks s' = num_tasks s + 1 then
        (case lprev s' Head of Head \<Rightarrow> [] | Task_node t \<Rightarrow> [idx_of s' t])
      else [])"

fun submissions :: "nat \<Rightarrow> thread \<Rightarrow> thread list \<Rightarrow> state \<Rightarrow> nat list" where
  "submissions n me [] s = []"
| "submissions n me (th # ths) s =
     (case step n th s of
        Inl e \<Rightarrow> []
      | Inr s' \<Rightarrow> (if th = me then submitted s s' else []) @ submissions n me ths s')"

text \<open>
  Reading the log of lock events. \<open>holding log th m\<close>: after the events of \<open>log\<close>, thread
  \<open>th\<close> holds mutex \<open>m\<close>, its last event on \<open>m\<close> being an acquisition.
  \<open>acquired_under m m' log\<close>: somewhere in \<open>log\<close> a thread acquires \<open>m\<close> while it holds
  \<open>m'\<close>. Both scan the log from its last event back.
\<close>

primrec holding_rev :: "(thread \<times> lock_event) list \<Rightarrow> thread \<Rightarrow> mutex \<Rightarrow> bool" where
  "holding_rev [] th m = False"
| "holding_rev (e # es) th m =
     (if e = (th, Acquire m) then True
      else if e = (th, Release m) then False
      else holding_rev es th m)"

definition holding :: "(thread \<times> lock_event) list \<Rightarrow> thread \<Rightarrow> mutex \<Rightarrow> bool" where
  "holding log th m = holding_rev (rev log) th m"

primrec acquired_under_rev :: "mutex \<Rightarrow> mutex \<Rightarrow> (thread \<times> lock_event) list \<Rightarrow> bool" where
  "acquired_under_rev m m' [] = False"
| "acquired_under_rev m m' (e # es) =
     ((snd e = Acquire m \<and> holding_rev es (fst e) m') \<or> acquired_under_rev m m' es)"

definition acquired_under :: "mutex \<Rightarrow> mutex \<Rightarrow> (thread \<times> lock_event) list \<Rightarrow> bool" where
  "acquired_under m m' log = acquired_under_rev m m' (rev log)"

text \<open>The lock events of the step that a thread makes from a state.\<close>

definition queue_events :: "thread \<Rightarrow> (thread \<times> lock_event) list" where
  "queue_events th = [(th, Acquire Mutex_queue), (th, Release Mutex_queue)]"

definition worker_events :: "nat \<Rightarrow> state \<Rightarrow> (thread \<times> lock_event) list" where
  "worker_events w s =
     (case workers s ! w of
        W_dequeue \<Rightarrow> queue_events (Worker w)
      | W_action t \<Rightarrow>
          if visited s ! idx_of s t = NOT_VISITED then [(Worker w, Acquire Mutex_graph)]
          else [(Worker w, Acquire Mutex_graph), (Worker w, Release Mutex_graph)]
      | W_loop t idx i \<Rightarrow>
          if i < length (neighbours (nodes s ! idx)) then
            (if visited s ! (neighbours (nodes s ! idx) ! i) = NOT_VISITED
             then queue_events (Worker w) else [])
          else [(Worker w, Release Mutex_graph)]
      | W_exited \<Rightarrow> [])"

definition main_events :: "state \<Rightarrow> (thread \<times> lock_event) list" where
  "main_events s =
     (case mpc s of M_seed \<Rightarrow> queue_events Main_thread | M_wait \<Rightarrow> queue_events Main_thread
      | _ \<Rightarrow> [])"

definition step_events :: "thread \<Rightarrow> state \<Rightarrow> (thread \<times> lock_event) list" where
  "step_events th s = (case th of Main_thread \<Rightarrow> main_events s | Worker w \<Rightarrow> worker_events w s)"

text \<open>
  Runs of the abstraction: the states a schedule leads through and the lock events of
  its steps.
\<close>

definition a_events :: "os_node list \<Rightarrow> thread \<Rightarrow> astate \<Rightarrow> (thread \<times> lock_event) list" where
  "a_events g th a =
     (case th of
        Main_thread \<Rightarrow>
          (case a_mpc a of M_seed \<Rightarrow> queue_events Main_thread
           | M_wait \<Rightarrow> queue_events Main_thread | _ \<Rightarrow> [])
      | Worker w \<Rightarrow>
          (case a_workers a ! w of
             A_dequeue \<Rightarrow> queue_events (Worker w)
           | A_action idx \<Rightarrow>
               if a_visited a ! idx = NOT_VISITED then [(Worker w, Acquire Mutex_graph)]
               else [(Worker w, Acquire Mutex_graph), (Worker w, Release Mutex_graph)]
           | A_loop idx i \<Rightarrow>
               if i < length (neighbours (g ! idx)) then
                 (if a_visited a ! (neighbours (g ! idx) ! i) = NOT_VISITED
                  then queue_events (Worker w) else [])
               else [(Worker w, Release Mutex_graph)]
           | A_exited \<Rightarrow> []))"

fun a_run :: "os_node list \<Rightarrow> nat \<Rightarrow> thread list \<Rightarrow> astate \<Rightarrow> astate option" where
  "a_run g n [] a = Some a"
| "a_run g n (th # ths) a =
     (case a_step g n th a of None \<Rightarrow> None | Some a' \<Rightarrow> a_run g n ths a')"

fun a_log :: "os_node list \<Rightarrow> nat \<Rightarrow> thread list \<Rightarrow> astate \<Rightarrow> (thread \<times> lock_event) list" where
  "a_log g n [] a = []"
| "a_log g n (th # ths) a =
     (case a_step g n th a of None \<Rightarrow> [] | Some a' \<Rightarrow> a_events g th a @ a_log g n ths a')"

text \<open>
  The order of the locks in a log: no thread holds the queue mutex at its end, and
  nowhere in it the graph mutex is acquired by a thread that holds the queue mutex.
\<close>

definition log_inv :: "(thread \<times> lock_event) list \<Rightarrow> bool" where
  "log_inv log =
     ((\<forall>th. \<not> holding log th Mutex_queue) \<and> \<not> acquired_under Mutex_graph Mutex_queue log)"

text \<open>
  A schedule for two workers on the graph of five nodes, after the first step of
  \<^verbatim>\<open>main\<close>: the workers share the nodes, node 3 is submitted twice, by node 1 and by
  node 2, and \<^verbatim>\<open>finished\<close> is raised while both still work.
\<close>

definition sched0 :: "thread list" where
  "sched0 = [Main_thread, Worker 0, Worker 0, Worker 0, Worker 1, Worker 0, Worker 0, Worker 1,
     Main_thread, Worker 1, Worker 0, Worker 1, Worker 1, Worker 1, Worker 1, Worker 1, Worker 1,
     Worker 0, Worker 0, Worker 0, Worker 0, Worker 0, Worker 1,
     Main_thread, Main_thread, Main_thread]"

section \<open>The queue as a linked list\<close>

lemma chain_upd_other:
  "c \<noteq> a \<Longrightarrow> c \<notin> Task_node ` set ts \<Longrightarrow> chain (f(c := d)) a ts b = chain f a ts b"
  by (induction ts arbitrary: a) auto

lemma chain_snoc:
  "chain f a (ts @ [t]) b = (chain f a ts (Task_node t) \<and> f (Task_node t) = b)"
  by (induction ts arbitrary: a) auto

lemma chain_retarget:
  "chain f a ts b \<Longrightarrow> a \<notin> Task_node ` set ts \<Longrightarrow> distinct ts \<Longrightarrow>
   chain (f(last (a # map Task_node ts) := c)) a ts c"
proof (induction ts arbitrary: a)
  case Nil
  then show ?case by simp
next
  case (Cons t ts)
  have inj: "last (Task_node t # map Task_node ts) \<in> Task_node ` set (t # ts)"
    by (metis last_in_set list.discI list.map(2) list.set_map)
  with Cons.prems have ne: "last (Task_node t # map Task_node ts) \<noteq> a" by auto
  from Cons.prems have "chain f (Task_node t) ts b" "Task_node t \<notin> Task_node ` set ts" "distinct ts"
    by auto
  from Cons.IH[OF this] Cons.prems ne show ?case by simp
qed

lemma chain_rev_first:
  "chain g a (rev xs) Head \<Longrightarrow> g a = last (Head # map Task_node xs)"
  by (cases xs rule: rev_cases) auto

lemma chain_unique:
  "chain f a xs Head \<Longrightarrow> chain f a ys Head \<Longrightarrow> xs = ys"
proof (induction xs arbitrary: a ys)
  case Nil
  then show ?case by (cases ys) auto
next
  case (Cons x xs)
  then show ?case by (cases ys) auto
qed

lemma linked_unique: "linked s q \<Longrightarrow> linked s q' \<Longrightarrow> q = q'"
  unfolding linked_def using chain_unique by blast

lemma linked_empty_iff: "linked s q \<Longrightarrow> queue_is_empty s = (q = [])"
  unfolding linked_def queue_is_empty_def list_empty_def by (cases q) auto

lemma linked_prev_head: "linked s q \<Longrightarrow> lprev s Head = last (Head # map Task_node q)"
  unfolding linked_def using chain_rev_first by blast

lemma linked_push:
  assumes "linked s q" "t \<notin> set q"
      and nx: "lnext s' = (lnext s)(lprev s Head := Task_node t, Task_node t := Head)"
      and pv: "lprev s' = (lprev s)(Task_node t := lprev s Head, Head := Task_node t)"
  shows "linked s' (q @ [t])"
proof -
  let ?L = "last (Head # map Task_node q)"
  from assms have d: "distinct q" and f: "chain (lnext s) Head q Head"
    and g: "chain (lprev s) Head (rev q) Head" by (auto simp: linked_def)
  have L: "lprev s Head = ?L" using assms(1) by (rule linked_prev_head)
  have hq: "Head \<notin> Task_node ` set q" by auto
  have tq: "Task_node t \<notin> Task_node ` set q" using assms(2) by auto
  have "chain ((lnext s)(?L := Task_node t)) Head q (Task_node t)"
    using chain_retarget[OF f hq d] .
  then have "chain ((lnext s)(?L := Task_node t, Task_node t := Head)) Head q (Task_node t)"
    using tq by (simp add: chain_upd_other)
  then have F: "chain (lnext s') Head (q @ [t]) Head"
    by (simp add: chain_snoc nx L)
  have G: "chain (lprev s') (Task_node t) (rev q) Head"
  proof (cases q rule: rev_cases)
    case Nil
    with g show ?thesis by (simp add: pv)
  next
    case (snoc xs x)
    with g have g1: "lprev s Head = Task_node x" "chain (lprev s) (Task_node x) (rev xs) Head"
      by auto
    from snoc assms(2) d have "Task_node t \<noteq> Task_node x" "Task_node t \<notin> Task_node ` set (rev xs)"
      "Head \<notin> Task_node ` set (rev xs)" by auto
    with g1 show ?thesis unfolding pv snoc
      by (simp add: chain_upd_other)
  qed
  have "chain (lprev s') Head (rev (q @ [t])) Head"
    using G by (simp add: pv)
  with F d assms(2) show ?thesis by (simp add: linked_def)
qed

lemma linked_pop:
  assumes "linked s (xs @ [x])"
  shows "lprev s Head = Task_node x"
    and "lnext s (Task_node x) = Head"
    and "lprev s (Task_node x) = last (Head # map Task_node xs)"
    and "lnext s' = (lnext s)(lprev s (Task_node x) := Head) \<Longrightarrow>
         lprev s' = (lprev s)(Head := lprev s (Task_node x)) \<Longrightarrow> linked s' xs"
proof -
  from assms have d: "distinct xs" "x \<notin> set xs" and f: "chain (lnext s) Head (xs @ [x]) Head"
    and g: "chain (lprev s) Head (x # rev xs) Head" by (auto simp: linked_def)
  show 1: "lprev s Head = Task_node x" using g by simp
  show 2: "lnext s (Task_node x) = Head" using f by (simp add: chain_snoc)
  from g have g1: "chain (lprev s) (Task_node x) (rev xs) Head" by simp
  show 3: "lprev s (Task_node x) = last (Head # map Task_node xs)"
    using chain_rev_first[OF g1] .
  assume nx: "lnext s' = (lnext s)(lprev s (Task_node x) := Head)"
    and pv: "lprev s' = (lprev s)(Head := lprev s (Task_node x))"
  from f have f1: "chain (lnext s) Head xs (Task_node x)" by (simp add: chain_snoc)
  have hq: "Head \<notin> Task_node ` set xs" by auto
  have F: "chain (lnext s') Head xs Head"
    unfolding nx 3 using chain_retarget[OF f1 hq d(1)] .
  have G: "chain (lprev s') Head (rev xs) Head"
  proof (cases xs rule: rev_cases)
    case Nil
    with g1 show ?thesis by (simp add: pv)
  next
    case (snoc ys y)
    with g1 have "lprev s (Task_node x) = Task_node y" "chain (lprev s) (Task_node y) (rev ys) Head"
      by auto
    moreover have "Head \<notin> Task_node ` set (rev ys)" by auto
    ultimately show ?thesis unfolding pv snoc by (simp add: chain_upd_other)
  qed
  from F G d show "linked s' xs" by (simp add: linked_def)
qed

lemma calls_okD: "calls_ok s \<Longrightarrow> rcs s i = 0"
  by (simp add: calls_ok_def)

lemma enqueue_task_ok:
  assumes "calls_ok s" "mutex s Mutex_queue = None"
  shows "enqueue_task me (Some t) s =
     Inr (s\<lparr>num_tasks := num_tasks s + 1,
            lnext := (lnext s)(lprev s Head := Task_node t, Task_node t := Head),
            lprev := (lprev s)(Task_node t := lprev s Head, Head := Task_node t),
            lock_log := lock_log s @ [(me, Acquire Mutex_queue), (me, Release Mutex_queue)],
            clock := clock s + 3\<rparr>)"
proof -
  have m: "(mutex s)(Mutex_queue := None) = mutex s"
    using assms(2) by (metis fun_upd_triv)
  show ?thesis
    using assms
    by (simp add: enqueue_task_def pthread_mutex_lock_def pthread_mutex_unlock_def
        pthread_cond_broadcast_def libc_call_def then_r_def DIE_def calls_okD m Let_def)
qed

lemma dequeue_task_wait:
  assumes "calls_ok s" "mutex s Mutex_queue = None" "queue_is_empty s" "\<not> finished s"
  shows "dequeue_task me s = Inl Blocked"
  using assms
  by (simp add: dequeue_task_def pthread_mutex_lock_def pthread_cond_wait_def
      libc_call_def then_r_def DIE_def calls_okD Let_def queue_is_empty_def list_empty_def)

lemma dequeue_task_null:
  assumes "calls_ok s" "mutex s Mutex_queue = None" "\<not> (queue_is_empty s \<and> \<not> finished s)"
    "num_tasks s = 0"
  shows "dequeue_task me s =
     Inr (None, s\<lparr>lock_log := lock_log s @ [(me, Acquire Mutex_queue), (me, Release Mutex_queue)],
                  clock := clock s + 2\<rparr>)"
proof -
  have m: "(mutex s)(Mutex_queue := None) = mutex s"
    using assms(2) by (metis fun_upd_triv)
  show ?thesis
    using assms
    by (auto simp add: dequeue_task_def pthread_mutex_lock_def pthread_mutex_unlock_def
      libc_call_def then_r_def DIE_def calls_okD Let_def queue_is_empty_def list_empty_def m)
qed

lemma dequeue_task_some:
  assumes "calls_ok s" "mutex s Mutex_queue = None" "\<not> (queue_is_empty s \<and> \<not> finished s)"
    "num_tasks s \<noteq> 0" "lprev s Head = Task_node t"
  shows "dequeue_task me s =
     Inr (Some t, s\<lparr>num_tasks := num_tasks s - 1,
                  lnext := (lnext s)(lprev s (Task_node t) := lnext s (Task_node t)),
                  lprev := (lprev s)(lnext s (Task_node t) := lprev s (Task_node t)),
                  lock_log := lock_log s @ [(me, Acquire Mutex_queue), (me, Release Mutex_queue)],
                  clock := clock s + 2\<rparr>)"
proof -
  have m: "(mutex s)(Mutex_queue := None) = mutex s"
    using assms(2) by (metis fun_upd_triv)
  show ?thesis
    using assms
    by (auto simp add: dequeue_task_def pthread_mutex_lock_def pthread_mutex_unlock_def list_del_def list_entry_def
      libc_call_def then_r_def DIE_def calls_okD Let_def queue_is_empty_def list_empty_def m)
qed

lemma enqueue_task_InrD:
  assumes "enqueue_task me p s = Inr s'"
  shows "\<exists>t. p = Some t \<and> mutex s Mutex_queue = None \<and>
     s' = s\<lparr>num_tasks := num_tasks s + 1,
            lnext := (lnext s)(lprev s Head := Task_node t, Task_node t := Head),
            lprev := (lprev s)(Task_node t := lprev s Head, Head := Task_node t),
            lock_log := lock_log s @ [(me, Acquire Mutex_queue), (me, Release Mutex_queue)],
            clock := clock s + 3\<rparr>"
proof -
  from assms obtain t where p: "p = Some t"
    by (cases p) (auto simp: enqueue_task_def)
  from assms p have m: "mutex s Mutex_queue = None"
    by (auto simp: enqueue_task_def pthread_mutex_lock_def then_r_def split: option.splits)
  then have m': "(mutex s)(Mutex_queue := None) = mutex s"
    by (metis fun_upd_triv)
  from assms p m show ?thesis
    by (auto simp: enqueue_task_def pthread_mutex_lock_def pthread_mutex_unlock_def
        pthread_cond_broadcast_def libc_call_def then_r_def DIE_def Let_def m'
        split: if_splits)
qed

lemma dequeue_task_InrD:
  assumes "dequeue_task me s = Inr (r, s')"
  shows "mutex s Mutex_queue = None \<and> (queue_is_empty s \<longrightarrow> finished s) \<and>
     (if num_tasks s = 0
      then r = None \<and>
           s' = s\<lparr>lock_log := lock_log s @ [(me, Acquire Mutex_queue), (me, Release Mutex_queue)],
                  clock := clock s + 2\<rparr>
      else \<exists>t. lprev s Head = Task_node t \<and> r = Some t \<and>
           s' = s\<lparr>num_tasks := num_tasks s - 1,
                  lnext := (lnext s)(lprev s (Task_node t) := lnext s (Task_node t)),
                  lprev := (lprev s)(lnext s (Task_node t) := lprev s (Task_node t)),
                  lock_log := lock_log s @ [(me, Acquire Mutex_queue), (me, Release Mutex_queue)],
                  clock := clock s + 2\<rparr>)"
proof -
  from assms have m: "mutex s Mutex_queue = None"
    by (auto simp: dequeue_task_def pthread_mutex_lock_def then_r_def split: option.splits)
  then have m': "(mutex s)(Mutex_queue := None) = mutex s"
    by (metis fun_upd_triv)
  from assms m show ?thesis
    by (cases "lprev s Head")
      (auto simp: dequeue_task_def pthread_mutex_lock_def pthread_mutex_unlock_def
        pthread_cond_wait_def list_del_def list_entry_def queue_is_empty_def list_empty_def
        libc_call_def then_r_def DIE_def Let_def m'
        split: if_splits)
qed

lemma queue_inv_enqueue:
  assumes "queue_inv s q" "t \<notin> set q" "length q < 2 ^ 32 - 1"
    and "enqueue_task me (Some t) s = Inr s'"
  shows "queue_inv s' (q @ [t])"
proof -
  from enqueue_task_InrD[OF assms(4)] have
    s': "s' = s\<lparr>num_tasks := num_tasks s + 1,
            lnext := (lnext s)(lprev s Head := Task_node t, Task_node t := Head),
            lprev := (lprev s)(Task_node t := lprev s Head, Head := Task_node t),
            lock_log := lock_log s @ [(me, Acquire Mutex_queue), (me, Release Mutex_queue)],
            clock := clock s + 3\<rparr>" by auto
  from assms(1) have l: "linked s q" and n: "unat (num_tasks s) = length q"
    by (auto simp: queue_inv_def)
  have "linked s' (q @ [t])"
    by (rule linked_push[OF l assms(2)]) (simp_all add: s')
  moreover have "unat (num_tasks s + 1) = unat (num_tasks s) + 1"
    using n assms(3) by (subst unat_add_lem[THEN iffD1]) simp_all
  ultimately show ?thesis using n by (simp add: queue_inv_def s')
qed

lemma queue_inv_dequeue:
  assumes "queue_inv s q" "dequeue_task me s = Inr (r, s')"
  shows "(queue_is_empty s \<longrightarrow> finished s) \<and>
         (if q = [] then r = None \<and> queue_inv s' q
          else r = Some (last q) \<and> queue_inv s' (butlast q))"
proof -
  note D = dequeue_task_InrD[OF assms(2)]
  from assms(1) have l: "linked s q" and n: "unat (num_tasks s) = length q"
    by (auto simp: queue_inv_def)
  show ?thesis
  proof (cases q rule: rev_cases)
    case Nil
    with n have "num_tasks s = 0" by (simp add: unat_0_iff)
    with D Nil assms(1) show ?thesis by (auto simp: queue_inv_def linked_def)
  next
    case (snoc xs x)
    with n have nz: "num_tasks s \<noteq> 0" by (auto simp flip: unat_0_iff)
    note P = linked_pop[OF l[unfolded snoc]]
    from D nz P(1) have r: "r = Some x"
      and s': "s' = s\<lparr>num_tasks := num_tasks s - 1,
                  lnext := (lnext s)(lprev s (Task_node x) := lnext s (Task_node x)),
                  lprev := (lprev s)(lnext s (Task_node x) := lprev s (Task_node x)),
                  lock_log := lock_log s @ [(me, Acquire Mutex_queue), (me, Release Mutex_queue)],
                  clock := clock s + 2\<rparr>" by auto
    have "linked s' xs"
      by (rule P(4)) (simp_all add: s' P(2))
    moreover have "unat (num_tasks s - 1) = length xs"
      using n nz snoc by (simp add: unat_minus_one)
    ultimately show ?thesis using D r snoc by (simp add: queue_inv_def s')
  qed
qed

lemma enqueue_task_fresh:
  assumes "calls_ok s" "mutex s Mutex_queue = None" "queue_inv s q" "t \<notin> set q"
    "length q < 2 ^ 32 - 1"
  shows "\<exists>s'. enqueue_task me (Some t) s = Inr s' \<and> queue_inv s' (q @ [t]) \<and> calls_ok s' \<and>
     mutex s' Mutex_queue = None"
proof -
  note E = enqueue_task_ok[OF assms(1,2), of me t]
  from queue_inv_enqueue[OF assms(3,4,5) E] assms(1,2) E show ?thesis
    by (simp add: calls_ok_def)
qed

lemma dequeue_task_last:
  assumes "calls_ok s" "mutex s Mutex_queue = None" "queue_inv s (xs @ [x])"
  shows "\<exists>s'. dequeue_task me s = Inr (Some x, s') \<and> queue_inv s' xs \<and> calls_ok s' \<and>
     mutex s' Mutex_queue = None"
proof -
  from assms(3) have l: "linked s (xs @ [x])" and n: "unat (num_tasks s) = Suc (length xs)"
    by (auto simp: queue_inv_def)
  from n have nz: "num_tasks s \<noteq> 0" by (auto simp flip: unat_0_iff)
  have ne: "\<not> (queue_is_empty s \<and> \<not> finished s)"
    using linked_empty_iff[OF l] by simp
  note E = dequeue_task_some[OF assms(1,2) ne nz linked_pop(1)[OF l], of me]
  from queue_inv_dequeue[OF assms(3) E] assms(1,2) E show ?thesis
    by (simp add: calls_ok_def)
qed

lemma enqueue_all_linked:
  assumes "calls_ok s" "mutex s Mutex_queue = None" "queue_inv s q" "distinct ts"
    "set ts \<inter> set q = {}" "length q + length ts < 2 ^ 32"
  shows "\<exists>s'. enqueue_all me ts s = Inr s' \<and> queue_inv s' (q @ ts) \<and> calls_ok s' \<and>
     mutex s' Mutex_queue = None"
  using assms
proof (induction ts arbitrary: s q)
  case Nil
  then show ?case by simp
next
  case (Cons t ts)
  from Cons.prems have "t \<notin> set q" "length q < 2 ^ 32 - 1" by auto
  from enqueue_task_fresh[OF Cons.prems(1,2,3) this, of me] obtain s1 where
    s1: "enqueue_task me (Some t) s = Inr s1" "queue_inv s1 (q @ [t])" "calls_ok s1"
      "mutex s1 Mutex_queue = None" by blast
  from Cons.prems have "distinct ts" "set ts \<inter> set (q @ [t]) = {}"
    "length (q @ [t]) + length ts < 2 ^ 32" by auto
  from Cons.IH[OF s1(3,4,2) this] s1(1) show ?case by (simp add: then_r_def)
qed

lemma dequeue_n_linked:
  assumes "calls_ok s" "mutex s Mutex_queue = None" "queue_inv s (q @ ts)"
  shows "\<exists>s'. dequeue_n me (length ts) s = Inr (map Some (rev ts), s') \<and> queue_inv s' q \<and>
     calls_ok s' \<and> mutex s' Mutex_queue = None"
  using assms
proof (induction ts arbitrary: s rule: rev_induct)
  case Nil
  then show ?case by simp
next
  case (snoc t ts)
  from snoc.prems(3) have "queue_inv s ((q @ ts) @ [t])" by simp
  from dequeue_task_last[OF snoc.prems(1,2) this, of me] obtain s1 where
    s1: "dequeue_task me s = Inr (Some t, s1)" "queue_inv s1 (q @ ts)" "calls_ok s1"
      "mutex s1 Mutex_queue = None" by blast
  from snoc.IH[OF s1(3,4,2)] s1(1) show ?case by (auto simp: then_r_def)
qed

text \<open>
Claim C2. The queue is a stack. With no other thread at the queue and no failing call,
  enqueuing the tasks \<open>ts\<close> (new to the queue) in order and then dequeuing as many times
  returns them in the reverse order, whatever was linked before, and leaves the queue as
  it was: each \<^verbatim>\<open>dequeue_task\<close> returns the task enqueued last among those still
  pending. For \<open>ts = [T1, T2, T3]\<close> the three calls return \<open>T3\<close>, \<open>T2\<close>, \<open>T1\<close>.
\<close>

theorem lifo_order:
  assumes "calls_ok s" "mutex s Mutex_queue = None" "queue_inv s q" "distinct ts"
    "set ts \<inter> set q = {}" "length q + length ts < 2 ^ 32"
  shows "\<exists>s1 s2. enqueue_all me ts s = Inr s1 \<and> queue_inv s1 (q @ ts) \<and>
     dequeue_n me (length ts) s1 = Inr (map Some (rev ts), s2) \<and> queue_inv s2 q"
proof -
  from enqueue_all_linked[OF assms, of me] obtain s1 where
    s1: "enqueue_all me ts s = Inr s1" "queue_inv s1 (q @ ts)" "calls_ok s1"
      "mutex s1 Mutex_queue = None" by blast
  from dequeue_n_linked[OF s1(3,4,2), of me] s1 show ?thesis by blast
qed

lemma empty_pool_inv: "queue_inv empty_pool []"
  by (simp add: empty_pool_def queue_inv_def linked_def list_init_def boot_def)

lemma empty_pool_ok: "calls_ok empty_pool \<and> mutex empty_pool Mutex_queue = None"
  by (simp add: empty_pool_def calls_ok_def list_init_def boot_def)

theorem lifo_order_witness:
  "\<exists>s1 s2. enqueue_all Main_thread [1, 2, 3] empty_pool = Inr s1 \<and>
     dequeue_n Main_thread 3 s1 = Inr ([Some 3, Some 2, Some 1], s2) \<and> queue_inv s2 []"
proof -
  have e: "length [1, 2, 3::nat] = 3" "map Some (rev [1, 2, 3::nat]) = [Some 3, Some 2, Some 1]"
    by simp_all
  have "\<exists>s1 s2. enqueue_all Main_thread [1, 2, 3] empty_pool = Inr s1 \<and>
     queue_inv s1 ([] @ [1, 2, 3]) \<and>
     dequeue_n Main_thread (length [1, 2, 3::nat]) s1 = Inr (map Some (rev [1, 2, 3]), s2) \<and>
     queue_inv s2 []"
    by (rule lifo_order) (simp_all add: empty_pool_inv empty_pool_ok)
  then show ?thesis unfolding e by blast
qed

text \<open>
Claim C5. When the count is the number of linked tasks, it is so again whenever
  \<^verbatim>\<open>enqueue_task\<close> or \<^verbatim>\<open>dequeue_task\<close> returns, that is after the unlock that ends
  the call: an enqueue of a task that is not linked yet links exactly this task, at the
  end, and adds one to the count; a dequeue that returns a task unlinks exactly this
  task and subtracts one; a dequeue that returns \<^verbatim>\<open>NULL\<close> changes neither. The count is
  an \<^verbatim>\<open>unsigned int\<close>, so the enqueue is taken with fewer than \<open>2 ^ 32 - 1\<close> tasks linked.
  And the calls do return: when no library call fails and the queue mutex is free,
  every enqueue returns, whatever the queue holds, a dequeue on a queue that is not
  empty returns its last task, a dequeue on an empty queue returns \<^verbatim>\<open>NULL\<close> once
  \<^verbatim>\<open>finished\<close> is set and waits until then.
\<close>

theorem queue_count_invariant:
  assumes "queue_inv s q"
  shows "(\<forall>t s'. t \<notin> set q \<and> length q < 2 ^ 32 - 1 \<and> enqueue_task me (Some t) s = Inr s' \<longrightarrow>
            queue_inv s' (q @ [t]) \<and> num_tasks s' = num_tasks s + 1)
       \<and> (\<forall>t s'. dequeue_task me s = Inr (Some t, s') \<longrightarrow>
            q = butlast q @ [t] \<and> queue_inv s' (butlast q) \<and> num_tasks s' = num_tasks s - 1)
       \<and> (\<forall>s'. dequeue_task me s = Inr (None, s') \<longrightarrow> queue_inv s' q \<and> num_tasks s' = num_tasks s)
       \<and> (calls_ok s \<and> mutex s Mutex_queue = None \<longrightarrow>
            (\<forall>t. \<exists>s'. enqueue_task me (Some t) s = Inr s') \<and>
            (q \<noteq> [] \<longrightarrow> (\<exists>s'. dequeue_task me s = Inr (Some (last q), s'))) \<and>
            (q = [] \<and> finished s \<longrightarrow> (\<exists>s'. dequeue_task me s = Inr (None, s'))) \<and>
            (q = [] \<and> \<not> finished s \<longrightarrow> dequeue_task me s = Inl Blocked))"
proof (intro conjI allI impI)
  fix t s' assume a: "t \<notin> set q \<and> length q < 2 ^ 32 - 1 \<and> enqueue_task me (Some t) s = Inr s'"
  then show "queue_inv s' (q @ [t])" using queue_inv_enqueue[OF assms] by blast
  from a enqueue_task_InrD[of me "Some t" s s'] show "num_tasks s' = num_tasks s + 1" by auto
next
  fix t s' assume a: "dequeue_task me s = Inr (Some t, s')"
  from queue_inv_dequeue[OF assms a] have ne: "q \<noteq> []" and t: "t = last q"
    and i: "queue_inv s' (butlast q)" by (auto split: if_splits)
  from ne t show "q = butlast q @ [t]" by simp
  from i show "queue_inv s' (butlast q)" .
  from dequeue_task_InrD[OF a] show "num_tasks s' = num_tasks s - 1" by (auto split: if_splits)
next
  fix s' assume a: "dequeue_task me s = Inr (None, s')"
  from queue_inv_dequeue[OF assms a] show "queue_inv s' q" by (auto split: if_splits)
  from dequeue_task_InrD[OF a] show "num_tasks s' = num_tasks s" by (auto split: if_splits)
next
  fix t assume ok: "calls_ok s \<and> mutex s Mutex_queue = None"
  from enqueue_task_ok[OF ok[THEN conjunct1] ok[THEN conjunct2], of me t]
  show "\<exists>s'. enqueue_task me (Some t) s = Inr s'" by simp
next
  assume ok: "calls_ok s \<and> mutex s Mutex_queue = None" and ne: "q \<noteq> []"
  from ne have q: "q = butlast q @ [last q]" by simp
  from assms q have "queue_inv s (butlast q @ [last q])" by simp
  from dequeue_task_last[OF ok[THEN conjunct1] ok[THEN conjunct2] this, of me]
  show "\<exists>s'. dequeue_task me s = Inr (Some (last q), s')" by blast
next
  assume ok: "calls_ok s \<and> mutex s Mutex_queue = None" and e: "q = [] \<and> finished s"
  from assms e have z: "num_tasks s = 0" by (simp add: queue_inv_def unat_0_iff)
  from e have ne: "\<not> (queue_is_empty s \<and> \<not> finished s)" by simp
  from dequeue_task_null[OF ok[THEN conjunct1] ok[THEN conjunct2] ne z, of me]
  show "\<exists>s'. dequeue_task me s = Inr (None, s')" by simp
next
  assume ok: "calls_ok s \<and> mutex s Mutex_queue = None" and e: "q = [] \<and> \<not> finished s"
  from assms e have em: "queue_is_empty s"
    by (simp add: queue_inv_def linked_def queue_is_empty_def list_empty_def)
  from e have nf: "\<not> finished s" by simp
  show "dequeue_task me s = Inl Blocked"
    by (rule dequeue_task_wait[OF ok[THEN conjunct1] ok[THEN conjunct2] em nf])
qed

theorem queue_count_invariant_witness:
  "queue_inv empty_pool [] \<and>
   (\<exists>s1 s2 s3 s4. enqueue_task Main_thread (Some 7) empty_pool = Inr s1 \<and> queue_inv s1 [7] \<and>
      num_tasks s1 = 1 \<and>
      enqueue_task (Worker 0) (Some 8) s1 = Inr s2 \<and> queue_inv s2 [7, 8] \<and> num_tasks s2 = 2 \<and>
      dequeue_task (Worker 1) s2 = Inr (Some 8, s3) \<and> queue_inv s3 [7] \<and> num_tasks s3 = 1 \<and>
      dequeue_task (Worker 0) s3 = Inr (Some 7, s4) \<and> queue_inv s4 [] \<and> num_tasks s4 = 0 \<and>
      dequeue_task (Worker 1) s4 = Inl Blocked)"
proof -
  note ok0 = empty_pool_ok
  have z: "num_tasks empty_pool = 0" and f0: "\<not> finished empty_pool"
    by (simp_all add: empty_pool_def list_init_def boot_def)
  note T0 = queue_count_invariant[OF empty_pool_inv, of Main_thread]
  from T0[THEN conjunct2, THEN conjunct2, THEN conjunct2, THEN mp, OF ok0, THEN conjunct1]
  obtain s1 where s1: "enqueue_task Main_thread (Some 7) empty_pool = Inr s1" by blast
  have "queue_inv s1 ([] @ [7]) \<and> num_tasks s1 = num_tasks empty_pool + 1"
    by (rule T0[THEN conjunct1, rule_format]) (simp add: s1)
  then have i1: "queue_inv s1 [7]" and n1: "num_tasks s1 = 1" by (simp_all add: z)
  from enqueue_task_InrD[OF s1] ok0 f0
  have ok1: "calls_ok s1 \<and> mutex s1 Mutex_queue = None" and f1: "\<not> finished s1"
    by (auto simp: calls_ok_def)
  note T1 = queue_count_invariant[OF i1, of "Worker 0"]
  from T1[THEN conjunct2, THEN conjunct2, THEN conjunct2, THEN mp, OF ok1, THEN conjunct1]
  obtain s2 where s2: "enqueue_task (Worker 0) (Some 8) s1 = Inr s2" by blast
  have "queue_inv s2 ([7] @ [8]) \<and> num_tasks s2 = num_tasks s1 + 1"
    by (rule T1[THEN conjunct1, rule_format]) (simp add: s2)
  then have i2: "queue_inv s2 [7, 8]" and n2: "num_tasks s2 = 2" by (simp_all add: n1)
  from enqueue_task_InrD[OF s2] ok1 f1
  have ok2: "calls_ok s2 \<and> mutex s2 Mutex_queue = None" and f2: "\<not> finished s2"
    by (auto simp: calls_ok_def)
  note T2 = queue_count_invariant[OF i2, of "Worker 1"]
  have "\<exists>s'. dequeue_task (Worker 1) s2 = Inr (Some (last [7, 8]), s')"
    by (rule T2[THEN conjunct2, THEN conjunct2, THEN conjunct2, THEN mp, OF ok2,
          THEN conjunct2, THEN conjunct1, THEN mp]) simp
  then obtain s3 where s3: "dequeue_task (Worker 1) s2 = Inr (Some 8, s3)" by auto
  have "[7, 8::nat] = butlast [7, 8] @ [8] \<and> queue_inv s3 (butlast [7, 8]) \<and>
      num_tasks s3 = num_tasks s2 - 1"
    by (rule T2[THEN conjunct2, THEN conjunct1, rule_format]) (rule s3)
  then have i3: "queue_inv s3 [7]" and n3: "num_tasks s3 = 1" by (simp_all add: n2)
  from dequeue_task_InrD[OF s3] ok2 f2
  have ok3: "calls_ok s3 \<and> mutex s3 Mutex_queue = None" and f3: "\<not> finished s3"
    by (auto simp: calls_ok_def split: if_splits)
  note T3 = queue_count_invariant[OF i3, of "Worker 0"]
  have "\<exists>s'. dequeue_task (Worker 0) s3 = Inr (Some (last [7]), s')"
    by (rule T3[THEN conjunct2, THEN conjunct2, THEN conjunct2, THEN mp, OF ok3,
          THEN conjunct2, THEN conjunct1, THEN mp]) simp
  then obtain s4 where s4: "dequeue_task (Worker 0) s3 = Inr (Some 7, s4)" by auto
  have "[7::nat] = butlast [7] @ [7] \<and> queue_inv s4 (butlast [7]) \<and>
      num_tasks s4 = num_tasks s3 - 1"
    by (rule T3[THEN conjunct2, THEN conjunct1, rule_format]) (rule s4)
  then have i4: "queue_inv s4 []" and n4: "num_tasks s4 = 0" by (simp_all add: n3)
  from dequeue_task_InrD[OF s4] ok3 f3
  have ok4: "calls_ok s4 \<and> mutex s4 Mutex_queue = None" and f4: "\<not> finished s4"
    by (auto simp: calls_ok_def split: if_splits)
  note T4 = queue_count_invariant[OF i4, of "Worker 1"]
  have b: "dequeue_task (Worker 1) s4 = Inl Blocked"
    by (rule T4[THEN conjunct2, THEN conjunct2, THEN conjunct2, THEN mp, OF ok4,
          THEN conjunct2, THEN conjunct2, THEN conjunct2, THEN mp]) (simp add: f4)
  from s1 i1 n1 s2 i2 n2 s3 i3 n3 s4 i4 n4 b empty_pool_inv show ?thesis by blast
qed

lemma pthread_mutex_lock_workers:
  "pthread_mutex_lock me m s = Inr (rc, s') \<Longrightarrow> workers s' = workers s"
  by (auto simp: pthread_mutex_lock_def libc_call_def split: option.splits if_splits)

lemma pthread_mutex_unlock_workers:
  "pthread_mutex_unlock me m s = Inr (rc, s') \<Longrightarrow> workers s' = workers s"
  by (auto simp: pthread_mutex_unlock_def libc_call_def split: option.splits if_splits)

lemma then_r_InrD: "then_r m f = Inr y \<Longrightarrow> \<exists>x. m = Inr x \<and> f x = Inr y"
  by (cases m) (auto simp: then_r_def)

lemma DIE_InrD: "DIE c msg x = Inr y \<Longrightarrow> \<not> c \<and> y = x"
  by (auto simp: DIE_def split: if_splits)

lemma malloc_workers: "malloc s = (p, s') \<Longrightarrow> workers s' = workers s"
  by (auto simp: malloc_def libc_call_def split: if_splits)

lemma create_task_workers:
  "create_task a arg d s = Inr (t, s') \<Longrightarrow> workers s' = workers s"
  by (auto simp: create_task_def malloc_def libc_call_def then_r_def DIE_def
      split: if_splits option.splits)

lemma enqueue_task_workers: "enqueue_task me p s = Inr s' \<Longrightarrow> workers s' = workers s"
  by (drule enqueue_task_InrD) auto

lemma dequeue_task_workers: "dequeue_task me s = Inr (r, s') \<Longrightarrow> workers s' = workers s"
  by (drule dequeue_task_InrD) (auto split: if_splits)

lemma destroy_task_workers: "destroy_task t s = Inr s' \<Longrightarrow> workers s' = workers s"
  by (auto simp: destroy_task_def call_destroy_arg_def free_function_def free_uint_def
      free_task_def then_r_def split: option.splits if_splits destroy_fn.splits sum.splits)

lemma process_node_unlock_workers:
  "process_node_unlock me s = Inr s' \<Longrightarrow> workers s' = workers s"
  by (auto simp: process_node_unlock_def pthread_mutex_unlock_def libc_call_def then_r_def
      DIE_def split: if_splits)

lemma process_node_visit_workers:
  "process_node_visit me arg s = Inr (r, s') \<Longrightarrow> workers s' = workers s"
  by (auto simp: process_node_visit_def pthread_mutex_lock_def libc_call_def then_r_def
      DIE_def Let_def split: option.splits if_splits)

lemma process_node_neighbour_workers:
  assumes "process_node_neighbour me idx i s = Inr s'"
  shows "workers s' = workers s"
proof (cases "visited s ! (neighbours (nodes s ! idx) ! i) = NOT_VISITED")
  case False
  with assms show ?thesis
    by (auto simp: process_node_neighbour_def Let_def split: if_splits)
next
  case True
  obtain p s1 where m: "malloc s = (p, s1)" by (cases "malloc s")
  with assms True obtain a t s4 where p: "p = Some a"
    and c: "create_task Process_node a (Some Free_function)
              (s1\<lparr>uints := (uints s1)(a \<mapsto> neighbours (nodes s ! idx) ! i)\<rparr>) = Inr (t, s4)"
    and e: "enqueue_task me (Some t) s4 = Inr s'"
    by (auto simp: process_node_neighbour_def Let_def DIE_def dest!: then_r_InrD
        split: if_splits option.splits)
  from malloc_workers[OF m] create_task_workers[OF c] enqueue_task_workers[OF e]
  show ?thesis by simp
qed

lemma worker_step_exit:
  assumes "worker_step w s = Inr s'" "w < length (workers s)" "workers s ! w \<noteq> W_exited"
  shows "workers s' ! w = W_exited \<longleftrightarrow>
     workers s ! w = W_dequeue \<and> (\<exists>s1. dequeue_task (Worker w) s = Inr (None, s1))"
proof (cases "workers s ! w")
  case W_dequeue
  with assms obtain r s1 where d: "dequeue_task (Worker w) s = Inr (r, s1)"
    and s': "s' = set_worker w (case r of None \<Rightarrow> W_exited | Some t' \<Rightarrow> W_action t') s1"
    by (auto simp: worker_step_def dest!: then_r_InrD split: option.splits)
  from dequeue_task_workers[OF d] assms(2) s' d W_dequeue show ?thesis
    by (cases r) (auto simp: set_worker_def)
next
  case (W_action t)
  with assms obtain tk idx fresh s1 where tk: "tasks s t = Some tk"
    and v: "process_node_visit (Worker w) (argument tk) s = Inr ((idx, fresh), s1)"
    and k: "(if fresh then Inr (set_worker w (W_loop t idx 0) s1)
             else then_r (process_node_unlock (Worker w) s1) (\<lambda>s2.
                  then_r (destroy_task t s2) (\<lambda>s3. Inr (set_worker w W_dequeue s3)))) = Inr s'"
    by (auto simp: worker_step_def dest!: then_r_InrD split: option.splits action_fn.splits)
  note w1 = process_node_visit_workers[OF v]
  show ?thesis
  proof (cases fresh)
    case True
    with k w1 assms(2) W_action show ?thesis by (auto simp: set_worker_def)
  next
    case False
    with k obtain s2 s3 where u: "process_node_unlock (Worker w) s1 = Inr s2"
      and d: "destroy_task t s2 = Inr s3" and s': "s' = set_worker w W_dequeue s3"
      by (auto dest!: then_r_InrD)
    from process_node_unlock_workers[OF u] destroy_task_workers[OF d] w1 assms(2) s' W_action
    show ?thesis by (auto simp: set_worker_def)
  qed
next
  case (W_loop t idx i)
  show ?thesis
  proof (cases "i < length (neighbours (nodes s ! idx))")
    case True
    with assms W_loop obtain s1 where n: "process_node_neighbour (Worker w) idx i s = Inr s1"
      and s': "s' = set_worker w (W_loop t idx (Suc i)) s1"
      by (auto simp: worker_step_def dest!: then_r_InrD)
    from process_node_neighbour_workers[OF n] assms(2) s' W_loop show ?thesis
      by (auto simp: set_worker_def)
  next
    case False
    with assms W_loop obtain s2 s3 where u: "process_node_unlock (Worker w) s = Inr s2"
      and d: "destroy_task t s2 = Inr s3" and s': "s' = set_worker w W_dequeue s3"
      by (auto simp: worker_step_def dest!: then_r_InrD)
    from process_node_unlock_workers[OF u] destroy_task_workers[OF d] assms(2) s' W_loop
    show ?thesis by (auto simp: set_worker_def)
  qed
next
  case W_exited
  with assms show ?thesis by simp
qed

text \<open>
Claim C3. In a state where the count is the number of linked tasks, a call of
  \<^verbatim>\<open>dequeue_task\<close> that returns gives \<^verbatim>\<open>NULL\<close> exactly when the queue is empty and
  \<^verbatim>\<open>finished\<close> is set; it does return \<^verbatim>\<open>NULL\<close> then (no call failing); with a task
  linked it returns the last one, whether \<^verbatim>\<open>finished\<close> is set or not; with the queue
  empty and \<^verbatim>\<open>finished\<close> not set it does not return. A worker that moves has left its
  loop after the step exactly when it was at \<^verbatim>\<open>dequeue_task\<close> with the queue empty and
  \<^verbatim>\<open>finished\<close> set.
\<close>

theorem dequeue_sentinel:
  assumes "queue_inv s q"
  shows "(\<forall>r s'. dequeue_task me s = Inr (r, s') \<longrightarrow> (r = None \<longleftrightarrow> q = [] \<and> finished s))
     \<and> (calls_ok s \<and> mutex s Mutex_queue = None \<and> q = [] \<and> finished s \<longrightarrow>
          (\<exists>s'. dequeue_task me s = Inr (None, s')))
     \<and> (calls_ok s \<and> mutex s Mutex_queue = None \<and> q \<noteq> [] \<longrightarrow>
          (\<exists>s'. dequeue_task me s = Inr (Some (last q), s')))
     \<and> (q = [] \<and> \<not> finished s \<longrightarrow> (\<forall>r s'. dequeue_task me s \<noteq> Inr (r, s')))
     \<and> (\<forall>w s'. w < length (workers s) \<and> workers s ! w \<noteq> W_exited \<and> worker_step w s = Inr s' \<longrightarrow>
          (workers s' ! w = W_exited \<longleftrightarrow>
             workers s ! w = W_dequeue \<and> q = [] \<and> finished s))"
proof (intro conjI allI impI)
  fix r s' assume a: "dequeue_task me s = Inr (r, s')"
  from queue_inv_dequeue[OF assms a] assms show "r = None \<longleftrightarrow> q = [] \<and> finished s"
    by (auto simp: queue_inv_def dest: linked_empty_iff split: if_splits)
next
  assume a: "calls_ok s \<and> mutex s Mutex_queue = None \<and> q = [] \<and> finished s"
  with assms have "num_tasks s = 0" by (simp add: queue_inv_def unat_0_iff)
  with a dequeue_task_null[of s me] show "\<exists>s'. dequeue_task me s = Inr (None, s')" by auto
next
  assume a: "calls_ok s \<and> mutex s Mutex_queue = None \<and> q \<noteq> []"
  then have q: "q = butlast q @ [last q]" by simp
  from a assms dequeue_task_last[of s "butlast q" "last q" me]
  show "\<exists>s'. dequeue_task me s = Inr (Some (last q), s')" by auto
next
  fix r s' assume a: "q = [] \<and> \<not> finished s"
  show "dequeue_task me s \<noteq> Inr (r, s')"
  proof
    assume "dequeue_task me s = Inr (r, s')"
    from queue_inv_dequeue[OF assms this] a assms show False
      by (auto simp: queue_inv_def dest: linked_empty_iff)
  qed
next
  fix w s'
  assume a: "w < length (workers s) \<and> workers s ! w \<noteq> W_exited \<and> worker_step w s = Inr s'"
  then have "workers s' ! w = W_exited \<longleftrightarrow>
     workers s ! w = W_dequeue \<and> (\<exists>s1. dequeue_task (Worker w) s = Inr (None, s1))"
    using worker_step_exit by blast
  moreover have "q = [] \<and> finished s" if "\<exists>s1. dequeue_task (Worker w) s = Inr (None, s1)"
  proof -
    from that obtain s1 where "dequeue_task (Worker w) s = Inr (None, s1)" by blast
    from queue_inv_dequeue[OF assms this] assms show ?thesis
      by (auto simp: queue_inv_def dest: linked_empty_iff split: if_splits)
  qed
  moreover have "workers s ! w = W_dequeue \<Longrightarrow> q = [] \<and> finished s \<Longrightarrow>
      (\<exists>s1. dequeue_task (Worker w) s = Inr (None, s1))"
  proof -
    assume pc: "workers s ! w = W_dequeue" and e: "q = [] \<and> finished s"
    from a pc obtain r s1 where r: "dequeue_task (Worker w) s = Inr (r, s1)"
      by (cases "dequeue_task (Worker w) s") (auto simp: worker_step_def then_r_def)
    from queue_inv_dequeue[OF assms r] e have "r = None" by auto
    with r show ?thesis by blast
  qed
  ultimately show "workers s' ! w = W_exited \<longleftrightarrow> workers s ! w = W_dequeue \<and> q = [] \<and> finished s"
    by blast
qed

section \<open>Tasks\<close>

lemma free_task_simp:
  "tasks s t = Some tk \<Longrightarrow> free_task t s = Inr (s\<lparr>tasks := (tasks s)(t := None)\<rparr>)"
  by (simp add: free_task_def dom_def)

lemma destroy_task_None:
  "tasks s t = Some tk \<Longrightarrow> destroy_arg tk = None \<Longrightarrow>
   destroy_task t s = Inr (s\<lparr>tasks := (tasks s)(t := None)\<rparr>)"
  by (simp add: destroy_task_def then_r_def free_task_simp)

lemma call_destroy_arg_tasks:
  "call_destroy_arg f a s = Inr s1 \<Longrightarrow> tasks s1 = tasks s \<and> uints s1 = (uints s)(a := None)"
  by (cases f) (auto simp: call_destroy_arg_def free_function_def free_uint_def split: if_splits)

lemma destroy_task_Some:
  assumes "tasks s t = Some tk" "destroy_arg tk = Some f"
  shows "destroy_task t s =
              (case call_destroy_arg f (argument tk) s of
                 Inl e \<Rightarrow> Inl e
               | Inr s1 \<Rightarrow> Inr (s1\<lparr>tasks := (tasks s1)(t := None)\<rparr>))"
proof (cases "call_destroy_arg f (argument tk) s")
  case (Inl e)
  with assms show ?thesis by (simp add: destroy_task_def then_r_def)
next
  case (Inr s1)
  from call_destroy_arg_tasks[OF Inr] assms have "tasks s1 t = Some tk" by simp
  from free_task_simp[OF this] Inr assms show ?thesis
    by (simp add: destroy_task_def then_r_def)
qed

text \<open>
Claim C10. \<^verbatim>\<open>destroy_task\<close> on a live task: without a destructor it frees the task
  and nothing else; with a destructor it calls it on the argument and then frees the
  task. Whenever it returns the task is freed, and the argument cell is freed when the
  destructor is \<^verbatim>\<open>free_function\<close> and untouched when there is none.
\<close>

theorem destroy_task_destructor:
  assumes "tasks s t = Some tk"
  shows "(destroy_arg tk = None \<longrightarrow> destroy_task t s = Inr (s\<lparr>tasks := (tasks s)(t := None)\<rparr>))
       \<and> (\<forall>f. destroy_arg tk = Some f \<longrightarrow>
            destroy_task t s =
              (case call_destroy_arg f (argument tk) s of
                 Inl e \<Rightarrow> Inl e
               | Inr s1 \<Rightarrow> Inr (s1\<lparr>tasks := (tasks s1)(t := None)\<rparr>)))
       \<and> (\<forall>s'. destroy_task t s = Inr s' \<longrightarrow>
            tasks s' = (tasks s)(t := None) \<and>
            uints s' = (case destroy_arg tk of
                          None \<Rightarrow> uints s
                        | Some Free_function \<Rightarrow> (uints s)(argument tk := None)))"
proof (intro conjI allI impI)
  assume "destroy_arg tk = None"
  then show "destroy_task t s = Inr (s\<lparr>tasks := (tasks s)(t := None)\<rparr>)"
    using assms by (rule destroy_task_None[rotated])
next
  fix f assume "destroy_arg tk = Some f"
  then show "destroy_task t s =
              (case call_destroy_arg f (argument tk) s of
                 Inl e \<Rightarrow> Inl e
               | Inr s1 \<Rightarrow> Inr (s1\<lparr>tasks := (tasks s1)(t := None)\<rparr>))"
    using assms by (rule destroy_task_Some[rotated])
next
  fix s' assume d: "destroy_task t s = Inr s'"
  show "tasks s' = (tasks s)(t := None)"
  proof (cases "destroy_arg tk")
    case None
    from destroy_task_None[OF assms None] d show ?thesis by auto
  next
    case (Some f)
    from destroy_task_Some[OF assms Some] d show ?thesis
      by (cases "call_destroy_arg f (argument tk) s")
         (auto dest: call_destroy_arg_tasks)
  qed
  show "uints s' = (case destroy_arg tk of
                          None \<Rightarrow> uints s
                        | Some Free_function \<Rightarrow> (uints s)(argument tk := None))"
  proof (cases "destroy_arg tk")
    case None
    from destroy_task_None[OF assms None] d show ?thesis by (auto simp: None)
  next
    case (Some f)
    from destroy_task_Some[OF assms Some] d show ?thesis
      by (cases "call_destroy_arg f (argument tk) s"; cases f)
         (auto simp: Some dest: call_destroy_arg_tasks)
  qed
qed

theorem destroy_task_destructor_witness:
  "tasks two_tasks 1 = Some \<lparr>argument = 0, action = Process_node, destroy_arg = None\<rparr> \<and>
   (\<exists>s'. destroy_task 1 two_tasks = Inr s' \<and> tasks s' 1 = None \<and> uints s' 0 = Some 5) \<and>
   tasks two_tasks 3 = Some \<lparr>argument = 2, action = Process_node, destroy_arg = Some Free_function\<rparr> \<and>
   (\<exists>s'. destroy_task 3 two_tasks = Inr s' \<and> tasks s' 3 = None \<and> uints s' 2 = None)"
proof -
  have t1: "tasks two_tasks 1 = Some \<lparr>argument = 0, action = Process_node, destroy_arg = None\<rparr>"
    and t3: "tasks two_tasks 3 =
      Some \<lparr>argument = 2, action = Process_node, destroy_arg = Some Free_function\<rparr>"
    by (simp_all add: two_tasks_def)
  have u: "uints two_tasks 0 = Some 5" "uints two_tasks 2 = Some 6" by (simp_all add: two_tasks_def)
  have n: "destroy_arg \<lparr>argument = 0, action = Process_node, destroy_arg = None\<rparr> = None"
    by simp
  from destroy_task_destructor[OF t1, THEN conjunct1, THEN mp, OF n]
  have "destroy_task 1 two_tasks = Inr (two_tasks\<lparr>tasks := (tasks two_tasks)(1 := None)\<rparr>)" .
  then have a: "\<exists>s'. destroy_task 1 two_tasks = Inr s' \<and> tasks s' 1 = None \<and> uints s' 0 = Some 5"
    using u by simp
  have f: "destroy_arg \<lparr>argument = 2, action = Process_node, destroy_arg = Some Free_function\<rparr>
      = Some Free_function" by simp
  have c: "call_destroy_arg Free_function 2 two_tasks
      = Inr (two_tasks\<lparr>uints := (uints two_tasks)(2 := None)\<rparr>)"
    using u by (simp add: call_destroy_arg_def free_function_def free_uint_def dom_def)
  from destroy_task_destructor[OF t3, THEN conjunct2, THEN conjunct1, THEN spec, THEN mp, OF f]
  have "destroy_task 3 two_tasks =
     Inr (two_tasks\<lparr>uints := (uints two_tasks)(2 := None), tasks := (tasks two_tasks)(3 := None)\<rparr>)"
    by (simp add: c)
  then have b: "\<exists>s'. destroy_task 3 two_tasks = Inr s' \<and> tasks s' 3 = None \<and> uints s' 2 = None"
    by simp
  from t1 t3 a b show ?thesis by blast
qed

text \<open>
Claim C7, at the input where the code departs from it. The third library call of
  \<^verbatim>\<open>wait_for_completion\<close> is the unlock of line 135; when it reports \<^verbatim>\<open>EPERM\<close> the
  function goes on to the joins with \<^verbatim>\<open>finished\<close> set and the mutex still held, where
  the unlock of \<^verbatim>\<open>enqueue_task\<close> in the same environment is fatal.
\<close>

theorem wait_for_completion_drops_unlock_error:
  "(\<exists>s. wait_for_completion_signal Main_thread (list_init Head (boot eperm_env [] [])) = Inr s \<and>
        finished s \<and> mutex s Mutex_queue = Some Main_thread) \<and>
   enqueue_task Main_thread (Some 0) (list_init Head (boot eperm_env [] []))
     = Inl (Fatal ''pthread_mutex_unlock'')"
  by (simp add: wait_for_completion_signal_def enqueue_task_def pthread_mutex_lock_def
      pthread_mutex_unlock_def pthread_cond_broadcast_def libc_call_def boot_def
      eperm_env_def list_init_def then_r_def DIE_def)

text \<open>
Claim C8, at the input where the code departs from it. The second
  \<^verbatim>\<open>pthread_create\<close> returns \<^verbatim>\<open>EAGAIN\<close>, which is positive, so \<^verbatim>\<open>DIE(rc < 0, ...)\<close>
  does not fire: \<^verbatim>\<open>create_threadpool\<close> returns a pool of four with three workers
  running and a slot of \<^verbatim>\<open>threads\<close> never written.
\<close>

theorem create_threadpool_misses_failure:
  "\<exists>s. create_threadpool NUM_THREADS (boot eagain_env [] []) = Inr s \<and>
       num_threads s = 4 \<and> length (workers s) = 3 \<and>
       threads s = [Some 0, None, Some 1, Some 2]"
  by (simp add: NUM_THREADS_def create_threadpool_def malloc_def libc_call_def boot_def
      eagain_env_def list_init_def pthread_mutex_init_def pthread_cond_init_def then_r_def
      DIE_def pthread_create_def eval_nat_numeral)

lemma finished_pool_inv: "queue_inv finished_pool []"
  using empty_pool_inv by (simp add: finished_pool_def queue_inv_def linked_def)

theorem dequeue_sentinel_witness:
  "queue_inv finished_pool [] \<and>
   (\<exists>s'. dequeue_task (Worker 0) finished_pool = Inr (None, s')) \<and>
   (\<exists>s'. worker_step 0 finished_pool = Inr s' \<and> workers s' ! 0 = W_exited) \<and>
   (\<forall>r s'. dequeue_task (Worker 0) empty_pool \<noteq> Inr (r, s'))"
proof -
  have ok: "calls_ok finished_pool \<and> mutex finished_pool Mutex_queue = None \<and>
      [] = ([]::addr list) \<and> finished finished_pool"
    using empty_pool_ok by (simp add: finished_pool_def calls_ok_def)
  note T = dequeue_sentinel[OF finished_pool_inv, of "Worker 0"]
  from T ok obtain s1 where
    d: "dequeue_task (Worker 0) finished_pool = Inr (None, s1)" by blast
  have w: "0 < length (workers finished_pool) \<and> workers finished_pool ! 0 \<noteq> W_exited"
    "workers finished_pool ! 0 = W_dequeue"
    by (simp_all add: finished_pool_def)
  from d w have st: "worker_step 0 finished_pool = Inr (set_worker 0 W_exited s1)"
    by (simp add: worker_step_def then_r_def)
  with T w ok have x: "workers (set_worker 0 W_exited s1) ! 0 = W_exited"
    by blast
  have nf: "[] = ([]::addr list) \<and> \<not> finished empty_pool"
    by (simp add: empty_pool_def list_init_def boot_def)
  with dequeue_sentinel[OF empty_pool_inv, of "Worker 0"]
  have "\<forall>r s'. dequeue_task (Worker 0) empty_pool \<noteq> Inr (r, s')"
    by blast
  with x show ?thesis using finished_pool_inv d st by blast
qed

section \<open>Calls that succeed\<close>

lemma malloc_ok:
  "calls_ok s \<Longrightarrow> malloc s = (Some (brk s), s\<lparr>brk := Suc (brk s), clock := Suc (clock s)\<rparr>)"
  by (simp add: malloc_def libc_call_def calls_okD)

lemma create_task_ok:
  "calls_ok s \<Longrightarrow> create_task act arg d s =
     Inr (brk s, s\<lparr>tasks := (tasks s)(brk s \<mapsto> \<lparr>argument = arg, action = act, destroy_arg = d\<rparr>),
                   brk := Suc (brk s), clock := Suc (clock s)\<rparr>)"
  by (simp add: create_task_def malloc_ok then_r_def DIE_def)

lemma pthread_mutex_lock_ok:
  "calls_ok s \<Longrightarrow> mutex s m = None \<Longrightarrow> pthread_mutex_lock me m s =
     Inr (0, s\<lparr>mutex := (mutex s)(m := Some me), lock_log := lock_log s @ [(me, Acquire m)],
               clock := Suc (clock s)\<rparr>)"
  by (simp add: pthread_mutex_lock_def libc_call_def calls_okD)

lemma pthread_mutex_lock_blocked:
  "mutex s m = Some other \<Longrightarrow> pthread_mutex_lock me m s = Inl Blocked"
  by (simp add: pthread_mutex_lock_def)

lemma pthread_mutex_unlock_ok:
  "calls_ok s \<Longrightarrow> mutex s m = Some me \<Longrightarrow> pthread_mutex_unlock me m s =
     Inr (0, s\<lparr>mutex := (mutex s)(m := None), lock_log := lock_log s @ [(me, Release m)],
               clock := Suc (clock s)\<rparr>)"
  by (simp add: pthread_mutex_unlock_def libc_call_def calls_okD)

lemma destroy_task_ok:
  assumes "tasks s t = Some \<lparr>argument = a, action = act, destroy_arg = Some Free_function\<rparr>"
    "uints s a = Some v"
  shows "destroy_task t s = Inr (s\<lparr>tasks := (tasks s)(t := None), uints := (uints s)(a := None)\<rparr>)"
  using assms
  by (simp add: destroy_task_def call_destroy_arg_def free_function_def free_uint_def
      free_task_def then_r_def dom_def)

lemma process_node_visit_fresh:
  assumes "calls_ok s" "uints s arg = Some idx" "mutex s Mutex_graph = None"
    "idx < length (visited s)" "visited s ! idx = NOT_VISITED" "idx < length (nodes s)"
  shows "process_node_visit me arg s =
     Inr ((idx, True),
          s\<lparr>sum_total := sum_total s + info (nodes s ! idx),
            visited := (visited s)[idx := DONE],
            mutex := (mutex s)(Mutex_graph := Some me),
            lock_log := lock_log s @ [(me, Acquire Mutex_graph)],
            clock := Suc (clock s)\<rparr>)"
  using assms
  by (simp add: process_node_visit_def pthread_mutex_lock_ok then_r_def DIE_def Let_def)

lemma process_node_visit_done:
  assumes "calls_ok s" "uints s arg = Some idx" "mutex s Mutex_graph = None"
    "idx < length (visited s)" "visited s ! idx \<noteq> NOT_VISITED"
  shows "process_node_visit me arg s =
     Inr ((idx, False),
          s\<lparr>mutex := (mutex s)(Mutex_graph := Some me),
            lock_log := lock_log s @ [(me, Acquire Mutex_graph)],
            clock := Suc (clock s)\<rparr>)"
  using assms
  by (simp add: process_node_visit_def pthread_mutex_lock_ok then_r_def DIE_def Let_def)

lemma process_node_visit_blocked:
  assumes "uints s arg = Some idx" "mutex s Mutex_graph = Some other"
  shows "process_node_visit me arg s = Inl Blocked"
  using assms
  by (simp add: process_node_visit_def pthread_mutex_lock_blocked then_r_def)

lemma process_node_unlock_ok:
  assumes "calls_ok s" "mutex s Mutex_graph = Some me"
  shows "process_node_unlock me s =
     Inr (s\<lparr>mutex := (mutex s)(Mutex_graph := None),
            lock_log := lock_log s @ [(me, Release Mutex_graph)],
            clock := Suc (clock s)\<rparr>)"
  using assms
  by (simp add: process_node_unlock_def pthread_mutex_unlock_ok then_r_def DIE_def)

lemma process_node_neighbour_skip:
  assumes "idx < length (nodes s)" "i < length (neighbours (nodes s ! idx))"
    "neighbours (nodes s ! idx) ! i < length (visited s)"
    "visited s ! (neighbours (nodes s ! idx) ! i) \<noteq> NOT_VISITED"
  shows "process_node_neighbour me idx i s = Inr s"
  using assms by (simp add: process_node_neighbour_def Let_def)

lemma process_node_neighbour_new:
  assumes "calls_ok s" "mutex s Mutex_queue = None"
    "idx < length (nodes s)" "i < length (neighbours (nodes s ! idx))"
    "neighbours (nodes s ! idx) ! i < length (visited s)"
    "visited s ! (neighbours (nodes s ! idx) ! i) = NOT_VISITED"
  shows "process_node_neighbour me idx i s =
     Inr (s\<lparr>num_tasks := num_tasks s + 1,
            lnext := (lnext s)(lprev s Head := Task_node (Suc (brk s)),
                               Task_node (Suc (brk s)) := Head),
            lprev := (lprev s)(Task_node (Suc (brk s)) := lprev s Head,
                               Head := Task_node (Suc (brk s))),
            tasks := (tasks s)(Suc (brk s) \<mapsto>
               \<lparr>argument = brk s, action = Process_node, destroy_arg = Some Free_function\<rparr>),
            uints := (uints s)(brk s \<mapsto> neighbours (nodes s ! idx) ! i),
            brk := Suc (Suc (brk s)),
            lock_log := lock_log s @ [(me, Acquire Mutex_queue), (me, Release Mutex_queue)],
            clock := clock s + 5\<rparr>)"
proof -
  let ?nb = "neighbours (nodes s ! idx) ! i"
  let ?s3 = "s\<lparr>brk := Suc (brk s), clock := Suc (clock s), uints := (uints s)(brk s \<mapsto> ?nb)\<rparr>"
  have ok3: "calls_ok ?s3" using assms(1) by (simp add: calls_ok_def)
  let ?s4 = "?s3\<lparr>tasks := (tasks ?s3)(brk ?s3 \<mapsto>
       \<lparr>argument = brk s, action = Process_node, destroy_arg = Some Free_function\<rparr>),
       brk := Suc (brk ?s3), clock := Suc (clock ?s3)\<rparr>"
  have ok4: "calls_ok ?s4" "mutex ?s4 Mutex_queue = None"
    using assms(1,2) by (simp_all add: calls_ok_def)
  have c: "create_task Process_node (brk s) (Some Free_function) ?s3 = Inr (brk ?s3, ?s4)"
    by (rule create_task_ok[OF ok3])
  have e: "enqueue_task me (Some (Suc (brk s))) ?s4 = Inr
     (?s4\<lparr>num_tasks := num_tasks ?s4 + 1,
            lnext := (lnext ?s4)(lprev ?s4 Head := Task_node (Suc (brk s)), Task_node (Suc (brk s)) := Head),
            lprev := (lprev ?s4)(Task_node (Suc (brk s)) := lprev ?s4 Head, Head := Task_node (Suc (brk s))),
            lock_log := lock_log ?s4 @ [(me, Acquire Mutex_queue), (me, Release Mutex_queue)],
            clock := clock ?s4 + 3\<rparr>)"
    by (rule enqueue_task_ok[OF ok4])
  show ?thesis
    using assms(3-6)
    by (simp add: process_node_neighbour_def Let_def malloc_ok[OF assms(1)] then_r_def DIE_def
        c[simplified] e[simplified])
qed

lemma pthread_create_ok:
  "calls_ok s \<Longrightarrow> pthread_create i s =
     (0, s\<lparr>threads := (threads s)[i := Some (length (workers s))],
           workers := workers s @ [W_dequeue], clock := Suc (clock s)\<rparr>)"
  by (simp add: pthread_create_def libc_call_def calls_okD)

lemma create_threads_ok:
  "calls_ok s \<Longrightarrow> i + k \<le> length (threads s) \<Longrightarrow>
   create_threads k i s =
     Inr (s\<lparr>threads := take i (threads s)
                     @ map (\<lambda>j. Some (length (workers s) + j)) [0..<k]
                     @ drop (i + k) (threads s),
            workers := workers s @ replicate k W_dequeue,
            clock := clock s + k\<rparr>)"
proof (induction k arbitrary: i s)
  case 0
  then show ?case by simp
next
  case (Suc k)
  let ?s1 = "s\<lparr>threads := (threads s)[i := Some (length (workers s))],
           workers := workers s @ [W_dequeue], clock := Suc (clock s)\<rparr>"
  have ok1: "calls_ok ?s1" using Suc.prems(1) by (simp add: calls_ok_def)
  have len: "Suc i + k \<le> length (threads ?s1)" using Suc.prems(2) by simp
  have il: "i < length (threads s)" using Suc.prems(2) by simp
  have l: "take (Suc i) ((threads s)[i := Some (length (workers s))])
      = take i (threads s) @ [Some (length (workers s))]"
    using il by (simp add: take_Suc_conv_app_nth)
  have "create_threads (Suc k) i s = create_threads k (Suc i) ?s1"
    by (simp add: pthread_create_ok[OF Suc.prems(1)] then_r_def DIE_def)
  also note Suc.IH[OF ok1 len]
  finally show ?case
    by (simp add: l map_upt_Suc replicate_app_Cons_same del: upt_Suc)
qed

lemma create_threadpool_ok:
  assumes "calls_ok s" "workers s = []"
  shows "create_threadpool n s =
     Inr (s\<lparr>num_threads := n, threads := map Some [0..<n], num_tasks := 0, finished := False,
            lnext := (lnext s)(Head := Head), lprev := (lprev s)(Head := Head),
            brk := Suc (Suc (brk s)),
            mutex := (mutex s)(Mutex_queue := None),
            clock := clock s + 4 + n,
            workers := replicate n W_dequeue\<rparr>)"
proof -
  let ?s9 = "s\<lparr>num_threads := n, threads := replicate n None, num_tasks := 0, finished := False,
            lnext := (lnext s)(Head := Head), lprev := (lprev s)(Head := Head),
            brk := Suc (Suc (brk s)),
            mutex := (mutex s)(Mutex_queue := None),
            clock := clock s + 4\<rparr>"
  have ok9: "calls_ok ?s9" using assms(1) by (simp add: calls_ok_def)
  have len: "0 + n \<le> length (threads ?s9)" by simp
  have eq: "s\<lparr>lnext := (lnext s)(Head := Head), lprev := (lprev s)(Head := Head),
           mutex := (mutex s)(Mutex_queue := None), num_tasks := 0,
           finished := False, num_threads := n,
           clock := Suc (Suc (Suc (Suc (clock s)))),
           brk := Suc (Suc (brk s)), threads := replicate n None\<rparr> = ?s9"
    by simp
  have "create_threadpool n s = create_threads n 0 ?s9"
    using assms(1)
    by (simp add: create_threadpool_def malloc_def libc_call_def calls_okD list_init_def
        pthread_mutex_init_def pthread_cond_init_def then_r_def DIE_def eq)
  also note create_threads_ok[OF ok9 len]
  finally show ?thesis using assms(2) by simp
qed

lemma main_init_ok:
  assumes "calls_ok s" "workers s = []" "length (visited s) = length (nodes s)"
  shows "main_init n s =
     Inr (s\<lparr>num_threads := n, threads := map Some [0..<n], num_tasks := 0, finished := False,
            lnext := (lnext s)(Head := Head), lprev := (lprev s)(Head := Head),
            brk := Suc (Suc (brk s)),
            sum_total := 0,
            visited := replicate (length (nodes s)) NOT_VISITED,
            mutex := (mutex s)(Mutex_graph := None, Mutex_queue := None),
            clock := clock s + 5 + n,
            workers := replicate n W_dequeue\<rparr>)"
proof -
  let ?s3 = "s\<lparr>clock := Suc (clock s), mutex := (mutex s)(Mutex_graph := None),
           sum_total := 0,
           visited := replicate (length (nodes s)) NOT_VISITED\<rparr>"
  have ok3: "calls_ok ?s3" "workers ?s3 = []" using assms(1,2) by (simp_all add: calls_ok_def)
  have "main_init n s = create_threadpool n ?s3"
    using assms(3) by (simp add: main_init_def pthread_mutex_init_def libc_call_def Let_def)
  also note create_threadpool_ok[OF ok3]
  finally show ?thesis by simp
qed

lemma main_seed_ok:
  assumes "calls_ok s" "mutex s Mutex_queue = None"
  shows "main_seed s =
     Inr (s\<lparr>num_tasks := num_tasks s + 1,
            lnext := (lnext s)(lprev s Head := Task_node (Suc (brk s)),
                               Task_node (Suc (brk s)) := Head),
            lprev := (lprev s)(Task_node (Suc (brk s)) := lprev s Head,
                               Head := Task_node (Suc (brk s))),
            tasks := (tasks s)(Suc (brk s) \<mapsto>
               \<lparr>argument = brk s, action = Process_node, destroy_arg = Some Free_function\<rparr>),
            uints := (uints s)(brk s \<mapsto> 0),
            brk := Suc (Suc (brk s)),
            lock_log := lock_log s @ [(Main_thread, Acquire Mutex_queue),
                                      (Main_thread, Release Mutex_queue)],
            clock := clock s + 5\<rparr>)"
proof -
  let ?s3 = "s\<lparr>brk := Suc (brk s), clock := Suc (clock s), uints := (uints s)(brk s \<mapsto> 0)\<rparr>"
  have ok3: "calls_ok ?s3" using assms(1) by (simp add: calls_ok_def)
  let ?s4 = "?s3\<lparr>tasks := (tasks ?s3)(brk ?s3 \<mapsto>
       \<lparr>argument = brk s, action = Process_node, destroy_arg = Some Free_function\<rparr>),
       brk := Suc (brk ?s3), clock := Suc (clock ?s3)\<rparr>"
  have ok4: "calls_ok ?s4" "mutex ?s4 Mutex_queue = None"
    using assms(1,2) by (simp_all add: calls_ok_def)
  have c: "create_task Process_node (brk s) (Some Free_function) ?s3 = Inr (brk ?s3, ?s4)"
    by (rule create_task_ok[OF ok3])
  have e: "enqueue_task Main_thread (Some (Suc (brk s))) ?s4 = Inr
     (?s4\<lparr>num_tasks := num_tasks ?s4 + 1,
            lnext := (lnext ?s4)(lprev ?s4 Head := Task_node (Suc (brk s)), Task_node (Suc (brk s)) := Head),
            lprev := (lprev ?s4)(Task_node (Suc (brk s)) := lprev ?s4 Head, Head := Task_node (Suc (brk s))),
            lock_log := lock_log ?s4 @ [(Main_thread, Acquire Mutex_queue), (Main_thread, Release Mutex_queue)],
            clock := clock ?s4 + 3\<rparr>)"
    by (rule enqueue_task_ok[OF ok4])
  show ?thesis
    by (simp add: main_seed_def Let_def malloc_ok[OF assms(1)] then_r_def DIE_def
        c[simplified] e[simplified])
qed

lemma wait_for_completion_signal_ok:
  assumes "calls_ok s" "mutex s Mutex_queue = None"
  shows "wait_for_completion_signal me s =
     Inr (s\<lparr>finished := True,
            lock_log := lock_log s @ [(me, Acquire Mutex_queue), (me, Release Mutex_queue)],
            clock := clock s + 3\<rparr>)"
proof -
  have m: "(mutex s)(Mutex_queue := None) = mutex s"
    using assms(2) by (metis fun_upd_triv)
  show ?thesis using assms
    by (simp add: wait_for_completion_signal_def pthread_mutex_lock_def pthread_mutex_unlock_def
        pthread_cond_broadcast_def libc_call_def then_r_def DIE_def calls_okD m)
qed

lemma wait_for_completion_join_ok:
  assumes "calls_ok s" "i < length (threads s)" "threads s ! i = Some w"
    "w < length (workers s)" "workers s ! w = W_exited"
  shows "wait_for_completion_join i s = Inr (s\<lparr>clock := Suc (clock s)\<rparr>)"
  using assms
  by (simp add: wait_for_completion_join_def pthread_join_def libc_call_def then_r_def DIE_def
      calls_okD)

lemma wait_for_completion_join_blocked:
  assumes "i < length (threads s)" "threads s ! i = Some w"
    "w < length (workers s)" "workers s ! w \<noteq> W_exited"
  shows "wait_for_completion_join i s = Inl Blocked"
  using assms
  by (simp add: wait_for_completion_join_def pthread_join_def then_r_def)

lemma main_finish_ok:
  assumes "calls_ok s" "lnext s Head = Head"
  shows "main_finish s =
     Inr (s\<lparr>clock := clock s + 3, printed := Some (sum_total s)\<rparr>)"
proof -
  have d: "destroy_tasks Head s' = Some (Inr s')" for s'
    by (simp add: destroy_tasks.simps)
  show ?thesis using assms
    by (simp add: main_finish_def destroy_threadpool_def pthread_mutex_destroy_def
        pthread_cond_destroy_def libc_call_def then_r_def d)
qed

section \<open>The abstract transition system keeps its invariant\<close>

lemma in_set_update:
  "w < length xs \<Longrightarrow> x \<in> set (xs[w := y]) \<longleftrightarrow> x = y \<or> (\<exists>k<length xs. k \<noteq> w \<and> xs ! k = x)"
  by (auto simp: in_set_conv_nth nth_list_update)

lemma a_worker_step_cases:
  assumes "a_worker_step g w a = Some a'"
  obtains
    (exit) "w < length (a_workers a)" "a_workers a ! w = A_dequeue" "a_queue a = []" "a_finished a"
      "a' = a_set_worker w A_exited a"
  | (pop) "w < length (a_workers a)" "a_workers a ! w = A_dequeue" "a_queue a \<noteq> []"
      "a' = a_set_worker w (A_action (last (a_queue a))) (a\<lparr>a_queue := butlast (a_queue a)\<rparr>)"
  | (visit) idx where "w < length (a_workers a)" "a_workers a ! w = A_action idx" "\<not> a_locked a"
      "a_visited a ! idx = NOT_VISITED"
      "a' = a_set_worker w (A_loop idx 0)
              (a\<lparr>a_visited := (a_visited a)[idx := DONE], a_sum := a_sum a + info (g ! idx)\<rparr>)"
  | (seen) idx where "w < length (a_workers a)" "a_workers a ! w = A_action idx" "\<not> a_locked a"
      "a_visited a ! idx \<noteq> NOT_VISITED" "a' = a_set_worker w A_dequeue a"
  | (push) idx i where "w < length (a_workers a)" "a_workers a ! w = A_loop idx i" "i < deg g idx"
      "a_visited a ! (neighbours (g ! idx) ! i) = NOT_VISITED"
      "a' = a_set_worker w (A_loop idx (Suc i))
              (a\<lparr>a_queue := a_queue a @ [neighbours (g ! idx) ! i]\<rparr>)"
  | (skip) idx i where "w < length (a_workers a)" "a_workers a ! w = A_loop idx i" "i < deg g idx"
      "a_visited a ! (neighbours (g ! idx) ! i) \<noteq> NOT_VISITED"
      "a' = a_set_worker w (A_loop idx (Suc i)) a"
  | (leave) idx i where "w < length (a_workers a)" "a_workers a ! w = A_loop idx i"
      "\<not> i < deg g idx" "a' = a_set_worker w A_dequeue a"
  using assms unfolding a_worker_step_def deg_def
  by (cases "a_workers a ! w") (auto split: if_splits)

lemma a_main_step_cases:
  assumes "a_main_step g n a = Some a'"
  obtains
    (seed) "a_mpc a = M_seed" "a' = a\<lparr>a_queue := a_queue a @ [0], a_mpc := M_wait\<rparr>"
  | (wait) "a_mpc a = M_wait" "a' = a\<lparr>a_finished := True, a_mpc := M_join 0\<rparr>"
  | (join) i where "a_mpc a = M_join i" "i < n" "a_workers a ! i = A_exited"
      "a' = a\<lparr>a_mpc := M_join (Suc i)\<rparr>"
  | (finish) i where "a_mpc a = M_join i" "\<not> i < n" "a' = a\<lparr>a_mpc := M_exit\<rparr>"
  using assms unfolding a_main_step_def
  by (cases "a_mpc a") (auto split: if_splits)

lemma ainv_shape_step:
  assumes "ainv_shape g n a" "a_step g n th a = Some a'"
  shows "ainv_shape g n a'"
proof (cases th)
  case Main_thread
  with assms(2) have "a_main_step g n a = Some a'" by (simp add: a_step_def)
  then show ?thesis using assms(1) by (cases rule: a_main_step_cases) (auto simp: ainv_shape_def)
next
  case (Worker w)
  with assms(2) have "a_worker_step g w a = Some a'" by (simp add: a_step_def)
  then show ?thesis using assms(1)
    by (cases rule: a_worker_step_cases) (auto simp: ainv_shape_def a_set_worker_def)
qed

lemma a_locked_nth: "w < length (a_workers a) \<Longrightarrow> is_loop (a_workers a ! w) \<Longrightarrow> a_locked a"
  by (auto simp: a_locked_def)

lemma ainv_lock_step:
  assumes "ainv_lock n a" "ainv_shape g n a" "a_step g n th a = Some a'"
  shows "ainv_lock n a'"
proof (cases th)
  case Main_thread
  with assms(3) have "a_main_step g n a = Some a'" by (simp add: a_step_def)
  then show ?thesis using assms(1) by (cases rule: a_main_step_cases) (auto simp: ainv_lock_def)
next
  case (Worker w)
  with assms(3) have st: "a_worker_step g w a = Some a'" by (simp add: a_step_def)
  from assms(2) have len: "length (a_workers a) = n" by (simp add: ainv_shape_def)
  from st show ?thesis
  proof (cases rule: a_worker_step_cases)
    case (visit idx)
    have "\<not> is_loop (a_workers a ! k)" if "k < n" for k
      using visit(3) that len a_locked_nth by blast
    then show ?thesis using visit len
      by (auto simp: ainv_lock_def a_set_worker_def nth_list_update)
  qed (use assms(1) len in \<open>auto simp: ainv_lock_def a_set_worker_def nth_list_update
        split: if_splits\<close>)
qed

lemma reachable_zero: "0 \<in> reachable g"
  by (simp add: reachable_def)

lemma reachable_step:
  "u \<in> reachable g \<Longrightarrow> u < length g \<Longrightarrow> j < deg g u \<Longrightarrow> neighbours (g ! u) ! j \<in> reachable g"
  unfolding reachable_def deg_def
  by (auto simp: edges_def intro: rtrancl_into_rtrancl)

lemma reachable_lt:
  assumes "wf_graph g" "v \<in> reachable g"
  shows "v < length g"
proof -
  from assms(2) have "(0, v) \<in> (edges g)\<^sup>*" by (simp add: reachable_def)
  then show ?thesis
    using assms(1) by (induction rule: rtrancl_induct) (auto simp: wf_graph_def edges_def)
qed

lemma neighbour_lt:
  "wf_graph g \<Longrightarrow> u < length g \<Longrightarrow> j < deg g u \<Longrightarrow> neighbours (g ! u) ! j < length g"
  by (auto simp: wf_graph_def deg_def)

lemma visited_cases: "v \<noteq> NOT_VISITED \<longleftrightarrow> v = DONE"
  by (cases v) auto

lemma done_nodes_cong: "a_visited a' = a_visited a \<Longrightarrow> done_nodes g a' = done_nodes g a"
  by (simp add: done_nodes_def)

lemma unvisited_cong: "a_visited a' = a_visited a \<Longrightarrow> unvisited g a' = unvisited g a"
  by (simp add: unvisited_def)

lemma done_nodes_mark:
  "idx < length g \<Longrightarrow> length (a_visited a) = length g \<Longrightarrow>
   a_visited a' = (a_visited a)[idx := DONE] \<Longrightarrow> done_nodes g a' = insert idx (done_nodes g a)"
  by (auto simp: done_nodes_def nth_list_update)

lemma unvisited_mark:
  "idx < length g \<Longrightarrow> length (a_visited a) = length g \<Longrightarrow>
   a_visited a' = (a_visited a)[idx := DONE] \<Longrightarrow> unvisited g a' = unvisited g a - {idx}"
  by (auto simp: unvisited_def nth_list_update)

lemma finite_done [simp]: "finite (done_nodes g a)"
  by (simp add: done_nodes_def)

lemma finite_unvisited [simp]: "finite (unvisited g a)"
  by (simp add: unvisited_def)

lemma a_worker_step_frame:
  assumes "a_worker_step g w a = Some a'"
  shows "w < length (a_workers a) \<and> a_mpc a' = a_mpc a \<and> a_finished a' = a_finished a \<and>
     a_workers a ! w \<noteq> A_exited \<and>
     (a_workers a ! w = A_dequeue \<and> a_queue a = [] \<longrightarrow> a_finished a) \<and>
     a_workers a' = (a_workers a)[w := a_workers a' ! w] \<and>
     (a_workers a' ! w = A_exited \<longrightarrow> a_finished a \<and> a_queue a' = [])"
  using assms by (cases rule: a_worker_step_cases) (simp_all add: a_set_worker_def)

lemma ainv_ctl_step:
  assumes "ainv_ctl g n a" "ainv_shape g n a" "0 < n" "a_step g n th a = Some a'"
  shows "ainv_ctl g n a'"
proof -
  from assms(1) have c1: "a_mpc a \<noteq> M_start"
    and c2: "a_mpc a = M_seed \<or> a_mpc a = M_wait \<Longrightarrow> \<not> a_finished a"
    and c3: "\<not> a_finished a \<Longrightarrow> A_exited \<notin> set (a_workers a)"
    and c4: "a_mpc a = M_seed \<Longrightarrow> a_queue a = [] \<and> (\<forall>p\<in>set (a_workers a). p = A_dequeue) \<and>
         (\<forall>v\<in>set (a_visited a). v = NOT_VISITED)"
    and c5: "a_mpc a = M_exit \<or> (\<exists>i. a_mpc a = M_join i) \<Longrightarrow> a_finished a"
    and c6: "\<And>i. a_mpc a = M_join i \<Longrightarrow> i \<le> n \<and> (\<forall>j<i. a_workers a ! j = A_exited)"
    and c7: "a_mpc a = M_exit \<Longrightarrow> (\<forall>j<n. a_workers a ! j = A_exited)"
    and c8: "(\<forall>j<n. a_workers a ! j = A_exited) \<Longrightarrow> a_queue a = []"
    unfolding ainv_ctl_def by blast+
  from assms(2) have len: "length (a_workers a) = n" by (simp add: ainv_shape_def)
  show ?thesis
  proof (cases th)
    case Main_thread
    with assms(4) have "a_main_step g n a = Some a'" by (simp add: a_step_def)
    then show ?thesis
    proof (cases rule: a_main_step_cases)
      case seed
      from len assms(3) have l: "0 < length (a_workers a)" by simp
      have "a_workers a ! 0 = A_dequeue"
        using c4[OF seed(1)] nth_mem[OF l] by blast
      then have ne: "\<not> (\<forall>j<n. a_workers a ! j = A_exited)"
        using assms(3) by auto
      from seed c2 c3 ne show ?thesis unfolding ainv_ctl_def by simp
    next
      case wait
      with c3 c8 show ?thesis unfolding ainv_ctl_def by simp
    next
      case (join i)
      from c6[OF join(1)] join(2,3) have "\<forall>j<Suc i. a_workers a ! j = A_exited"
        by (simp add: less_Suc_eq)
      with join c5 c8 show ?thesis unfolding ainv_ctl_def by simp
    next
      case (finish i)
      from c6[OF finish(1)] finish(2) have "\<forall>j<n. a_workers a ! j = A_exited" by simp
      with finish c5 c8 show ?thesis unfolding ainv_ctl_def by simp
    qed
  next
    case (Worker w)
    with assms(4) have st: "a_worker_step g w a = Some a'" by (simp add: a_step_def)
    define p where "p = a_workers a' ! w"
    from a_worker_step_frame[OF st] have
      w: "w < length (a_workers a)" and m: "a_mpc a' = a_mpc a" and f: "a_finished a' = a_finished a"
      and ne: "a_workers a ! w \<noteq> A_exited"
      and dq: "a_workers a ! w = A_dequeue \<Longrightarrow> a_queue a = [] \<Longrightarrow> a_finished a"
      and ws: "a_workers a' = (a_workers a)[w := p]"
      and px: "p = A_exited \<Longrightarrow> a_finished a \<and> a_queue a' = []"
      unfolding p_def by blast+
    have wn: "w < n" using w len by simp
    have not_seed: "a_mpc a \<noteq> M_seed"
    proof
      assume s: "a_mpc a = M_seed"
      from c4[OF s] nth_mem[OF w] have "a_workers a ! w = A_dequeue" "a_queue a = []" by blast+
      from dq[OF this] c2 s show False by blast
    qed
    have not_exit: "a_mpc a \<noteq> M_exit" using c7 ne wn by blast
    have g3: "\<not> a_finished a' \<longrightarrow> A_exited \<notin> set (a_workers a')"
      using c3 px f w by (auto simp: ws in_set_update dest: nth_mem)
    have g6: "\<forall>i. a_mpc a' = M_join i \<longrightarrow> i \<le> n \<and> (\<forall>j<i. a_workers a' ! j = A_exited)"
    proof (intro allI impI)
      fix i assume "a_mpc a' = M_join i"
      with m have "a_mpc a = M_join i" by simp
      from c6[OF this] have i: "i \<le> n" "\<forall>j<i. a_workers a ! j = A_exited" by blast+
      have "a_workers a' ! j = A_exited" if "j < i" for j
      proof -
        from i(2) that ne have "j \<noteq> w" by auto
        with i(2) that show ?thesis by (simp add: ws)
      qed
      with i(1) show "i \<le> n \<and> (\<forall>j<i. a_workers a' ! j = A_exited)" by blast
    qed
    have g8: "(\<forall>j<n. a_workers a' ! j = A_exited) \<longrightarrow> a_queue a' = []"
    proof
      assume "\<forall>j<n. a_workers a' ! j = A_exited"
      with wn have "a_workers a' ! w = A_exited" by blast
      with w have "p = A_exited" by (simp add: ws)
      with px show "a_queue a' = []" by blast
    qed
    from c1 c2 c5 m f not_seed not_exit g3 g6 g8 show ?thesis
      unfolding ainv_ctl_def by simp
  qed
qed

lemma all_set_update:
  "(\<forall>p\<in>set xs. P p) \<Longrightarrow> P y \<Longrightarrow> \<forall>p\<in>set (xs[w := y]). P p"
  by (metis insert_iff set_update_subset_insert subsetD)

lemma workers_update:
  "\<forall>p\<in>set (a_workers a). P p \<Longrightarrow> P y \<Longrightarrow> a_workers a' = (a_workers a)[w := y] \<Longrightarrow>
   \<forall>p\<in>set (a_workers a'). P p"
  using all_set_update[of "a_workers a" P y w] by simp

lemma apc_ok_mono:
  "apc_ok g a p \<Longrightarrow> (\<And>v. a_visited a ! v = DONE \<Longrightarrow> a_visited a' ! v = DONE) \<Longrightarrow> apc_ok g a' p"
  by (cases p) auto

lemma apc_ok_cong: "a_visited a' = a_visited a \<Longrightarrow> apc_ok g a' p = apc_ok g a p"
  by (cases p) auto

lemma a_main_step_frame:
  assumes "a_main_step g n a = Some a'"
  shows "a_visited a' = a_visited a \<and> a_workers a' = a_workers a \<and> a_sum a' = a_sum a \<and>
     (a_queue a' = a_queue a \<or> a_mpc a = M_seed \<and> a_queue a' = a_queue a @ [0])"
  using assms by (cases rule: a_main_step_cases) simp_all

lemma ainv_reach_step:
  assumes "ainv_reach g a" "ainv_shape g n a" "wf_graph g" "a_step g n th a = Some a'"
  shows "ainv_reach g a'"
proof -
  from assms(1) have q: "\<forall>idx\<in>set (a_queue a). idx \<in> reachable g"
    and p: "\<forall>p\<in>set (a_workers a). apc_ok g a p"
    and d: "done_nodes g a \<subseteq> reachable g"
    by (auto simp: ainv_reach_def)
  from assms(2) have lv: "length (a_visited a) = length g" by (simp add: ainv_shape_def)
  show ?thesis
  proof (cases th)
    case Main_thread
    with assms(4) have "a_main_step g n a = Some a'" by (simp add: a_step_def)
    from a_main_step_frame[OF this] have v: "a_visited a' = a_visited a"
      and w: "a_workers a' = a_workers a"
      and qq: "a_queue a' = a_queue a \<or> a_queue a' = a_queue a @ [0]" by blast+
    from qq q have "\<forall>idx\<in>set (a_queue a'). idx \<in> reachable g"
      by (auto simp: reachable_zero)
    with p d show ?thesis
      by (simp add: ainv_reach_def apc_ok_cong[OF v] done_nodes_cong[OF v] w)
  next
    case (Worker w)
    with assms(4) have st: "a_worker_step g w a = Some a'" by (simp add: a_step_def)
    from st show ?thesis
    proof (cases rule: a_worker_step_cases)
      case exit
      then have v: "a_visited a' = a_visited a" by (simp add: a_set_worker_def)
      have "\<forall>p\<in>set (a_workers a'). apc_ok g a p"
        by (rule workers_update[where P = "apc_ok g a", OF p]) (simp_all add: exit(5) a_set_worker_def)
      moreover have "a_queue a' = a_queue a" by (simp add: exit(5) a_set_worker_def)
      ultimately show ?thesis using q d
        by (simp add: ainv_reach_def apc_ok_cong[OF v] done_nodes_cong[OF v])
    next
      case pop
      then have v: "a_visited a' = a_visited a" by (simp add: a_set_worker_def)
      from pop(3) q have "apc_ok g a (A_action (last (a_queue a)))" by simp
      then have "\<forall>p\<in>set (a_workers a'). apc_ok g a p"
        by (rule workers_update[where P = "apc_ok g a", OF p]) (simp_all add: pop(4) a_set_worker_def)
      moreover have "\<forall>idx\<in>set (a_queue a'). idx \<in> reachable g"
        unfolding pop(4) a_set_worker_def using q by (auto dest: in_set_butlastD)
      ultimately show ?thesis using d
        by (simp add: ainv_reach_def apc_ok_cong[OF v] done_nodes_cong[OF v])
    next
      case (visit idx)
      from p nth_mem[OF visit(1)] have "apc_ok g a (a_workers a ! w)" by blast
      then have r: "idx \<in> reachable g" by (simp add: visit(2))
      then have il: "idx < length g" using assms(3) reachable_lt by blast
      have v: "a_visited a' = (a_visited a)[idx := DONE]" by (simp add: visit(5) a_set_worker_def)
      have mono: "a_visited a' ! v = DONE" if "a_visited a ! v = DONE" for v
        using that il lv by (simp add: v nth_list_update)
      have new: "apc_ok g a' (A_loop idx 0)" using r il lv by (simp add: v)
      have old: "\<forall>p\<in>set (a_workers a). apc_ok g a' p"
      proof
        fix x assume "x \<in> set (a_workers a)"
        with p have "apc_ok g a x" by blast
        then show "apc_ok g a' x" by (rule apc_ok_mono) (rule mono)
      qed
      have "\<forall>p\<in>set (a_workers a'). apc_ok g a' p"
        by (rule workers_update[where P = "apc_ok g a'", OF old new])
           (simp add: visit(5) a_set_worker_def)
      moreover have "a_queue a' = a_queue a" by (simp add: visit(5) a_set_worker_def)
      moreover have "done_nodes g a' \<subseteq> reachable g"
        using done_nodes_mark[OF il lv v] d r by simp
      ultimately show ?thesis using q by (simp add: ainv_reach_def)
    next
      case (seen idx)
      then have v: "a_visited a' = a_visited a" by (simp add: a_set_worker_def)
      have "\<forall>p\<in>set (a_workers a'). apc_ok g a p"
        by (rule workers_update[where P = "apc_ok g a", OF p]) (simp_all add: seen(5) a_set_worker_def)
      moreover have "a_queue a' = a_queue a" by (simp add: seen(5) a_set_worker_def)
      ultimately show ?thesis using q d
        by (simp add: ainv_reach_def apc_ok_cong[OF v] done_nodes_cong[OF v])
    next
      case (push idx i)
      then have v: "a_visited a' = a_visited a" by (simp add: a_set_worker_def)
      from p nth_mem[OF push(1)] have "apc_ok g a (a_workers a ! w)" by blast
      then have ok: "apc_ok g a (A_loop idx i)" by (simp add: push(2))
      then have r: "idx \<in> reachable g" and dn: "a_visited a ! idx = DONE" by simp_all
      from r have il: "idx < length g" using assms(3) reachable_lt by blast
      from reachable_step[OF r il push(3)] have nb: "neighbours (g ! idx) ! i \<in> reachable g" .
      have "apc_ok g a (A_loop idx (Suc i))" using r dn push(3) by simp
      then have "\<forall>p\<in>set (a_workers a'). apc_ok g a p"
        by (rule workers_update[where P = "apc_ok g a", OF p]) (simp_all add: push(5) a_set_worker_def)
      moreover have "\<forall>idx\<in>set (a_queue a'). idx \<in> reachable g"
        unfolding push(5) a_set_worker_def using q nb by simp
      ultimately show ?thesis using d
        by (simp add: ainv_reach_def apc_ok_cong[OF v] done_nodes_cong[OF v])
    next
      case (skip idx i)
      then have v: "a_visited a' = a_visited a" by (simp add: a_set_worker_def)
      from p nth_mem[OF skip(1)] have "apc_ok g a (a_workers a ! w)" by blast
      then have ok: "apc_ok g a (A_loop idx i)" by (simp add: skip(2))
      then have "apc_ok g a (A_loop idx (Suc i))" using skip(3) by simp
      then have "\<forall>p\<in>set (a_workers a'). apc_ok g a p"
        by (rule workers_update[where P = "apc_ok g a", OF p]) (simp_all add: skip(5) a_set_worker_def)
      moreover have "a_queue a' = a_queue a" by (simp add: skip(5) a_set_worker_def)
      ultimately show ?thesis using q d
        by (simp add: ainv_reach_def apc_ok_cong[OF v] done_nodes_cong[OF v])
    next
      case (leave idx i)
      then have v: "a_visited a' = a_visited a" by (simp add: a_set_worker_def)
      have "\<forall>p\<in>set (a_workers a'). apc_ok g a p"
        by (rule workers_update[where P = "apc_ok g a", OF p]) (simp_all add: leave(4) a_set_worker_def)
      moreover have "a_queue a' = a_queue a" by (simp add: leave(4) a_set_worker_def)
      ultimately show ?thesis using q d
        by (simp add: ainv_reach_def apc_ok_cong[OF v] done_nodes_cong[OF v])
    qed
  qed
qed

lemma ainv_sum_step:
  assumes "ainv_sum g a" "ainv_reach g a" "ainv_shape g n a" "wf_graph g"
    "a_step g n th a = Some a'"
  shows "ainv_sum g a'"
proof -
  from assms(3) have lv: "length (a_visited a) = length g" by (simp add: ainv_shape_def)
  have same: "ainv_sum g b" if "a_visited b = a_visited a" "a_sum b = a_sum a" for b
    using that assms(1) by (simp add: ainv_sum_def done_nodes_cong[OF that(1)])
  show ?thesis
  proof (cases th)
    case Main_thread
    with assms(5) have "a_main_step g n a = Some a'" by (simp add: a_step_def)
    from a_main_step_frame[OF this] show ?thesis using same by blast
  next
    case (Worker w)
    with assms(5) have st: "a_worker_step g w a = Some a'" by (simp add: a_step_def)
    from st show ?thesis
    proof (cases rule: a_worker_step_cases)
      case (visit idx)
      from assms(2) nth_mem[OF visit(1)] have "apc_ok g a (a_workers a ! w)"
        unfolding ainv_reach_def by blast
      then have "idx \<in> reachable g" by (simp add: visit(2))
      then have il: "idx < length g" using assms(4) reachable_lt by blast
      have v: "a_visited a' = (a_visited a)[idx := DONE]" by (simp add: visit(5) a_set_worker_def)
      have ni: "idx \<notin> done_nodes g a" using visit(4) by (simp add: done_nodes_def)
      have "a_sum a' = a_sum a + info (g ! idx)" by (simp add: visit(5) a_set_worker_def)
      moreover have "(\<Sum>v\<in>insert idx (done_nodes g a). info (g ! v))
          = info (g ! idx) + (\<Sum>v\<in>done_nodes g a. info (g ! v))"
        using ni by (simp add: sum.insert)
      ultimately show ?thesis using assms(1)
        unfolding ainv_sum_def done_nodes_mark[OF il lv v] by (simp add: add.commute)
    qed (simp_all add: same a_set_worker_def)
  qed
qed

lemma in_update_keep:
  "x \<in> set xs \<Longrightarrow> x \<noteq> xs ! w \<Longrightarrow> x \<in> set (xs[w := y])"
  by (metis in_set_conv_nth length_list_update nth_list_update_neq)

lemma in_update_new: "w < length xs \<Longrightarrow> y \<in> set (xs[w := y])"
  by (rule set_update_memI)

lemma ainv_closed_mono:
  assumes "ainv_closed g a"
    and D: "done_nodes g a \<subseteq> done_nodes g a'"
    and U: "\<And>v. underway a v \<Longrightarrow> underway a' v \<or> v \<in> done_nodes g a'"
    and L: "\<And>u i j. A_loop u i \<in> set (a_workers a) \<Longrightarrow> i \<le> j \<Longrightarrow> j < deg g u \<Longrightarrow>
              (\<exists>i'\<le>j. A_loop u i' \<in> set (a_workers a')) \<or>
              neighbours (g ! u) ! j \<in> done_nodes g a' \<or> underway a' (neighbours (g ! u) ! j)"
    and N: "\<And>u j. u \<in> done_nodes g a' \<Longrightarrow> u \<notin> done_nodes g a \<Longrightarrow> j < deg g u \<Longrightarrow>
              (\<exists>i'\<le>j. A_loop u i' \<in> set (a_workers a'))"
    and S: "a_mpc a = M_seed \<Longrightarrow> a_mpc a' = M_seed \<or> underway a' 0"
  shows "ainv_closed g a'"
proof -
  from assms(1) have C: "\<And>u j. u \<in> done_nodes g a \<Longrightarrow> j < deg g u \<Longrightarrow>
         neighbours (g ! u) ! j \<in> done_nodes g a \<or> underway a (neighbours (g ! u) ! j) \<or>
         (\<exists>i\<le>j. A_loop u i \<in> set (a_workers a))"
    and Z: "a_mpc a = M_seed \<or> 0 \<in> done_nodes g a \<or> underway a 0"
    unfolding ainv_closed_def by blast+
  have C': "neighbours (g ! u) ! j \<in> done_nodes g a' \<or> underway a' (neighbours (g ! u) ! j) \<or>
         (\<exists>i\<le>j. A_loop u i \<in> set (a_workers a'))"
    if u: "u \<in> done_nodes g a'" and j: "j < deg g u" for u j
  proof (cases "u \<in> done_nodes g a")
    case False
    from N[OF u False j] show ?thesis by blast
  next
    case True
    from C[OF True j] consider
        (d) "neighbours (g ! u) ! j \<in> done_nodes g a"
      | (w) "underway a (neighbours (g ! u) ! j)"
      | (l) i where "i \<le> j" "A_loop u i \<in> set (a_workers a)" by blast
    then show ?thesis
    proof cases
      case d
      with D show ?thesis by blast
    next
      case w
      from U[OF w] show ?thesis by blast
    next
      case (l i)
      from L[OF l(2) l(1) j] show ?thesis by blast
    qed
  qed
  have Z': "a_mpc a' = M_seed \<or> 0 \<in> done_nodes g a' \<or> underway a' 0"
    using Z S D U by blast
  from C' Z' show ?thesis unfolding ainv_closed_def by blast
qed

lemma underway_action: "A_action v \<in> set (a_workers a) \<Longrightarrow> underway a v"
  by (simp add: underway_def)

lemma underway_queue: "v \<in> set (a_queue a) \<Longrightarrow> underway a v"
  by (simp add: underway_def)

lemma underway_update:
  assumes "underway a v" "a_workers a' = (a_workers a)[w := p]"
    "set (a_queue a) \<subseteq> set (a_queue a')" "a_workers a ! w \<noteq> A_action v"
  shows "underway a' v"
  using assms unfolding underway_def by (auto intro: in_update_keep)

lemma loop_update:
  assumes "A_loop u i \<in> set (a_workers a)" "a_workers a' = (a_workers a)[w := p]"
    "a_workers a ! w \<noteq> A_loop u i"
  shows "A_loop u i \<in> set (a_workers a')"
  using assms by (auto intro: in_update_keep)

lemma ainv_closed_step:
  assumes "ainv_closed g a" "ainv_reach g a" "ainv_shape g n a" "wf_graph g"
    "a_step g n th a = Some a'"
  shows "ainv_closed g a'"
proof -
  from assms(3) have lv: "length (a_visited a) = length g" by (simp add: ainv_shape_def)
  from assms(2) have p: "\<forall>p\<in>set (a_workers a). apc_ok g a p"
    by (auto simp: ainv_reach_def)
  show ?thesis
  proof (cases th)
    case Main_thread
    with assms(5) have "a_main_step g n a = Some a'" by (simp add: a_step_def)
    from a_main_step_frame[OF this] have v: "a_visited a' = a_visited a"
      and w: "a_workers a' = a_workers a"
      and qq: "a_queue a' = a_queue a \<or> a_mpc a = M_seed \<and> a_queue a' = a_queue a @ [0]"
      by blast+
    have sub: "set (a_queue a) \<subseteq> set (a_queue a')" using qq by auto
    show ?thesis
    proof (rule ainv_closed_mono[OF assms(1)])
      show "done_nodes g a \<subseteq> done_nodes g a'" by (simp add: done_nodes_cong[OF v])
      show "underway a v \<Longrightarrow> underway a' v \<or> v \<in> done_nodes g a'" for v
        using sub w by (auto simp: underway_def)
      show "A_loop u i \<in> set (a_workers a) \<Longrightarrow> i \<le> j \<Longrightarrow> j < deg g u \<Longrightarrow>
              (\<exists>i'\<le>j. A_loop u i' \<in> set (a_workers a')) \<or>
              neighbours (g ! u) ! j \<in> done_nodes g a' \<or> underway a' (neighbours (g ! u) ! j)"
        for u i j using w by auto
      show "u \<in> done_nodes g a' \<Longrightarrow> u \<notin> done_nodes g a \<Longrightarrow> j < deg g u \<Longrightarrow>
              (\<exists>i'\<le>j. A_loop u i' \<in> set (a_workers a'))" for u j
        by (simp add: done_nodes_cong[OF v])
      show "a_mpc a = M_seed \<Longrightarrow> a_mpc a' = M_seed \<or> underway a' 0"
        using qq
      proof
        assume "a_mpc a = M_seed" "a_queue a' = a_queue a"
        with \<open>a_main_step g n a = Some a'\<close> show ?thesis
          by (cases rule: a_main_step_cases) simp_all
      next
        assume "a_mpc a = M_seed \<and> a_queue a' = a_queue a @ [0]"
        then show ?thesis by (simp add: underway_def)
      qed
    qed
  next
    case (Worker w)
    with assms(5) have st: "a_worker_step g w a = Some a'" by (simp add: a_step_def)
    from a_worker_step_frame[OF st] have m: "a_mpc a' = a_mpc a" by blast
    from st show ?thesis
    proof (cases rule: a_worker_step_cases)
      case exit
      then have v: "a_visited a' = a_visited a" and ws: "a_workers a' = (a_workers a)[w := A_exited]"
        and qs: "a_queue a' = a_queue a" by (simp_all add: a_set_worker_def)
      show ?thesis
      proof (rule ainv_closed_mono[OF assms(1)])
        show "done_nodes g a \<subseteq> done_nodes g a'" by (simp add: done_nodes_cong[OF v])
        show "underway a v \<Longrightarrow> underway a' v \<or> v \<in> done_nodes g a'" for v
          using underway_update[OF _ ws, of v] qs exit(2) by simp
        show "A_loop u i \<in> set (a_workers a) \<Longrightarrow> i \<le> j \<Longrightarrow> j < deg g u \<Longrightarrow>
              (\<exists>i'\<le>j. A_loop u i' \<in> set (a_workers a')) \<or>
              neighbours (g ! u) ! j \<in> done_nodes g a' \<or> underway a' (neighbours (g ! u) ! j)"
          for u i j using loop_update[OF _ ws, of u i] exit(2) by auto
        show "u \<in> done_nodes g a' \<Longrightarrow> u \<notin> done_nodes g a \<Longrightarrow> j < deg g u \<Longrightarrow>
              (\<exists>i'\<le>j. A_loop u i' \<in> set (a_workers a'))" for u j
          by (simp add: done_nodes_cong[OF v])
        show "a_mpc a = M_seed \<Longrightarrow> a_mpc a' = M_seed \<or> underway a' 0" using m by simp
      qed
    next
      case pop
      then have v: "a_visited a' = a_visited a"
        and ws: "a_workers a' = (a_workers a)[w := A_action (last (a_queue a))]"
        and qs: "a_queue a' = butlast (a_queue a)" by (simp_all add: a_set_worker_def)
      have new: "A_action (last (a_queue a)) \<in> set (a_workers a')"
        unfolding ws using pop(1) by (rule in_update_new)
      show ?thesis
      proof (rule ainv_closed_mono[OF assms(1)])
        show "done_nodes g a \<subseteq> done_nodes g a'" by (simp add: done_nodes_cong[OF v])
        show "underway a v \<Longrightarrow> underway a' v \<or> v \<in> done_nodes g a'" for v
        proof -
          assume "underway a v"
          then consider "v \<in> set (a_queue a)" | "A_action v \<in> set (a_workers a)"
            unfolding underway_def by blast
          then show ?thesis
          proof cases
            case 1
            then have "v \<in> set (butlast (a_queue a)) \<or> v = last (a_queue a)"
              using pop(3) by (metis append_butlast_last_id in_set_conv_decomp_last
                  insert_iff list.set(2) rotate1.simps(2) set_rotate1)
            with new show ?thesis unfolding underway_def qs by blast
          next
            case 2
            then have "A_action v \<in> set (a_workers a')"
              unfolding ws using pop(2) by (intro in_update_keep) simp_all
            then show ?thesis by (simp add: underway_def)
          qed
        qed
        show "A_loop u i \<in> set (a_workers a) \<Longrightarrow> i \<le> j \<Longrightarrow> j < deg g u \<Longrightarrow>
              (\<exists>i'\<le>j. A_loop u i' \<in> set (a_workers a')) \<or>
              neighbours (g ! u) ! j \<in> done_nodes g a' \<or> underway a' (neighbours (g ! u) ! j)"
          for u i j using loop_update[OF _ ws, of u i] pop(2) by auto
        show "u \<in> done_nodes g a' \<Longrightarrow> u \<notin> done_nodes g a \<Longrightarrow> j < deg g u \<Longrightarrow>
              (\<exists>i'\<le>j. A_loop u i' \<in> set (a_workers a'))" for u j
          by (simp add: done_nodes_cong[OF v])
        show "a_mpc a = M_seed \<Longrightarrow> a_mpc a' = M_seed \<or> underway a' 0" using m by simp
      qed
    next
      case (visit idx)
      from p nth_mem[OF visit(1)] have "apc_ok g a (a_workers a ! w)" by blast
      then have "idx \<in> reachable g" by (simp add: visit(2))
      then have il: "idx < length g" using assms(4) reachable_lt by blast
      have v: "a_visited a' = (a_visited a)[idx := DONE]"
        and ws: "a_workers a' = (a_workers a)[w := A_loop idx 0]"
        and qs: "a_queue a' = a_queue a" by (simp_all add: visit(5) a_set_worker_def)
      note dn = done_nodes_mark[OF il lv v]
      have new: "A_loop idx 0 \<in> set (a_workers a')"
        unfolding ws using visit(1) by (rule in_update_new)
      show ?thesis
      proof (rule ainv_closed_mono[OF assms(1)])
        show "done_nodes g a \<subseteq> done_nodes g a'" unfolding dn by blast
        show "underway a v \<Longrightarrow> underway a' v \<or> v \<in> done_nodes g a'" for v
        proof (cases "v = idx")
          case True
          then show ?thesis unfolding dn by simp
        next
          case False
          assume "underway a v"
          from underway_update[OF this ws] qs False visit(2) show ?thesis by simp
        qed
        show "A_loop u i \<in> set (a_workers a) \<Longrightarrow> i \<le> j \<Longrightarrow> j < deg g u \<Longrightarrow>
              (\<exists>i'\<le>j. A_loop u i' \<in> set (a_workers a')) \<or>
              neighbours (g ! u) ! j \<in> done_nodes g a' \<or> underway a' (neighbours (g ! u) ! j)"
          for u i j using loop_update[OF _ ws, of u i] visit(2) by auto
        show "u \<in> done_nodes g a' \<Longrightarrow> u \<notin> done_nodes g a \<Longrightarrow> j < deg g u \<Longrightarrow>
              (\<exists>i'\<le>j. A_loop u i' \<in> set (a_workers a'))" for u j
          unfolding dn using new by auto
        show "a_mpc a = M_seed \<Longrightarrow> a_mpc a' = M_seed \<or> underway a' 0" using m by simp
      qed
    next
      case (seen idx)
      from p nth_mem[OF seen(1)] have "apc_ok g a (a_workers a ! w)" by blast
      then have "idx \<in> reachable g" by (simp add: seen(2))
      then have il: "idx < length g" using assms(4) reachable_lt by blast
      have v: "a_visited a' = a_visited a" and ws: "a_workers a' = (a_workers a)[w := A_dequeue]"
        and qs: "a_queue a' = a_queue a" by (simp_all add: seen(5) a_set_worker_def)
      have idn: "idx \<in> done_nodes g a'"
        using il seen(4) by (simp add: done_nodes_def v visited_cases)
      show ?thesis
      proof (rule ainv_closed_mono[OF assms(1)])
        show "done_nodes g a \<subseteq> done_nodes g a'" by (simp add: done_nodes_cong[OF v])
        show "underway a v \<Longrightarrow> underway a' v \<or> v \<in> done_nodes g a'" for v
        proof (cases "v = idx")
          case True
          then show ?thesis using idn by simp
        next
          case False
          assume "underway a v"
          from underway_update[OF this ws] qs False seen(2) show ?thesis by simp
        qed
        show "A_loop u i \<in> set (a_workers a) \<Longrightarrow> i \<le> j \<Longrightarrow> j < deg g u \<Longrightarrow>
              (\<exists>i'\<le>j. A_loop u i' \<in> set (a_workers a')) \<or>
              neighbours (g ! u) ! j \<in> done_nodes g a' \<or> underway a' (neighbours (g ! u) ! j)"
          for u i j using loop_update[OF _ ws, of u i] seen(2) by auto
        show "u \<in> done_nodes g a' \<Longrightarrow> u \<notin> done_nodes g a \<Longrightarrow> j < deg g u \<Longrightarrow>
              (\<exists>i'\<le>j. A_loop u i' \<in> set (a_workers a'))" for u j
          by (simp add: done_nodes_cong[OF v])
        show "a_mpc a = M_seed \<Longrightarrow> a_mpc a' = M_seed \<or> underway a' 0" using m by simp
      qed
    next
      case (push idx i)
      have v: "a_visited a' = a_visited a"
        and ws: "a_workers a' = (a_workers a)[w := A_loop idx (Suc i)]"
        and qs: "a_queue a' = a_queue a @ [neighbours (g ! idx) ! i]"
        by (simp_all add: push(5) a_set_worker_def)
      have new: "A_loop idx (Suc i) \<in> set (a_workers a')"
        unfolding ws using push(1) by (rule in_update_new)
      show ?thesis
      proof (rule ainv_closed_mono[OF assms(1)])
        show "done_nodes g a \<subseteq> done_nodes g a'" by (simp add: done_nodes_cong[OF v])
        show "underway a v \<Longrightarrow> underway a' v \<or> v \<in> done_nodes g a'" for v
          using underway_update[OF _ ws, of v] qs push(2) by auto
        show "(\<exists>i'\<le>j. A_loop u i' \<in> set (a_workers a')) \<or>
              neighbours (g ! u) ! j \<in> done_nodes g a' \<or> underway a' (neighbours (g ! u) ! j)"
          if l: "A_loop u k \<in> set (a_workers a)" and kj: "k \<le> j" and j: "j < deg g u" for u k j
        proof (cases "a_workers a ! w = A_loop u k")
          case False
          from loop_update[OF l ws False] kj show ?thesis by blast
        next
          case True
          with push(2) have e: "u = idx" "k = i" by simp_all
          show ?thesis
          proof (cases "i = j")
            case True
            then show ?thesis unfolding e underway_def qs by simp
          next
            case False
            with kj e have "Suc i \<le> j" by simp
            with new e show ?thesis by blast
          qed
        qed
        show "u \<in> done_nodes g a' \<Longrightarrow> u \<notin> done_nodes g a \<Longrightarrow> j < deg g u \<Longrightarrow>
              (\<exists>i'\<le>j. A_loop u i' \<in> set (a_workers a'))" for u j
          by (simp add: done_nodes_cong[OF v])
        show "a_mpc a = M_seed \<Longrightarrow> a_mpc a' = M_seed \<or> underway a' 0" using m by simp
      qed
    next
      case (skip idx i)
      from p nth_mem[OF skip(1)] have "apc_ok g a (a_workers a ! w)" by blast
      then have "idx \<in> reachable g" by (simp add: skip(2))
      then have il: "idx < length g" using assms(4) reachable_lt by blast
      have v: "a_visited a' = a_visited a"
        and ws: "a_workers a' = (a_workers a)[w := A_loop idx (Suc i)]"
        and qs: "a_queue a' = a_queue a"
        by (simp_all add: skip(5) a_set_worker_def)
      have new: "A_loop idx (Suc i) \<in> set (a_workers a')"
        unfolding ws using skip(1) by (rule in_update_new)
      have nbd: "neighbours (g ! idx) ! i \<in> done_nodes g a'"
        using neighbour_lt[OF assms(4) il skip(3)] skip(4)
        by (simp add: done_nodes_def v visited_cases)
      show ?thesis
      proof (rule ainv_closed_mono[OF assms(1)])
        show "done_nodes g a \<subseteq> done_nodes g a'" by (simp add: done_nodes_cong[OF v])
        show "underway a v \<Longrightarrow> underway a' v \<or> v \<in> done_nodes g a'" for v
          using underway_update[OF _ ws, of v] qs skip(2) by simp
        show "(\<exists>i'\<le>j. A_loop u i' \<in> set (a_workers a')) \<or>
              neighbours (g ! u) ! j \<in> done_nodes g a' \<or> underway a' (neighbours (g ! u) ! j)"
          if l: "A_loop u k \<in> set (a_workers a)" and kj: "k \<le> j" and j: "j < deg g u" for u k j
        proof (cases "a_workers a ! w = A_loop u k")
          case False
          from loop_update[OF l ws False] kj show ?thesis by blast
        next
          case True
          with skip(2) have e: "u = idx" "k = i" by simp_all
          show ?thesis
          proof (cases "i = j")
            case True
            then show ?thesis unfolding e using nbd by simp
          next
            case False
            with kj e have "Suc i \<le> j" by simp
            with new e show ?thesis by blast
          qed
        qed
        show "u \<in> done_nodes g a' \<Longrightarrow> u \<notin> done_nodes g a \<Longrightarrow> j < deg g u \<Longrightarrow>
              (\<exists>i'\<le>j. A_loop u i' \<in> set (a_workers a'))" for u j
          by (simp add: done_nodes_cong[OF v])
        show "a_mpc a = M_seed \<Longrightarrow> a_mpc a' = M_seed \<or> underway a' 0" using m by simp
      qed
    next
      case (leave idx i)
      have v: "a_visited a' = a_visited a"
        and ws: "a_workers a' = (a_workers a)[w := A_dequeue]"
        and qs: "a_queue a' = a_queue a"
        by (simp_all add: leave(4) a_set_worker_def)
      show ?thesis
      proof (rule ainv_closed_mono[OF assms(1)])
        show "done_nodes g a \<subseteq> done_nodes g a'" by (simp add: done_nodes_cong[OF v])
        show "underway a v \<Longrightarrow> underway a' v \<or> v \<in> done_nodes g a'" for v
          using underway_update[OF _ ws, of v] qs leave(2) by simp
        show "(\<exists>i'\<le>j. A_loop u i' \<in> set (a_workers a')) \<or>
              neighbours (g ! u) ! j \<in> done_nodes g a' \<or> underway a' (neighbours (g ! u) ! j)"
          if l: "A_loop u k \<in> set (a_workers a)" and kj: "k \<le> j" and j: "j < deg g u" for u k j
        proof (cases "a_workers a ! w = A_loop u k")
          case False
          from loop_update[OF l ws False] kj show ?thesis by blast
        next
          case True
          with leave(2) have e: "u = idx" "k = i" by simp_all
          with kj j leave(3) show ?thesis by simp
        qed
        show "u \<in> done_nodes g a' \<Longrightarrow> u \<notin> done_nodes g a \<Longrightarrow> j < deg g u \<Longrightarrow>
              (\<exists>i'\<le>j. A_loop u i' \<in> set (a_workers a'))" for u j
          by (simp add: done_nodes_cong[OF v])
        show "a_mpc a = M_seed \<Longrightarrow> a_mpc a' = M_seed \<or> underway a' 0" using m by simp
      qed
    qed
  qed
qed

lemma sum_list_map_update:
  fixes f :: "'a \<Rightarrow> nat"
  shows "w < length xs \<Longrightarrow> sum_list (map f (xs[w := y])) + f (xs ! w) = sum_list (map f xs) + f y"
proof (induction xs arbitrary: w)
  case Nil
  then show ?case by simp
next
  case (Cons x xs)
  then show ?case by (cases w) auto
qed

lemma unvisited_sum_mark:
  assumes "idx < length g" "length (a_visited a) = length g" "a_visited a ! idx = NOT_VISITED"
    "a_visited a' = (a_visited a)[idx := DONE]"
  shows "(\<Sum>v\<in>unvisited g a'. deg g v) + deg g idx = (\<Sum>v\<in>unvisited g a. deg g v)"
proof -
  have "idx \<in> unvisited g a" using assms(1,3) by (simp add: unvisited_def)
  then show ?thesis
    unfolding unvisited_mark[OF assms(1,2,4)] by (simp add: sum.remove)
qed

text \<open>What a step of a worker changes, as equations between the old and the new sizes.\<close>

lemma a_worker_step_sizes:
  assumes "a_worker_step g w a = Some a'" "ainv_reach g a" "ainv_shape g n a" "wf_graph g"
  shows "potential g a' \<le> potential g a \<and> mu g n a' < mu g n a"
proof -
  from assms(3) have lv: "length (a_visited a) = length g" by (simp add: ainv_shape_def)
  from assms(2) have p: "\<forall>p\<in>set (a_workers a). apc_ok g a p"
    by (auto simp: ainv_reach_def)
  from a_worker_step_frame[OF assms(1)] have m: "a_mpc a' = a_mpc a" by blast
  note P = sum_list_map_update[where f = "pot_w g" and xs = "a_workers a" and w = w]
  note M = sum_list_map_update[where f = "mu_w g" and xs = "a_workers a" and w = w]
  from assms(1) show ?thesis
  proof (cases rule: a_worker_step_cases)
    case exit
    have e: "a_visited a' = a_visited a" "a_workers a' = (a_workers a)[w := A_exited]"
      "a_queue a' = a_queue a" by (simp_all add: exit(5) a_set_worker_def)
    from P[OF exit(1), of A_exited] M[OF exit(1), of A_exited] exit(2) show ?thesis
      unfolding potential_def mu_def e m unvisited_cong[OF e(1)] by simp
  next
    case pop
    have e: "a_visited a' = a_visited a"
      "a_workers a' = (a_workers a)[w := A_action (last (a_queue a))]"
      "a_queue a' = butlast (a_queue a)" by (simp_all add: pop(4) a_set_worker_def)
    have l: "length (a_queue a) = Suc (length (butlast (a_queue a)))" using pop(3) by simp
    from P[OF pop(1), of "A_action (last (a_queue a))"]
      M[OF pop(1), of "A_action (last (a_queue a))"] pop(2) l show ?thesis
      unfolding potential_def mu_def e m unvisited_cong[OF e(1)] by simp
  next
    case (visit idx)
    from p nth_mem[OF visit(1)] have "apc_ok g a (a_workers a ! w)" by blast
    then have "idx \<in> reachable g" by (simp add: visit(2))
    then have il: "idx < length g" using assms(4) reachable_lt by blast
    have e: "a_visited a' = (a_visited a)[idx := DONE]"
      "a_workers a' = (a_workers a)[w := A_loop idx 0]"
      "a_queue a' = a_queue a" by (simp_all add: visit(5) a_set_worker_def)
    note U = unvisited_sum_mark[OF il lv visit(4) e(1)]
    from P[OF visit(1), of "A_loop idx 0"] M[OF visit(1), of "A_loop idx 0"] visit(2) U
    show ?thesis
      unfolding potential_def mu_def e(2,3) m by simp
  next
    case (seen idx)
    have e: "a_visited a' = a_visited a" "a_workers a' = (a_workers a)[w := A_dequeue]"
      "a_queue a' = a_queue a" by (simp_all add: seen(5) a_set_worker_def)
    from P[OF seen(1), of A_dequeue] M[OF seen(1), of A_dequeue] seen(2) show ?thesis
      unfolding potential_def mu_def e m unvisited_cong[OF e(1)] by simp
  next
    case (push idx i)
    have e: "a_visited a' = a_visited a"
      "a_workers a' = (a_workers a)[w := A_loop idx (Suc i)]"
      "a_queue a' = a_queue a @ [neighbours (g ! idx) ! i]"
      by (simp_all add: push(5) a_set_worker_def)
    have d: "deg g idx - i = Suc (deg g idx - Suc i)" using push(3) by simp
    from P[OF push(1), of "A_loop idx (Suc i)"] M[OF push(1), of "A_loop idx (Suc i)"]
      push(2) d show ?thesis
      unfolding potential_def mu_def e m unvisited_cong[OF e(1)] by simp
  next
    case (skip idx i)
    have e: "a_visited a' = a_visited a"
      "a_workers a' = (a_workers a)[w := A_loop idx (Suc i)]"
      "a_queue a' = a_queue a"
      by (simp_all add: skip(5) a_set_worker_def)
    have d: "deg g idx - i = Suc (deg g idx - Suc i)" using skip(3) by simp
    from P[OF skip(1), of "A_loop idx (Suc i)"] M[OF skip(1), of "A_loop idx (Suc i)"]
      skip(2) d show ?thesis
      unfolding potential_def mu_def e m unvisited_cong[OF e(1)] by simp
  next
    case (leave idx i)
    have e: "a_visited a' = a_visited a" "a_workers a' = (a_workers a)[w := A_dequeue]"
      "a_queue a' = a_queue a" by (simp_all add: leave(4) a_set_worker_def)
    have d: "deg g idx - i = 0" using leave(3) by simp
    from P[OF leave(1), of A_dequeue] M[OF leave(1), of A_dequeue] leave(2) d show ?thesis
      unfolding potential_def mu_def e m unvisited_cong[OF e(1)] by simp
  qed
qed

lemma a_main_step_sizes:
  assumes "a_main_step g n a = Some a'"
  shows "potential g a' \<le> potential g a \<and> mu g n a' < mu g n a"
proof -
  from a_main_step_frame[OF assms] have v: "a_visited a' = a_visited a"
    and w: "a_workers a' = a_workers a" by blast+
  from assms show ?thesis
  proof (cases rule: a_main_step_cases)
    case seed
    then have e: "a_queue a' = a_queue a @ [0]" "a_mpc a' = M_wait" by simp_all
    show ?thesis unfolding potential_def mu_def e w unvisited_cong[OF v] seed(1) by simp
  next
    case wait
    then have e: "a_queue a' = a_queue a" "a_mpc a' = M_join 0" by simp_all
    show ?thesis unfolding potential_def mu_def e w unvisited_cong[OF v] wait(1) by simp
  next
    case (join i)
    then have e: "a_queue a' = a_queue a" "a_mpc a' = M_join (Suc i)" by simp_all
    show ?thesis unfolding potential_def mu_def e w unvisited_cong[OF v] join(1)
      using join(2) by simp
  next
    case (finish i)
    then have e: "a_queue a' = a_queue a" "a_mpc a' = M_exit" by simp_all
    show ?thesis unfolding potential_def mu_def e w unvisited_cong[OF v] finish(1) by simp
  qed
qed

lemma a_step_sizes:
  assumes "a_step g n th a = Some a'" "ainv_reach g a" "ainv_shape g n a" "wf_graph g"
  shows "potential g a' \<le> potential g a \<and> mu g n a' < mu g n a"
  using assms a_main_step_sizes a_worker_step_sizes
  by (cases th) (simp_all add: a_step_def)

lemma ainv_step:
  assumes "ainv g n a" "wf_graph g" "0 < n" "a_step g n th a = Some a'"
  shows "ainv g n a'"
proof -
  from assms(1) have s: "ainv_shape g n a" and r: "ainv_reach g a" and u: "ainv_sum g a"
    and c: "ainv_closed g a" and l: "ainv_lock n a" and t: "ainv_ctl g n a" and p: "ainv_pot g a"
    by (simp_all add: ainv_def)
  note st = assms(4)
  from a_step_sizes[OF st r s assms(2)] p have "ainv_pot g a'" by (simp add: ainv_pot_def)
  with ainv_shape_step[OF s st] ainv_reach_step[OF r s assms(2) st]
    ainv_sum_step[OF u r s assms(2) st] ainv_closed_step[OF c r s assms(2) st]
    ainv_lock_step[OF l s st] ainv_ctl_step[OF t s assms(3) st]
  show ?thesis by (simp add: ainv_def)
qed

section \<open>The heap of tasks\<close>

lemma pending_mem:
  "t \<in> pending s q \<longleftrightarrow> t \<in> set q \<or> (\<exists>w<length (workers s). held_task (workers s ! w) = Some t)"
  unfolding pending_def by simp

lemma valid_task_frame:
  assumes "valid_task s t" "tasks s' t = tasks s t" "uints s' (arg_of s t) = uints s (arg_of s t)"
  shows "valid_task s' t \<and> idx_of s' t = idx_of s t \<and> arg_of s' t = arg_of s t"
  using assms unfolding valid_task_def idx_of_def arg_of_def by auto

lemma valid_task_lt:
  assumes "valid_task s t" "dom (tasks s) \<subseteq> {..<brk s}" "dom (uints s) \<subseteq> {..<brk s}"
  shows "t < brk s \<and> arg_of s t < brk s"
  using assms unfolding valid_task_def arg_of_def by auto

text \<open>A pending task survives what is done to other addresses.\<close>

lemma cinv_heap_pending_lt:
  assumes "cinv_heap s q" "t \<in> pending s q"
  shows "t < brk s" "arg_of s t < brk s" "valid_task s t"
  using assms valid_task_lt[of s t] unfolding cinv_heap_def by blast+

lemma cinv_heap_same:
  assumes "cinv_heap s q" "tasks s' = tasks s" "uints s' = uints s" "brk s' = brk s"
    "workers s' = workers s"
  shows "cinv_heap s' q"
proof -
  have p: "pending s' q = pending s q" by (simp add: pending_def assms(5))
  have v: "valid_task s' = valid_task s" by (simp add: valid_task_def fun_eq_iff assms(2,3))
  have a: "arg_of s' = arg_of s" by (simp add: arg_of_def fun_eq_iff assms(2))
  from assms(1) show ?thesis unfolding cinv_heap_def p v a assms(2-5) .
qed

lemma abs_state_same:
  assumes "tasks s' = tasks s" "uints s' = uints s" "workers s' = workers s"
  shows "a_queue (abs_state s' q) = a_queue (abs_state s q)"
    "a_workers (abs_state s' q) = a_workers (abs_state s q)"
proof -
  have i: "idx_of s' = idx_of s" by (simp add: idx_of_def fun_eq_iff assms(1,2))
  have "apc_of s' pc = apc_of s pc" for pc by (cases pc) (simp_all add: i)
  then have "apc_of s' = apc_of s" by (simp add: fun_eq_iff)
  with i show "a_queue (abs_state s' q) = a_queue (abs_state s q)"
    "a_workers (abs_state s' q) = a_workers (abs_state s q)"
    by (simp_all add: abs_state_def assms(3))
qed

lemma apc_of_agree:
  "(\<And>t. held_task pc = Some t \<Longrightarrow> idx_of s' t = idx_of s t) \<Longrightarrow> apc_of s' pc = apc_of s pc"
  by (cases pc) simp_all

lemma list_update_map_cong:
  assumes "\<And>k. k < length ws \<Longrightarrow> k \<noteq> w \<Longrightarrow> f (ws ! k) = h (ws ! k)"
  shows "(map f ws)[w := y] = (map h ws)[w := y]"
proof (rule nth_equalityI)
  show "length ((map f ws)[w := y]) = length ((map h ws)[w := y])" by simp
  fix i assume "i < length ((map f ws)[w := y])"
  then have i: "i < length ws" by simp
  then show "(map f ws)[w := y] ! i = (map h ws)[w := y] ! i"
    by (cases "i = w") (simp_all add: assms)
qed

lemma pending_held_same:
  assumes "length (workers s') = length (workers s)"
    "\<And>k. k < length (workers s) \<Longrightarrow> held_task (workers s' ! k) = held_task (workers s ! k)"
  shows "pending s' q = pending s q"
  unfolding pending_def using assms by auto

lemma cinv_heap_repc:
  assumes "cinv_heap s q" "tasks s' = tasks s" "uints s' = uints s" "brk s' = brk s"
    "length (workers s') = length (workers s)"
    "\<And>k. k < length (workers s) \<Longrightarrow> held_task (workers s' ! k) = held_task (workers s ! k)"
  shows "cinv_heap s' q"
proof -
  have p: "pending s' q = pending s q" using assms(5,6) by (rule pending_held_same)
  have v: "valid_task s' = valid_task s" by (simp add: valid_task_def fun_eq_iff assms(2,3))
  have a: "arg_of s' = arg_of s" by (simp add: arg_of_def fun_eq_iff assms(2))
  from assms(1) show ?thesis
    unfolding cinv_heap_def p v a assms(2-5) using assms(6) by simp
qed

lemma cinv_heap_pop:
  assumes "cinv_heap s (xs @ [x])" "x \<notin> set xs" "w < length (workers s)"
    "held_task (workers s ! w) = None"
    "tasks s' = tasks s" "uints s' = uints s" "brk s' = brk s"
    "workers s' = (workers s)[w := W_action x]"
  shows "cinv_heap s' xs"
proof -
  from assms(1) have V: "\<forall>t\<in>pending s (xs @ [x]). valid_task s t"
    and Q: "\<forall>k<length (workers s). \<forall>t. held_task (workers s ! k) = Some t \<longrightarrow> t \<notin> set (xs @ [x])"
    and D: "\<forall>k<length (workers s). \<forall>k'<length (workers s). \<forall>t.
          held_task (workers s ! k) = Some t \<longrightarrow> held_task (workers s ! k') = Some t \<longrightarrow> k = k'"
    and I: "inj_on (arg_of s) (pending s (xs @ [x]))"
    and B: "dom (tasks s) \<subseteq> {..<brk s}" "dom (uints s) \<subseteq> {..<brk s}"
    unfolding cinv_heap_def by blast+
  have h: "held_task (workers s' ! k) = (if k = w then Some x else held_task (workers s ! k))"
    if "k < length (workers s)" for k
    using that by (simp add: assms(8) nth_list_update)
  have len: "length (workers s') = length (workers s)" by (simp add: assms(8))
  have p: "pending s' xs = pending s (xs @ [x])"
  proof (rule set_eqI)
    fix t
    show "t \<in> pending s' xs \<longleftrightarrow> t \<in> pending s (xs @ [x])"
    proof
      assume "t \<in> pending s' xs"
      then consider "t \<in> set xs"
        | k where "k < length (workers s)" "held_task (workers s' ! k) = Some t"
        unfolding pending_mem len by blast
      then show "t \<in> pending s (xs @ [x])"
      proof cases
        case 1
        then show ?thesis by (simp add: pending_mem)
      next
        case (2 k)
        with h[OF 2(1)] show ?thesis
          by (cases "k = w") (auto simp: pending_mem)
      qed
    next
      assume "t \<in> pending s (xs @ [x])"
      then consider "t \<in> set xs" | "t = x"
        | k where "k < length (workers s)" "held_task (workers s ! k) = Some t"
        unfolding pending_mem by auto
      then show "t \<in> pending s' xs"
      proof cases
        case 1
        then show ?thesis by (simp add: pending_mem)
      next
        case 2
        with h[OF assms(3)] assms(3) show ?thesis unfolding pending_mem len by auto
      next
        case (3 k)
        with assms(4) have "k \<noteq> w" by auto
        with h[OF 3(1)] 3 show ?thesis unfolding pending_mem len by auto
      qed
    qed
  qed
  have v: "valid_task s' = valid_task s" by (simp add: valid_task_def fun_eq_iff assms(5,6))
  have a: "arg_of s' = arg_of s" by (simp add: arg_of_def fun_eq_iff assms(5))
  have Q': "\<forall>k<length (workers s'). \<forall>t. held_task (workers s' ! k) = Some t \<longrightarrow> t \<notin> set xs"
    unfolding len using h Q assms(2) by (auto split: if_splits)
  have D': "\<forall>k<length (workers s'). \<forall>k'<length (workers s'). \<forall>t.
          held_task (workers s' ! k) = Some t \<longrightarrow> held_task (workers s' ! k') = Some t \<longrightarrow> k = k'"
    unfolding len
  proof (intro allI impI)
    fix k k' t
    assume k: "k < length (workers s)" "k' < length (workers s)"
      and hk: "held_task (workers s' ! k) = Some t" "held_task (workers s' ! k') = Some t"
    show "k = k'"
    proof (cases "k = w \<or> k' = w")
      case False
      with hk h k D show ?thesis by (metis (no_types, lifting))
    next
      case True
      with hk h k have tx: "t = x" by (auto split: if_splits)
      have "k'' = w" if "k'' < length (workers s)" "held_task (workers s' ! k'') = Some x" for k''
      proof (rule ccontr)
        assume "k'' \<noteq> w"
        with that h have "held_task (workers s ! k'') = Some x" by simp
        with Q that(1) show False by auto
      qed
      with k hk tx show ?thesis by blast
    qed
  qed
  from V I B Q' D' show ?thesis
    unfolding cinv_heap_def p v a assms(5-7) by blast
qed

lemma cinv_heap_push:
  assumes "cinv_heap s q"
    and T: "tasks s' = (tasks s)(Suc (brk s) \<mapsto>
              \<lparr>argument = brk s, action = Process_node, destroy_arg = Some Free_function\<rparr>)"
    and U: "uints s' = (uints s)(brk s \<mapsto> v)"
    and B: "brk s' = Suc (Suc (brk s))"
    and len: "length (workers s') = length (workers s)"
    and held: "\<And>k. k < length (workers s) \<Longrightarrow>
                 held_task (workers s' ! k) = held_task (workers s ! k)"
  shows "cinv_heap s' (q @ [Suc (brk s)])"
    and "\<forall>t\<in>pending s q. idx_of s' t = idx_of s t"
    and "idx_of s' (Suc (brk s)) = v"
proof -
  from assms(1) have V: "\<forall>t\<in>pending s q. valid_task s t"
    and Q: "\<forall>k<length (workers s). \<forall>t. held_task (workers s ! k) = Some t \<longrightarrow> t \<notin> set q"
    and D: "\<forall>k<length (workers s). \<forall>k'<length (workers s). \<forall>t.
          held_task (workers s ! k) = Some t \<longrightarrow> held_task (workers s ! k') = Some t \<longrightarrow> k = k'"
    and I: "inj_on (arg_of s) (pending s q)"
    and Bd: "dom (tasks s) \<subseteq> {..<brk s}" "dom (uints s) \<subseteq> {..<brk s}"
    unfolding cinv_heap_def by blast+
  let ?t = "Suc (brk s)"
  have p0: "pending s' q = pending s q" using len held by (rule pending_held_same)
  have p: "pending s' (q @ [?t]) = insert ?t (pending s q)"
    using p0 unfolding pending_def by auto
  have old: "valid_task s' t \<and> idx_of s' t = idx_of s t \<and> arg_of s' t = arg_of s t \<and>
      t < brk s \<and> arg_of s t < brk s" if "t \<in> pending s q" for t
  proof -
    from cinv_heap_pending_lt[OF assms(1) that] have l: "t < brk s" "arg_of s t < brk s"
      and vt: "valid_task s t" by blast+
    have "tasks s' t = tasks s t" "uints s' (arg_of s t) = uints s (arg_of s t)"
      using l by (simp_all add: T U)
    from valid_task_frame[OF vt this] l show ?thesis by blast
  qed
  have new: "valid_task s' ?t" "idx_of s' ?t = v" "arg_of s' ?t = brk s"
    by (simp_all add: valid_task_def idx_of_def arg_of_def T U)
  show "\<forall>t\<in>pending s q. idx_of s' t = idx_of s t" using old by blast
  show "idx_of s' ?t = v" by (rule new)
  have V': "\<forall>t\<in>pending s' (q @ [?t]). valid_task s' t"
    unfolding p using old new(1) by blast
  have Q': "\<forall>k<length (workers s'). \<forall>t. held_task (workers s' ! k) = Some t \<longrightarrow>
      t \<notin> set (q @ [?t])"
  proof (intro allI impI)
    fix k t assume k: "k < length (workers s')" and h: "held_task (workers s' ! k) = Some t"
    from k h len held have h0: "held_task (workers s ! k) = Some t" "k < length (workers s)"
      by simp_all
    then have "t \<in> pending s q" unfolding pending_mem by blast
    from old[OF this] have "t \<noteq> ?t" by simp
    with Q h0 show "t \<notin> set (q @ [?t])" by simp
  qed
  have D': "\<forall>k<length (workers s'). \<forall>k'<length (workers s'). \<forall>t.
          held_task (workers s' ! k) = Some t \<longrightarrow> held_task (workers s' ! k') = Some t \<longrightarrow> k = k'"
    using D held unfolding len by simp
  have I': "inj_on (arg_of s') (pending s' (q @ [?t]))"
    unfolding p
  proof (rule inj_onI)
    fix x y assume x: "x \<in> insert ?t (pending s q)" and y: "y \<in> insert ?t (pending s q)"
      and e: "arg_of s' x = arg_of s' y"
    show "x = y"
    proof (cases "x = ?t"; cases "y = ?t")
      assume "x \<noteq> ?t" "y \<noteq> ?t"
      with x y have xy: "x \<in> pending s q" "y \<in> pending s q" by simp_all
      with old e have "arg_of s x = arg_of s y" by simp
      with I xy show ?thesis by (simp add: inj_on_def)
    next
      assume a: "x = ?t" "y \<noteq> ?t"
      with y have "y \<in> pending s q" by simp
      from old[OF this] e a new(3) show ?thesis by simp
    next
      assume a: "x \<noteq> ?t" "y = ?t"
      with x have "x \<in> pending s q" by simp
      from old[OF this] e a new(3) show ?thesis by simp
    qed simp
  qed
  have Bd': "dom (tasks s') \<subseteq> {..<brk s'}" "dom (uints s') \<subseteq> {..<brk s'}"
    using Bd unfolding T U B by auto
  from V' Q' D' I' Bd' show "cinv_heap s' (q @ [?t])" unfolding cinv_heap_def by blast
qed

lemma cinv_heap_drop:
  assumes "cinv_heap s q" "w < length (workers s)" "held_task (workers s ! w) = Some t0"
    and T: "tasks s' = (tasks s)(t0 := None)"
    and U: "uints s' = (uints s)(arg_of s t0 := None)"
    and B: "brk s' = brk s"
    and W: "workers s' = (workers s)[w := pc']" "held_task pc' = None"
  shows "cinv_heap s' q"
    and "\<forall>t\<in>pending s' q. idx_of s' t = idx_of s t"
    and "pending s' q = pending s q - {t0}"
proof -
  from assms(1) have V: "\<forall>t\<in>pending s q. valid_task s t"
    and Q: "\<forall>k<length (workers s). \<forall>t. held_task (workers s ! k) = Some t \<longrightarrow> t \<notin> set q"
    and D: "\<forall>k<length (workers s). \<forall>k'<length (workers s). \<forall>t.
          held_task (workers s ! k) = Some t \<longrightarrow> held_task (workers s ! k') = Some t \<longrightarrow> k = k'"
    and I: "inj_on (arg_of s) (pending s q)"
    and Bd: "dom (tasks s) \<subseteq> {..<brk s}" "dom (uints s) \<subseteq> {..<brk s}"
    unfolding cinv_heap_def by blast+
  have len: "length (workers s') = length (workers s)" by (simp add: W)
  have h: "held_task (workers s' ! k) = (if k = w then None else held_task (workers s ! k))"
    if "k < length (workers s)" for k
    using that by (simp add: W nth_list_update)
  have t0p: "t0 \<in> pending s q" unfolding pending_mem using assms(2,3) by blast
  have t0q: "t0 \<notin> set q" using Q assms(2,3) by blast
  have p: "pending s' q = pending s q - {t0}"
  proof (rule set_eqI)
    fix t
    show "t \<in> pending s' q \<longleftrightarrow> t \<in> pending s q - {t0}"
    proof
      assume "t \<in> pending s' q"
      then consider "t \<in> set q"
        | k where "k < length (workers s)" "held_task (workers s' ! k) = Some t"
        unfolding pending_mem len by blast
      then show "t \<in> pending s q - {t0}"
      proof cases
        case 1
        with t0q show ?thesis by (auto simp: pending_mem)
      next
        case (2 k)
        with h[OF 2(1)] have kw: "k \<noteq> w" and hk: "held_task (workers s ! k) = Some t"
          by (auto split: if_splits)
        have "t \<noteq> t0" using D 2(1) assms(2,3) hk kw by blast
        with hk 2(1) show ?thesis by (auto simp: pending_mem)
      qed
    next
      assume a: "t \<in> pending s q - {t0}"
      then have "t \<in> pending s q" by simp
      then consider "t \<in> set q"
        | k where "k < length (workers s)" "held_task (workers s ! k) = Some t"
        unfolding pending_mem by blast
      then show "t \<in> pending s' q"
      proof cases
        case 1
        then show ?thesis by (simp add: pending_mem)
      next
        case (2 k)
        with a assms(3) have "k \<noteq> w" by auto
        with h[OF 2(1)] 2 show ?thesis unfolding pending_mem len by auto
      qed
    qed
  qed
  show "pending s' q = pending s q - {t0}" by (rule p)
  have old: "valid_task s' t \<and> idx_of s' t = idx_of s t \<and> arg_of s' t = arg_of s t"
    if "t \<in> pending s q" "t \<noteq> t0" for t
  proof -
    from V that have vt: "valid_task s t" by blast
    from I that t0p have "arg_of s t \<noteq> arg_of s t0" by (auto simp: inj_on_def)
    then have "tasks s' t = tasks s t" "uints s' (arg_of s t) = uints s (arg_of s t)"
      using that(2) by (simp_all add: T U)
    from valid_task_frame[OF vt this] show ?thesis .
  qed
  show "\<forall>t\<in>pending s' q. idx_of s' t = idx_of s t" unfolding p using old by blast
  have V': "\<forall>t\<in>pending s' q. valid_task s' t" unfolding p using old by blast
  have Q': "\<forall>k<length (workers s'). \<forall>t. held_task (workers s' ! k) = Some t \<longrightarrow> t \<notin> set q"
    unfolding len using h Q by (auto split: if_splits)
  have D': "\<forall>k<length (workers s'). \<forall>k'<length (workers s'). \<forall>t.
          held_task (workers s' ! k) = Some t \<longrightarrow> held_task (workers s' ! k') = Some t \<longrightarrow> k = k'"
    unfolding len
  proof (intro allI impI)
    fix k k' t
    assume k: "k < length (workers s)" "k' < length (workers s)"
      and hk: "held_task (workers s' ! k) = Some t" "held_task (workers s' ! k') = Some t"
    from h[OF k(1)] h[OF k(2)] hk have "held_task (workers s ! k) = Some t"
      "held_task (workers s ! k') = Some t" by (auto split: if_splits)
    with D k show "k = k'" by blast
  qed
  have I': "inj_on (arg_of s') (pending s' q)"
    unfolding p
  proof (rule inj_onI)
    fix x y assume x: "x \<in> pending s q - {t0}" and y: "y \<in> pending s q - {t0}"
      and e: "arg_of s' x = arg_of s' y"
    with old have "arg_of s x = arg_of s y" by simp
    with I x y show "x = y" by (simp add: inj_on_def)
  qed
  have Bd': "dom (tasks s') \<subseteq> {..<brk s'}" "dom (uints s') \<subseteq> {..<brk s'}"
    using Bd unfolding T U B by auto
  from V' Q' D' I' Bd' show "cinv_heap s' q" unfolding cinv_heap_def by blast
qed

lemma abs_state_eqI:
  assumes "a_queue a' = map (idx_of s') q'" "a_workers a' = map (apc_of s') (workers s')"
    "a_visited a' = visited s'" "a_sum a' = sum_total s'" "a_finished a' = finished s'"
    "a_mpc a' = mpc s'"
  shows "abs_state s' q' = a'"
  using assms by (cases a') (simp add: abs_state_def)

lemma is_loop_apc_of [simp]: "is_loop (apc_of s pc) = in_loop pc"
  by (cases pc) simp_all

lemma a_workers_update:
  assumes "w < length (workers s)" "workers s' = (workers s)[w := pc']"
    "\<And>k t. k < length (workers s) \<Longrightarrow> k \<noteq> w \<Longrightarrow> held_task (workers s ! k) = Some t \<Longrightarrow>
       idx_of s' t = idx_of s t"
  shows "map (apc_of s') (workers s') = (map (apc_of s) (workers s))[w := apc_of s' pc']"
proof -
  have "apc_of s' (workers s ! k) = apc_of s (workers s ! k)"
    if k: "k < length (workers s)" "k \<noteq> w" for k
    by (rule apc_of_agree) (rule assms(3)[OF k])
  then have "(map (apc_of s') (workers s))[w := apc_of s' pc']
      = (map (apc_of s) (workers s))[w := apc_of s' pc']"
    by (rule list_update_map_cong)
  then show ?thesis by (simp add: assms(2) map_update)
qed

lemma a_workers_same:
  assumes "workers s' = workers s" "\<forall>t\<in>pending s' q'. idx_of s' t = idx_of s t"
  shows "map (apc_of s') (workers s') = map (apc_of s) (workers s)"
proof -
  have "apc_of s' (workers s ! k) = apc_of s (workers s ! k)" if k: "k < length (workers s)" for k
  proof (rule apc_of_agree)
    fix t assume "held_task (workers s ! k) = Some t"
    with k have "t \<in> pending s' q'" unfolding pending_mem assms(1) by blast
    with assms(2) show "idx_of s' t = idx_of s t" by blast
  qed
  then show ?thesis unfolding assms(1) by (intro nth_equalityI) simp_all
qed

lemma a_queue_same:
  assumes "\<forall>t\<in>pending s' q'. idx_of s' t = idx_of s t"
  shows "map (idx_of s') q' = map (idx_of s) q'"
  using assms unfolding pending_def by simp

lemma a_locked_abs:
  assumes "cinv_mutex s"
  shows "a_locked (abs_state s q) \<longleftrightarrow> mutex s Mutex_graph \<noteq> None"
proof
  assume "a_locked (abs_state s q)"
  then obtain pc where "pc \<in> set (workers s)" "in_loop pc"
    by (auto simp: a_locked_def abs_state_def)
  then obtain w where "w < length (workers s)" "in_loop (workers s ! w)"
    by (auto simp: in_set_conv_nth)
  with assms show "mutex s Mutex_graph \<noteq> None" by (auto simp: cinv_mutex_def)
next
  assume "mutex s Mutex_graph \<noteq> None"
  with assms obtain w where w: "w < length (workers s)" "mutex s Mutex_graph = Some (Worker w)"
    by (auto simp: cinv_mutex_def)
  with assms have "in_loop (workers s ! w)" by (auto simp: cinv_mutex_def)
  with w(1) show "a_locked (abs_state s q)"
    by (auto simp: a_locked_def abs_state_def intro!: bexI[of _ "workers s ! w"])
qed

lemma cinv_mutex_repc:
  assumes "cinv_mutex s" "w < length (workers s)" "workers s' = (workers s)[w := pc']"
    "mutex s' Mutex_graph = mutex s Mutex_graph" "in_loop pc' = in_loop (workers s ! w)"
  shows "cinv_mutex s'"
  using assms unfolding cinv_mutex_def by (auto simp: nth_list_update)

lemma cinv_mutex_same:
  assumes "cinv_mutex s" "workers s' = workers s" "mutex s' Mutex_graph = mutex s Mutex_graph"
  shows "cinv_mutex s'"
  using assms unfolding cinv_mutex_def by simp

lemma cinv_mutex_lock:
  assumes "cinv_mutex s" "w < length (workers s)" "workers s' = (workers s)[w := pc']"
    "mutex s Mutex_graph = None" "mutex s' Mutex_graph = Some (Worker w)" "in_loop pc'"
  shows "cinv_mutex s'"
  using assms unfolding cinv_mutex_def by (auto simp: nth_list_update)

lemma cinv_mutex_unlock:
  assumes "cinv_mutex s" "w < length (workers s)" "workers s' = (workers s)[w := pc']"
    "in_loop (workers s ! w)" "mutex s' Mutex_graph = None" "\<not> in_loop pc'"
  shows "cinv_mutex s'"
  using assms unfolding cinv_mutex_def by (auto simp: nth_list_update)

lemma cinv_mutex_owner:
  "cinv_mutex s \<Longrightarrow> w < length (workers s) \<Longrightarrow> in_loop (workers s ! w) \<Longrightarrow>
   mutex s Mutex_graph = Some (Worker w)"
  unfolding cinv_mutex_def by blast

lemma queue_inv_frame:
  "lnext s' = lnext s \<Longrightarrow> lprev s' = lprev s \<Longrightarrow> num_tasks s' = num_tasks s \<Longrightarrow>
   queue_inv s' q = queue_inv s q"
  by (simp add: queue_inv_def linked_def)

lemma queue_inv_push:
  assumes "queue_inv s q" "t \<notin> set q" "length q < 2 ^ 32 - 1"
    "lnext s' = (lnext s)(lprev s Head := Task_node t, Task_node t := Head)"
    "lprev s' = (lprev s)(Task_node t := lprev s Head, Head := Task_node t)"
    "num_tasks s' = num_tasks s + 1"
  shows "queue_inv s' (q @ [t])"
proof -
  from assms(1) have l: "linked s q" and n: "unat (num_tasks s) = length q"
    by (auto simp: queue_inv_def)
  have "linked s' (q @ [t])" by (rule linked_push[OF l assms(2,4,5)])
  moreover have "unat (num_tasks s + 1) = unat (num_tasks s) + 1"
    using n assms(3) by (subst unat_add_lem[THEN iffD1]) simp_all
  ultimately show ?thesis using n by (simp add: queue_inv_def assms(6))
qed

lemma queue_inv_pop:
  assumes "queue_inv s (xs @ [x])"
  shows "lprev s Head = Task_node x" "num_tasks s \<noteq> 0" "\<not> queue_is_empty s" "x \<notin> set xs"
    and "lnext s' = (lnext s)(lprev s (Task_node x) := lnext s (Task_node x)) \<Longrightarrow>
         lprev s' = (lprev s)(lnext s (Task_node x) := lprev s (Task_node x)) \<Longrightarrow>
         num_tasks s' = num_tasks s - 1 \<Longrightarrow> queue_inv s' xs"
proof -
  from assms have l: "linked s (xs @ [x])" and n: "unat (num_tasks s) = Suc (length xs)"
    by (auto simp: queue_inv_def)
  note P = linked_pop[OF l]
  show "lprev s Head = Task_node x" by (rule P(1))
  show nz: "num_tasks s \<noteq> 0" using n by (auto simp flip: unat_0_iff)
  show "\<not> queue_is_empty s" using linked_empty_iff[OF l] by simp
  show "x \<notin> set xs" using l by (simp add: linked_def)
  assume a: "lnext s' = (lnext s)(lprev s (Task_node x) := lnext s (Task_node x))"
    "lprev s' = (lprev s)(lnext s (Task_node x) := lprev s (Task_node x))"
    "num_tasks s' = num_tasks s - 1"
  have "linked s' xs" by (rule P(4)) (simp_all add: a P(2))
  moreover have "unat (num_tasks s - 1) = length xs"
    using n nz by (simp add: unat_minus_one)
  ultimately show "queue_inv s' xs" by (simp add: queue_inv_def a(3))
qed

lemma queue_inv_empty:
  assumes "queue_inv s []"
  shows "num_tasks s = 0" "queue_is_empty s" "lnext s Head = Head"
  using assms by (simp_all add: queue_inv_def linked_def unat_0_iff queue_is_empty_def list_empty_def)

section \<open>Every step of the program is a step of the abstraction\<close>

lemma cinv_D:
  assumes "cinv g n s q"
  shows "calls_ok s" "nodes s = g" "num_threads s = n" "length (workers s) = n"
    "threads s = map Some [0..<n]" "mutex s Mutex_queue = None"
    "queue_inv s q" "cinv_mutex s" "cinv_heap s q"
  using assms by (simp_all add: cinv_def cinv_env_def)

lemma cinv_I:
  assumes "calls_ok s" "nodes s = g" "num_threads s = n" "length (workers s) = n"
    "threads s = map Some [0..<n]" "mutex s Mutex_queue = None"
    "queue_inv s q" "cinv_mutex s" "cinv_heap s q"
  shows "cinv g n s q"
  using assms by (simp add: cinv_def cinv_env_def)

lemma abs_worker_nth:
  "w < length (workers s) \<Longrightarrow> a_workers (abs_state s q) ! w = apc_of s (workers s ! w)"
  by (simp add: abs_state_def)

lemma held_update:
  "k < length ws \<Longrightarrow> held_task pc' = held_task (ws ! w) \<Longrightarrow>
   held_task (ws[w := pc'] ! k) = held_task (ws ! k)"
  by (cases "k = w") simp_all

lemma sim_exit:
  assumes C: "cinv g n s q" and w: "w < length (workers s)" and pc: "workers s ! w = W_dequeue"
    and q: "q = []" and f: "finished s"
  shows "\<exists>s' q'. worker_step w s = Inr s' \<and> cinv g n s' q' \<and>
           abs_state s' q' = a_set_worker w A_exited (abs_state s q)"
proof -
  note D = cinv_D[OF C]
  define s' where "s' = set_worker w W_exited
     (s\<lparr>lock_log := lock_log s @ [(Worker w, Acquire Mutex_queue), (Worker w, Release Mutex_queue)],
        clock := clock s + 2\<rparr>)"
  from D(7) q have e: "num_tasks s = 0" "queue_is_empty s" by (simp_all add: queue_inv_empty)
  have d: "dequeue_task (Worker w) s = Inr (None,
      s\<lparr>lock_log := lock_log s @ [(Worker w, Acquire Mutex_queue), (Worker w, Release Mutex_queue)],
        clock := clock s + 2\<rparr>)"
    by (rule dequeue_task_null[OF D(1,6) _ e(1)]) (simp add: f)
  have st: "worker_step w s = Inr s'"
    by (simp add: worker_step_def w pc d then_r_def s'_def)
  have ws: "workers s' = (workers s)[w := W_exited]"
    and heap: "tasks s' = tasks s" "uints s' = uints s" "brk s' = brk s"
    and ql: "lnext s' = lnext s" "lprev s' = lprev s" "num_tasks s' = num_tasks s"
    and mu: "mutex s' = mutex s"
    and env: "rcs s' = rcs s" "nodes s' = nodes s" "num_threads s' = num_threads s"
      "threads s' = threads s"
    and gr: "visited s' = visited s" "sum_total s' = sum_total s" "finished s' = finished s"
      "mpc s' = mpc s"
    by (simp_all add: s'_def set_worker_def)
  have hp: "cinv_heap s' q"
    by (rule cinv_heap_repc[OF D(9) heap]) (simp_all add: ws held_update pc)
  have mx: "cinv_mutex s'"
    by (rule cinv_mutex_repc[OF D(8) w ws]) (simp_all add: mu pc)
  have qi: "queue_inv s' q"
    using D(7) by (simp add: queue_inv_frame[OF ql])
  have c: "cinv g n s' q"
    by (rule cinv_I[OF _ _ _ _ _ _ qi mx hp])
       (use D in \<open>simp_all add: ws mu env calls_ok_def\<close>)
  have ag: "\<forall>t\<in>pending s' q. idx_of s' t = idx_of s t"
    by (simp add: idx_of_def heap)
  have ag': "idx_of s' t = idx_of s t" for t by (simp add: idx_of_def heap)
  have a: "abs_state s' q = a_set_worker w A_exited (abs_state s q)"
  proof (rule abs_state_eqI)
    show "a_workers (a_set_worker w A_exited (abs_state s q)) = map (apc_of s') (workers s')"
      unfolding a_workers_update[OF w ws ag'] by (simp add: a_set_worker_def abs_state_def)
    show "a_queue (a_set_worker w A_exited (abs_state s q)) = map (idx_of s') q"
      unfolding a_queue_same[OF ag] by (simp add: a_set_worker_def abs_state_def)
  qed (simp_all add: a_set_worker_def abs_state_def gr)
  from st c a show ?thesis by blast
qed

lemma sim_pop:
  assumes C: "cinv g n s q" and w: "w < length (workers s)" and pc: "workers s ! w = W_dequeue"
    and q: "q = xs @ [x]"
  shows "\<exists>s' q'. worker_step w s = Inr s' \<and> cinv g n s' q' \<and>
           abs_state s' q' = a_set_worker w (A_action (last (a_queue (abs_state s q))))
              ((abs_state s q)\<lparr>a_queue := butlast (a_queue (abs_state s q))\<rparr>)"
proof -
  note D = cinv_D[OF C]
  note P = queue_inv_pop[OF D(7)[unfolded q]]
  define s' where "s' = set_worker w (W_action x)
     (s\<lparr>num_tasks := num_tasks s - 1,
        lnext := (lnext s)(lprev s (Task_node x) := lnext s (Task_node x)),
        lprev := (lprev s)(lnext s (Task_node x) := lprev s (Task_node x)),
        lock_log := lock_log s @ [(Worker w, Acquire Mutex_queue), (Worker w, Release Mutex_queue)],
        clock := clock s + 2\<rparr>)"
  have d: "dequeue_task (Worker w) s = Inr (Some x,
      s\<lparr>num_tasks := num_tasks s - 1,
        lnext := (lnext s)(lprev s (Task_node x) := lnext s (Task_node x)),
        lprev := (lprev s)(lnext s (Task_node x) := lprev s (Task_node x)),
        lock_log := lock_log s @ [(Worker w, Acquire Mutex_queue), (Worker w, Release Mutex_queue)],
        clock := clock s + 2\<rparr>)"
    by (rule dequeue_task_some[OF D(1,6) _ P(2) P(1)]) (simp add: P(3))
  have st: "worker_step w s = Inr s'"
    by (simp add: worker_step_def w pc d then_r_def s'_def)
  have ws: "workers s' = (workers s)[w := W_action x]"
    and heap: "tasks s' = tasks s" "uints s' = uints s" "brk s' = brk s"
    and ql: "lnext s' = (lnext s)(lprev s (Task_node x) := lnext s (Task_node x))"
      "lprev s' = (lprev s)(lnext s (Task_node x) := lprev s (Task_node x))"
      "num_tasks s' = num_tasks s - 1"
    and mu: "mutex s' = mutex s"
    and env: "rcs s' = rcs s" "nodes s' = nodes s" "num_threads s' = num_threads s"
      "threads s' = threads s"
    and gr: "visited s' = visited s" "sum_total s' = sum_total s" "finished s' = finished s"
      "mpc s' = mpc s"
    by (simp_all add: s'_def set_worker_def)
  have hp: "cinv_heap s' xs"
    by (rule cinv_heap_pop[OF D(9)[unfolded q] P(4) w _ heap ws]) (simp add: pc)
  have mx: "cinv_mutex s'"
    by (rule cinv_mutex_repc[OF D(8) w ws]) (simp_all add: mu pc)
  have qi: "queue_inv s' xs" by (rule P(5)[OF ql])
  have c: "cinv g n s' xs"
    by (rule cinv_I[OF _ _ _ _ _ _ qi mx hp])
       (use D in \<open>simp_all add: ws mu env calls_ok_def\<close>)
  have ag': "idx_of s' t = idx_of s t" for t by (simp add: idx_of_def heap)
  have a: "abs_state s' xs = a_set_worker w (A_action (last (a_queue (abs_state s q))))
              ((abs_state s q)\<lparr>a_queue := butlast (a_queue (abs_state s q))\<rparr>)"
  proof (rule abs_state_eqI)
    show "a_workers (a_set_worker w (A_action (last (a_queue (abs_state s q))))
              ((abs_state s q)\<lparr>a_queue := butlast (a_queue (abs_state s q))\<rparr>))
        = map (apc_of s') (workers s')"
      unfolding a_workers_update[OF w ws ag']
      by (simp add: a_set_worker_def abs_state_def q ag')
    show "a_queue (a_set_worker w (A_action (last (a_queue (abs_state s q))))
              ((abs_state s q)\<lparr>a_queue := butlast (a_queue (abs_state s q))\<rparr>))
        = map (idx_of s') xs"
      by (simp add: a_set_worker_def abs_state_def q ag')
  qed (simp_all add: a_set_worker_def abs_state_def gr)
  from st c a show ?thesis by blast
qed

lemma held_valid:
  assumes "cinv_heap s q" "w < length (workers s)" "held_task (workers s ! w) = Some t"
  shows "\<exists>a. tasks s t = Some \<lparr>argument = a, action = Process_node,
             destroy_arg = Some Free_function\<rparr> \<and> uints s a = Some (idx_of s t) \<and> arg_of s t = a"
proof -
  from assms(2,3) have "t \<in> pending s q" unfolding pending_mem by blast
  with assms(1) have "valid_task s t" unfolding cinv_heap_def by blast
  then show ?thesis unfolding valid_task_def idx_of_def arg_of_def by auto
qed

lemma sim_visit:
  assumes C: "cinv g n s q" and w: "w < length (workers s)" and pc: "workers s ! w = W_action t"
    and free: "mutex s Mutex_graph = None"
    and il: "idx_of s t < length g" and lv: "length (visited s) = length g"
    and nv: "visited s ! idx_of s t = NOT_VISITED"
  shows "\<exists>s' q'. worker_step w s = Inr s' \<and> cinv g n s' q' \<and>
           abs_state s' q' = a_set_worker w (A_loop (idx_of s t) 0)
              ((abs_state s q)\<lparr>a_visited := (a_visited (abs_state s q))[idx_of s t := DONE],
                 a_sum := a_sum (abs_state s q) + info (g ! idx_of s t)\<rparr>)"
proof -
  note D = cinv_D[OF C]
  from held_valid[OF D(9) w] pc obtain a where
    tk: "tasks s t = Some \<lparr>argument = a, action = Process_node, destroy_arg = Some Free_function\<rparr>"
    and ua: "uints s a = Some (idx_of s t)" by auto
  define idx where "idx = idx_of s t"
  define s' where "s' = set_worker w (W_loop t idx 0)
     (s\<lparr>sum_total := sum_total s + info (nodes s ! idx),
        visited := (visited s)[idx := DONE],
        mutex := (mutex s)(Mutex_graph := Some (Worker w)),
        lock_log := lock_log s @ [(Worker w, Acquire Mutex_graph)],
        clock := Suc (clock s)\<rparr>)"
  have v: "process_node_visit (Worker w) a s = Inr ((idx, True),
      s\<lparr>sum_total := sum_total s + info (nodes s ! idx),
        visited := (visited s)[idx := DONE],
        mutex := (mutex s)(Mutex_graph := Some (Worker w)),
        lock_log := lock_log s @ [(Worker w, Acquire Mutex_graph)],
        clock := Suc (clock s)\<rparr>)"
    by (rule process_node_visit_fresh[OF D(1) _ free])
       (use ua il lv nv D(2) in \<open>simp_all add: idx_def\<close>)
  have st: "worker_step w s = Inr s'"
    by (simp add: worker_step_def w pc tk v then_r_def s'_def)
  have ws: "workers s' = (workers s)[w := W_loop t idx 0]"
    and heap: "tasks s' = tasks s" "uints s' = uints s" "brk s' = brk s"
    and ql: "lnext s' = lnext s" "lprev s' = lprev s" "num_tasks s' = num_tasks s"
    and mu: "mutex s' = (mutex s)(Mutex_graph := Some (Worker w))"
    and env: "rcs s' = rcs s" "nodes s' = nodes s" "num_threads s' = num_threads s"
      "threads s' = threads s"
    and gr: "visited s' = (visited s)[idx := DONE]"
      "sum_total s' = sum_total s + info (nodes s ! idx)" "finished s' = finished s"
      "mpc s' = mpc s"
    by (simp_all add: s'_def set_worker_def)
  have hp: "cinv_heap s' q"
    by (rule cinv_heap_repc[OF D(9) heap]) (simp_all add: ws held_update pc)
  have mx: "cinv_mutex s'"
    by (rule cinv_mutex_lock[OF D(8) w ws free]) (simp_all add: mu)
  have qi: "queue_inv s' q" using D(7) by (simp add: queue_inv_frame[OF ql])
  have c: "cinv g n s' q"
    by (rule cinv_I[OF _ _ _ _ _ _ qi mx hp])
       (use D in \<open>simp_all add: ws mu env calls_ok_def\<close>)
  have ag': "idx_of s' t = idx_of s t" for t by (simp add: idx_of_def heap)
  have a: "abs_state s' q = a_set_worker w (A_loop idx 0)
              ((abs_state s q)\<lparr>a_visited := (a_visited (abs_state s q))[idx := DONE],
                 a_sum := a_sum (abs_state s q) + info (g ! idx)\<rparr>)"
  proof (rule abs_state_eqI)
    show "a_workers (a_set_worker w (A_loop idx 0)
              ((abs_state s q)\<lparr>a_visited := (a_visited (abs_state s q))[idx := DONE],
                 a_sum := a_sum (abs_state s q) + info (g ! idx)\<rparr>))
        = map (apc_of s') (workers s')"
      unfolding a_workers_update[OF w ws ag']
      by (simp add: a_set_worker_def abs_state_def)
    show "a_queue (a_set_worker w (A_loop idx 0)
              ((abs_state s q)\<lparr>a_visited := (a_visited (abs_state s q))[idx := DONE],
                 a_sum := a_sum (abs_state s q) + info (g ! idx)\<rparr>))
        = map (idx_of s') q"
      by (simp add: a_set_worker_def abs_state_def ag')
  qed (simp_all add: a_set_worker_def abs_state_def gr D(2))
  from st c a show ?thesis unfolding idx_def by blast
qed

lemma sim_seen:
  assumes C: "cinv g n s q" and w: "w < length (workers s)" and pc: "workers s ! w = W_action t"
    and free: "mutex s Mutex_graph = None"
    and il: "idx_of s t < length g" and lv: "length (visited s) = length g"
    and nv: "visited s ! idx_of s t \<noteq> NOT_VISITED"
  shows "\<exists>s' q'. worker_step w s = Inr s' \<and> cinv g n s' q' \<and>
           abs_state s' q' = a_set_worker w A_dequeue (abs_state s q)"
proof -
  note D = cinv_D[OF C]
  have ht: "held_task (workers s ! w) = Some t" by (simp add: pc)
  from held_valid[OF D(9) w ht] obtain a where
    tk: "tasks s t = Some \<lparr>argument = a, action = Process_node, destroy_arg = Some Free_function\<rparr>"
    and ua: "uints s a = Some (idx_of s t)" and ar: "arg_of s t = a" by auto
  define idx where "idx = idx_of s t"
  define s1 where "s1 = s\<lparr>mutex := (mutex s)(Mutex_graph := Some (Worker w)),
        lock_log := lock_log s @ [(Worker w, Acquire Mutex_graph)],
        clock := Suc (clock s)\<rparr>"
  define s2 where "s2 = s1\<lparr>mutex := (mutex s1)(Mutex_graph := None),
            lock_log := lock_log s1 @ [(Worker w, Release Mutex_graph)],
            clock := Suc (clock s1)\<rparr>"
  define s3 where "s3 = s2\<lparr>tasks := (tasks s2)(t := None), uints := (uints s2)(a := None)\<rparr>"
  define s' where "s' = set_worker w W_dequeue s3"
  have v: "process_node_visit (Worker w) a s = Inr ((idx, False), s1)"
    unfolding s1_def
    by (rule process_node_visit_done[OF D(1) _ free])
       (use ua il lv nv in \<open>simp_all add: idx_def\<close>)
  have ok1: "calls_ok s1" "mutex s1 Mutex_graph = Some (Worker w)"
    using D(1) by (simp_all add: s1_def calls_ok_def)
  have u: "process_node_unlock (Worker w) s1 = Inr s2"
    unfolding s2_def by (rule process_node_unlock_ok[OF ok1])
  have tk2: "tasks s2 t = Some \<lparr>argument = a, action = Process_node,
      destroy_arg = Some Free_function\<rparr>" "uints s2 a = Some (idx_of s t)"
    using tk ua by (simp_all add: s2_def s1_def)
  have dt: "destroy_task t s2 = Inr s3"
    unfolding s3_def by (rule destroy_task_ok[OF tk2])
  have st: "worker_step w s = Inr s'"
    by (simp add: worker_step_def w pc tk v u dt then_r_def s'_def)
  have ws: "workers s' = (workers s)[w := W_dequeue]"
    and heap: "tasks s' = (tasks s)(t := None)" "uints s' = (uints s)(arg_of s t := None)"
      "brk s' = brk s"
    and ql: "lnext s' = lnext s" "lprev s' = lprev s" "num_tasks s' = num_tasks s"
    and mu: "mutex s' Mutex_graph = None" "mutex s' Mutex_queue = mutex s Mutex_queue"
    and env: "rcs s' = rcs s" "nodes s' = nodes s" "num_threads s' = num_threads s"
      "threads s' = threads s"
    and gr: "visited s' = visited s" "sum_total s' = sum_total s" "finished s' = finished s"
      "mpc s' = mpc s"
    by (simp_all add: s'_def s3_def s2_def s1_def set_worker_def ar)
  note H = cinv_heap_drop[OF D(9) w ht heap ws]
  have hp: "cinv_heap s' q" by (rule H(1)) simp
  have agp: "\<forall>t\<in>pending s' q. idx_of s' t = idx_of s t" by (rule H(2)) simp
  have mx: "cinv_mutex s'"
    by (rule cinv_mutex_repc[OF D(8) w ws]) (simp_all add: mu pc free)
  have qi: "queue_inv s' q" using D(7) by (simp add: queue_inv_frame[OF ql])
  have c: "cinv g n s' q"
    by (rule cinv_I[OF _ _ _ _ _ _ qi mx hp])
       (use D in \<open>simp_all add: ws mu env calls_ok_def\<close>)
  have ag': "idx_of s' t' = idx_of s t'"
    if k: "k < length (workers s)" "k \<noteq> w" "held_task (workers s ! k) = Some t'" for k t'
  proof -
    from k have "held_task (workers s' ! k) = Some t'" "k < length (workers s')"
      by (simp_all add: ws)
    then have "t' \<in> pending s' q" unfolding pending_mem by blast
    with agp show ?thesis by blast
  qed
  have aw: "map (apc_of s') (workers s') = (map (apc_of s) (workers s))[w := apc_of s' W_dequeue]"
    by (rule a_workers_update[OF w ws]) (rule ag')
  have a: "abs_state s' q = a_set_worker w A_dequeue (abs_state s q)"
  proof (rule abs_state_eqI)
    show "a_workers (a_set_worker w A_dequeue (abs_state s q)) = map (apc_of s') (workers s')"
      unfolding aw
      by (simp add: a_set_worker_def abs_state_def)
    show "a_queue (a_set_worker w A_dequeue (abs_state s q)) = map (idx_of s') q"
      unfolding a_queue_same[OF agp] by (simp add: a_set_worker_def abs_state_def)
  qed (simp_all add: a_set_worker_def abs_state_def gr)
  from st c a show ?thesis by blast
qed

lemma sim_leave:
  assumes C: "cinv g n s q" and w: "w < length (workers s)"
    and pc: "workers s ! w = W_loop t idx i"
    and ni: "\<not> i < length (neighbours (g ! idx))"
  shows "\<exists>s' q'. worker_step w s = Inr s' \<and> cinv g n s' q' \<and>
           abs_state s' q' = a_set_worker w A_dequeue (abs_state s q)"
proof -
  note D = cinv_D[OF C]
  have ht: "held_task (workers s ! w) = Some t" by (simp add: pc)
  from held_valid[OF D(9) w ht] obtain a where
    tk: "tasks s t = Some \<lparr>argument = a, action = Process_node, destroy_arg = Some Free_function\<rparr>"
    and ua: "uints s a = Some (idx_of s t)" and ar: "arg_of s t = a" by auto
  have own: "mutex s Mutex_graph = Some (Worker w)"
    by (rule cinv_mutex_owner[OF D(8) w]) (simp add: pc)
  define s2 where "s2 = s\<lparr>mutex := (mutex s)(Mutex_graph := None),
            lock_log := lock_log s @ [(Worker w, Release Mutex_graph)],
            clock := Suc (clock s)\<rparr>"
  define s3 where "s3 = s2\<lparr>tasks := (tasks s2)(t := None), uints := (uints s2)(a := None)\<rparr>"
  define s' where "s' = set_worker w W_dequeue s3"
  have u: "process_node_unlock (Worker w) s = Inr s2"
    unfolding s2_def by (rule process_node_unlock_ok[OF D(1) own])
  have tk2: "tasks s2 t = Some \<lparr>argument = a, action = Process_node,
      destroy_arg = Some Free_function\<rparr>" "uints s2 a = Some (idx_of s t)"
    using tk ua by (simp_all add: s2_def)
  have dt: "destroy_task t s2 = Inr s3"
    unfolding s3_def by (rule destroy_task_ok[OF tk2])
  have st: "worker_step w s = Inr s'"
    using ni by (simp add: worker_step_def w pc u dt then_r_def s'_def D(2))
  have ws: "workers s' = (workers s)[w := W_dequeue]"
    and heap: "tasks s' = (tasks s)(t := None)" "uints s' = (uints s)(arg_of s t := None)"
      "brk s' = brk s"
    and ql: "lnext s' = lnext s" "lprev s' = lprev s" "num_tasks s' = num_tasks s"
    and mu: "mutex s' Mutex_graph = None" "mutex s' Mutex_queue = mutex s Mutex_queue"
    and env: "rcs s' = rcs s" "nodes s' = nodes s" "num_threads s' = num_threads s"
      "threads s' = threads s"
    and gr: "visited s' = visited s" "sum_total s' = sum_total s" "finished s' = finished s"
      "mpc s' = mpc s"
    by (simp_all add: s'_def s3_def s2_def set_worker_def ar)
  note H = cinv_heap_drop[OF D(9) w ht heap ws]
  have hp: "cinv_heap s' q" by (rule H(1)) simp
  have agp: "\<forall>t\<in>pending s' q. idx_of s' t = idx_of s t" by (rule H(2)) simp
  have mx: "cinv_mutex s'"
    by (rule cinv_mutex_unlock[OF D(8) w ws]) (simp_all add: mu pc)
  have qi: "queue_inv s' q" using D(7) by (simp add: queue_inv_frame[OF ql])
  have c: "cinv g n s' q"
    by (rule cinv_I[OF _ _ _ _ _ _ qi mx hp])
       (use D in \<open>simp_all add: ws mu env calls_ok_def\<close>)
  have ag': "idx_of s' t' = idx_of s t'"
    if k: "k < length (workers s)" "k \<noteq> w" "held_task (workers s ! k) = Some t'" for k t'
  proof -
    from k have "held_task (workers s' ! k) = Some t'" "k < length (workers s')"
      by (simp_all add: ws)
    then have "t' \<in> pending s' q" unfolding pending_mem by blast
    with agp show ?thesis by blast
  qed
  have aw: "map (apc_of s') (workers s') = (map (apc_of s) (workers s))[w := apc_of s' W_dequeue]"
    by (rule a_workers_update[OF w ws]) (rule ag')
  have a: "abs_state s' q = a_set_worker w A_dequeue (abs_state s q)"
  proof (rule abs_state_eqI)
    show "a_workers (a_set_worker w A_dequeue (abs_state s q)) = map (apc_of s') (workers s')"
      unfolding aw
      by (simp add: a_set_worker_def abs_state_def)
    show "a_queue (a_set_worker w A_dequeue (abs_state s q)) = map (idx_of s') q"
      unfolding a_queue_same[OF agp] by (simp add: a_set_worker_def abs_state_def)
  qed (simp_all add: a_set_worker_def abs_state_def gr)
  from st c a show ?thesis by blast
qed

lemma sim_skip:
  assumes C: "cinv g n s q" and w: "w < length (workers s)"
    and pc: "workers s ! w = W_loop t idx i"
    and il: "idx < length g" and i: "i < length (neighbours (g ! idx))"
    and nl: "neighbours (g ! idx) ! i < length (visited s)"
    and nv: "visited s ! (neighbours (g ! idx) ! i) \<noteq> NOT_VISITED"
  shows "\<exists>s' q'. worker_step w s = Inr s' \<and> cinv g n s' q' \<and>
           abs_state s' q' = a_set_worker w (A_loop idx (Suc i)) (abs_state s q)"
proof -
  note D = cinv_D[OF C]
  define s' where "s' = set_worker w (W_loop t idx (Suc i)) s"
  have nb: "process_node_neighbour (Worker w) idx i s = Inr s"
    by (rule process_node_neighbour_skip) (use il i nl nv D(2) in simp_all)
  have st: "worker_step w s = Inr s'"
    using i by (simp add: worker_step_def w pc nb then_r_def s'_def D(2))
  have ws: "workers s' = (workers s)[w := W_loop t idx (Suc i)]"
    and heap: "tasks s' = tasks s" "uints s' = uints s" "brk s' = brk s"
    and ql: "lnext s' = lnext s" "lprev s' = lprev s" "num_tasks s' = num_tasks s"
    and mu: "mutex s' = mutex s"
    and env: "rcs s' = rcs s" "nodes s' = nodes s" "num_threads s' = num_threads s"
      "threads s' = threads s"
    and gr: "visited s' = visited s" "sum_total s' = sum_total s" "finished s' = finished s"
      "mpc s' = mpc s"
    by (simp_all add: s'_def set_worker_def)
  have hp: "cinv_heap s' q"
    by (rule cinv_heap_repc[OF D(9) heap]) (simp_all add: ws held_update pc)
  have mx: "cinv_mutex s'"
    by (rule cinv_mutex_repc[OF D(8) w ws]) (simp_all add: mu pc)
  have qi: "queue_inv s' q" using D(7) by (simp add: queue_inv_frame[OF ql])
  have c: "cinv g n s' q"
    by (rule cinv_I[OF _ _ _ _ _ _ qi mx hp])
       (use D in \<open>simp_all add: ws mu env calls_ok_def\<close>)
  have ag': "idx_of s' t = idx_of s t" for t by (simp add: idx_of_def heap)
  have a: "abs_state s' q = a_set_worker w (A_loop idx (Suc i)) (abs_state s q)"
  proof (rule abs_state_eqI)
    show "a_workers (a_set_worker w (A_loop idx (Suc i)) (abs_state s q))
        = map (apc_of s') (workers s')"
      unfolding a_workers_update[OF w ws ag']
      by (simp add: a_set_worker_def abs_state_def)
    show "a_queue (a_set_worker w (A_loop idx (Suc i)) (abs_state s q)) = map (idx_of s') q"
      by (simp add: a_set_worker_def abs_state_def ag')
  qed (simp_all add: a_set_worker_def abs_state_def gr)
  from st c a show ?thesis by blast
qed

lemma sim_push:
  assumes C: "cinv g n s q" and w: "w < length (workers s)"
    and pc: "workers s ! w = W_loop t idx i"
    and il: "idx < length g" and i: "i < length (neighbours (g ! idx))"
    and nl: "neighbours (g ! idx) ! i < length (visited s)"
    and nv: "visited s ! (neighbours (g ! idx) ! i) = NOT_VISITED"
    and bd: "length q < 2 ^ 32 - 1"
  shows "\<exists>s' q'. worker_step w s = Inr s' \<and> cinv g n s' q' \<and>
           abs_state s' q' = a_set_worker w (A_loop idx (Suc i))
              ((abs_state s q)\<lparr>a_queue := a_queue (abs_state s q) @ [neighbours (g ! idx) ! i]\<rparr>)"
proof -
  note D = cinv_D[OF C]
  define v where "v = neighbours (g ! idx) ! i"
  define t' where "t' = Suc (brk s)"
  define s1 where "s1 = s\<lparr>num_tasks := num_tasks s + 1,
            lnext := (lnext s)(lprev s Head := Task_node (Suc (brk s)),
                               Task_node (Suc (brk s)) := Head),
            lprev := (lprev s)(Task_node (Suc (brk s)) := lprev s Head,
                               Head := Task_node (Suc (brk s))),
            tasks := (tasks s)(Suc (brk s) \<mapsto>
               \<lparr>argument = brk s, action = Process_node, destroy_arg = Some Free_function\<rparr>),
            uints := (uints s)(brk s \<mapsto> neighbours (nodes s ! idx) ! i),
            brk := Suc (Suc (brk s)),
            lock_log := lock_log s @ [(Worker w, Acquire Mutex_queue), (Worker w, Release Mutex_queue)],
            clock := clock s + 5\<rparr>"
  define s' where "s' = set_worker w (W_loop t idx (Suc i)) s1"
  have nb: "process_node_neighbour (Worker w) idx i s = Inr s1"
    unfolding s1_def
    by (rule process_node_neighbour_new[OF D(1) D(6)]) (use il i nl nv D(2) in simp_all)
  have st: "worker_step w s = Inr s'"
    using i by (simp add: worker_step_def w pc nb then_r_def s'_def D(2))
  have ws: "workers s' = (workers s)[w := W_loop t idx (Suc i)]"
    and T: "tasks s' = (tasks s)(Suc (brk s) \<mapsto>
              \<lparr>argument = brk s, action = Process_node, destroy_arg = Some Free_function\<rparr>)"
    and U: "uints s' = (uints s)(brk s \<mapsto> v)"
    and B: "brk s' = Suc (Suc (brk s))"
    and ql: "lnext s' = (lnext s)(lprev s Head := Task_node t', Task_node t' := Head)"
      "lprev s' = (lprev s)(Task_node t' := lprev s Head, Head := Task_node t')"
      "num_tasks s' = num_tasks s + 1"
    and mu: "mutex s' = mutex s"
    and env: "rcs s' = rcs s" "nodes s' = nodes s" "num_threads s' = num_threads s"
      "threads s' = threads s"
    and gr: "visited s' = visited s" "sum_total s' = sum_total s" "finished s' = finished s"
      "mpc s' = mpc s"
    by (simp_all add: s'_def s1_def set_worker_def v_def t'_def D(2))
  have len: "length (workers s') = length (workers s)" by (simp add: ws)
  have held: "held_task (workers s' ! k) = held_task (workers s ! k)"
    if "k < length (workers s)" for k
    using that by (simp add: ws held_update pc)
  note H = cinv_heap_push[OF D(9) T U B len held]
  have hp: "cinv_heap s' (q @ [t'])" unfolding t'_def by (rule H(1))
  have agp: "\<forall>t\<in>pending s q. idx_of s' t = idx_of s t" by (rule H(2))
  have nw: "idx_of s' t' = v" unfolding t'_def by (rule H(3))
  have fresh: "t' \<notin> set q"
  proof
    assume "t' \<in> set q"
    then have "t' \<in> pending s q" by (simp add: pending_def)
    from cinv_heap_pending_lt(1)[OF D(9) this] show False by (simp add: t'_def)
  qed
  have mx: "cinv_mutex s'"
    by (rule cinv_mutex_repc[OF D(8) w ws]) (simp_all add: mu pc)
  have qi: "queue_inv s' (q @ [t'])" by (rule queue_inv_push[OF D(7) fresh bd ql])
  have c: "cinv g n s' (q @ [t'])"
    by (rule cinv_I[OF _ _ _ _ _ _ qi mx hp])
       (use D in \<open>simp_all add: ws mu env calls_ok_def\<close>)
  have ag': "idx_of s' u = idx_of s u"
    if k: "k < length (workers s)" "k \<noteq> w" "held_task (workers s ! k) = Some u" for k u
  proof -
    from k have "u \<in> pending s q" unfolding pending_mem by blast
    with agp show ?thesis by blast
  qed
  have aw: "map (apc_of s') (workers s')
      = (map (apc_of s) (workers s))[w := apc_of s' (W_loop t idx (Suc i))]"
    by (rule a_workers_update[OF w ws]) (rule ag')
  have aq: "map (idx_of s') q = map (idx_of s) q"
    using agp by (simp add: pending_def)
  have a: "abs_state s' (q @ [t']) = a_set_worker w (A_loop idx (Suc i))
              ((abs_state s q)\<lparr>a_queue := a_queue (abs_state s q) @ [v]\<rparr>)"
  proof (rule abs_state_eqI)
    show "a_workers (a_set_worker w (A_loop idx (Suc i))
              ((abs_state s q)\<lparr>a_queue := a_queue (abs_state s q) @ [v]\<rparr>))
        = map (apc_of s') (workers s')"
      unfolding aw by (simp add: a_set_worker_def abs_state_def)
    show "a_queue (a_set_worker w (A_loop idx (Suc i))
              ((abs_state s q)\<lparr>a_queue := a_queue (abs_state s q) @ [v]\<rparr>))
        = map (idx_of s') (q @ [t'])"
      by (simp add: a_set_worker_def abs_state_def aq nw)
  qed (simp_all add: a_set_worker_def abs_state_def gr)
  from st c a show ?thesis unfolding v_def by blast
qed

lemma pot_w_le_sum:
  "w < length ps \<Longrightarrow> pot_w g (ps ! w) \<le> sum_list (map (pot_w g) ps)"
proof (induction ps arbitrary: w)
  case Nil
  then show ?case by simp
next
  case (Cons p ps)
  show ?case
  proof (cases w)
    case 0
    then show ?thesis by simp
  next
    case (Suc k)
    with Cons.prems have "k < length ps" by simp
    from Cons.IH[OF this] show ?thesis by (simp add: Suc)
  qed
qed

lemma ainv_D:
  assumes "ainv g n a"
  shows "ainv_shape g n a" "ainv_reach g a" "ainv_sum g a" "ainv_closed g a"
    "ainv_lock n a" "ainv_ctl g n a" "ainv_pot g a"
  using assms by (simp_all add: ainv_def)

lemma ainv_worker_ok:
  assumes "ainv g n a" "w < length (a_workers a)"
  shows "apc_ok g a (a_workers a ! w)"
  using ainv_D(2)[OF assms(1)] assms(2) unfolding ainv_reach_def by simp

lemma ainv_push_bound:
  assumes A: "ainv g n a" and G: "wf_graph g" and w: "w < length (a_workers a)"
    and pc: "a_workers a ! w = A_loop idx i"
  shows "length (a_queue a) < 2 ^ 32 - 1"
proof -
  have "Suc (length (a_queue a)) \<le> length (a_queue a) + pot_w g (a_workers a ! w)"
    by (simp add: pc)
  also have "\<dots> \<le> length (a_queue a) + sum_list (map (pot_w g) (a_workers a))"
    using pot_w_le_sum[OF w, of g] by simp
  also have "\<dots> \<le> potential g a" by (simp add: potential_def)
  also have "\<dots> \<le> Suc (num_edges g)" using ainv_D(7)[OF A] by (simp add: ainv_pot_def)
  also have "\<dots> < 2 ^ 32" using G by (simp add: wf_graph_def)
  finally show ?thesis by simp
qed

lemma worker_step_sim:
  assumes C: "cinv g n s q" and A: "ainv g n (abs_state s q)" and G: "wf_graph g"
  shows "case a_worker_step g w (abs_state s q) of
           None \<Rightarrow> worker_step w s = Inl Blocked
         | Some a' \<Rightarrow> \<exists>s' q'. worker_step w s = Inr s' \<and> cinv g n s' q' \<and> abs_state s' q' = a'"
proof (cases "w < length (workers s)")
  case False
  then show ?thesis by (simp add: a_worker_step_def worker_step_def abs_state_def)
next
  case w: True
  note D = cinv_D[OF C]
  let ?a = "abs_state s q"
  have wa: "w < length (a_workers ?a)" using w by (simp add: abs_state_def)
  have aw: "a_workers ?a ! w = apc_of s (workers s ! w)" by (rule abs_worker_nth[OF w])
  have lv: "length (visited s) = length g"
    using ainv_D(1)[OF A] by (simp add: ainv_shape_def abs_state_def)
  have av: "a_visited ?a = visited s" by (simp add: abs_state_def)
  have ok: "apc_ok g ?a (apc_of s (workers s ! w))"
    using ainv_worker_ok[OF A wa] by (simp only: aw)
  show ?thesis
  proof (cases "workers s ! w")
    case W_dequeue
    show ?thesis
    proof (cases q rule: rev_cases)
      case Nil
      have e: "queue_is_empty s" by (rule queue_inv_empty(2)) (use D(7) Nil in simp)
      show ?thesis
      proof (cases "finished s")
        case True
        have "a_worker_step g w ?a = Some (a_set_worker w A_exited ?a)"
          using wa aw W_dequeue Nil True by (simp add: a_worker_step_def abs_state_def)
        with sim_exit[OF C w W_dequeue Nil True] show ?thesis by simp
      next
        case False
        have "a_worker_step g w ?a = None"
          using wa aw W_dequeue Nil False by (simp add: a_worker_step_def abs_state_def)
        moreover have "worker_step w s = Inl Blocked"
          using dequeue_task_wait[OF D(1) D(6) e False, of "Worker w"] w W_dequeue
          by (simp add: worker_step_def then_r_def)
        ultimately show ?thesis by simp
      qed
    next
      case (snoc xs x)
      have "a_worker_step g w ?a = Some (a_set_worker w (A_action (last (a_queue ?a)))
              (?a\<lparr>a_queue := butlast (a_queue ?a)\<rparr>))"
        using wa aw W_dequeue snoc by (simp add: a_worker_step_def abs_state_def)
      with sim_pop[OF C w W_dequeue snoc] show ?thesis by simp
    qed
  next
    case (W_action t)
    have ht: "held_task (workers s ! w) = Some t" by (simp add: W_action)
    from held_valid[OF D(9) w ht] obtain a where
      tk: "tasks s t = Some \<lparr>argument = a, action = Process_node,
              destroy_arg = Some Free_function\<rparr>"
      and ua: "uints s a = Some (idx_of s t)" by auto
    have pa: "a_workers ?a ! w = A_action (idx_of s t)" by (simp add: aw W_action)
    have "idx_of s t \<in> reachable g" using ok by (simp add: W_action)
    then have il: "idx_of s t < length g" by (rule reachable_lt[OF G])
    show ?thesis
    proof (cases "mutex s Mutex_graph")
      case None
      then have nl: "\<not> a_locked ?a" by (simp add: a_locked_abs[OF D(8)])
      show ?thesis
      proof (cases "visited s ! idx_of s t = NOT_VISITED")
        case True
        have "a_worker_step g w ?a = Some (a_set_worker w (A_loop (idx_of s t) 0)
            (?a\<lparr>a_visited := (a_visited ?a)[idx_of s t := DONE],
                a_sum := a_sum ?a + info (g ! idx_of s t)\<rparr>))"
          using wa pa nl True by (simp add: a_worker_step_def av)
        with sim_visit[OF C w W_action None il lv True] show ?thesis by simp
      next
        case False
        have "a_worker_step g w ?a = Some (a_set_worker w A_dequeue ?a)"
          using wa pa nl False by (simp add: a_worker_step_def av)
        with sim_seen[OF C w W_action None il lv False] show ?thesis by simp
      qed
    next
      case (Some other)
      then have "a_locked ?a" by (simp add: a_locked_abs[OF D(8)])
      then have "a_worker_step g w ?a = None"
        using wa pa by (simp add: a_worker_step_def)
      moreover have "worker_step w s = Inl Blocked"
        using process_node_visit_blocked[OF ua Some, of "Worker w"] w W_action tk
        by (simp add: worker_step_def then_r_def)
      ultimately show ?thesis by simp
    qed
  next
    case (W_loop t idx i)
    have pa: "a_workers ?a ! w = A_loop idx i" by (simp add: aw W_loop)
    have "idx \<in> reachable g" using ok by (simp add: W_loop)
    then have il: "idx < length g" by (rule reachable_lt[OF G])
    show ?thesis
    proof (cases "i < length (neighbours (g ! idx))")
      case i: True
      then have "i < deg g idx" by (simp add: deg_def)
      from neighbour_lt[OF G il this]
      have nl: "neighbours (g ! idx) ! i < length (visited s)" by (simp add: lv)
      show ?thesis
      proof (cases "visited s ! (neighbours (g ! idx) ! i) = NOT_VISITED")
        case True
        have bd: "length q < 2 ^ 32 - 1"
          using ainv_push_bound[OF A G wa pa] by (simp add: abs_state_def)
        have "a_worker_step g w ?a = Some (a_set_worker w (A_loop idx (Suc i))
              (?a\<lparr>a_queue := a_queue ?a @ [neighbours (g ! idx) ! i]\<rparr>))"
          using wa pa i True by (simp add: a_worker_step_def av)
        with sim_push[OF C w W_loop il i nl True bd] show ?thesis by simp
      next
        case False
        have "a_worker_step g w ?a = Some (a_set_worker w (A_loop idx (Suc i)) ?a)"
          using wa pa i False by (simp add: a_worker_step_def av)
        with sim_skip[OF C w W_loop il i nl False] show ?thesis by simp
      qed
    next
      case False
      have "a_worker_step g w ?a = Some (a_set_worker w A_dequeue ?a)"
        using wa pa False by (simp add: a_worker_step_def)
      with sim_leave[OF C w W_loop False] show ?thesis by simp
    qed
  next
    case W_exited
    have "a_worker_step g w ?a = None"
      using wa aw W_exited by (simp add: a_worker_step_def)
    moreover have "worker_step w s = Inl Blocked"
      using w W_exited by (simp add: worker_step_def)
    ultimately show ?thesis by simp
  qed
qed

lemma cinv_frame:
  assumes C: "cinv g n s q"
    and heap: "tasks s' = tasks s" "uints s' = uints s" "brk s' = brk s"
    and ws: "workers s' = workers s"
    and ql: "lnext s' = lnext s" "lprev s' = lprev s" "num_tasks s' = num_tasks s"
    and mu: "mutex s' = mutex s"
    and env: "rcs s' = rcs s" "nodes s' = nodes s" "num_threads s' = num_threads s"
      "threads s' = threads s"
  shows "cinv g n s' q"
proof -
  note D = cinv_D[OF C]
  have hp: "cinv_heap s' q" by (rule cinv_heap_same[OF D(9) heap ws])
  have mx: "cinv_mutex s'" by (rule cinv_mutex_same[OF D(8) ws]) (simp add: mu)
  have qi: "queue_inv s' q" using D(7) by (simp add: queue_inv_frame[OF ql])
  show ?thesis
    by (rule cinv_I[OF _ _ _ _ _ _ qi mx hp])
       (use D in \<open>simp_all add: ws mu env calls_ok_def\<close>)
qed

lemma abs_frame:
  assumes heap: "tasks s' = tasks s" "uints s' = uints s" and ws: "workers s' = workers s"
    and gr: "visited s' = visited s" "sum_total s' = sum_total s"
  shows "abs_state s' q = (abs_state s q)\<lparr>a_finished := finished s', a_mpc := mpc s'\<rparr>"
proof (rule abs_state_eqI)
  note S = abs_state_same[OF heap ws, of q]
  show "a_queue ((abs_state s q)\<lparr>a_finished := finished s', a_mpc := mpc s'\<rparr>)
      = map (idx_of s') q"
    using S(1) by (simp add: abs_state_def)
  show "a_workers ((abs_state s q)\<lparr>a_finished := finished s', a_mpc := mpc s'\<rparr>)
      = map (apc_of s') (workers s')"
    using S(2) by (simp add: abs_state_def)
qed (simp_all add: abs_state_def gr)

lemma sim_wait:
  assumes C: "cinv g n s q" and pc: "mpc s = M_wait"
  shows "\<exists>s' q'. main_step n s = Inr s' \<and> cinv g n s' q' \<and>
           abs_state s' q' = (abs_state s q)\<lparr>a_finished := True, a_mpc := M_join 0\<rparr>"
proof -
  note D = cinv_D[OF C]
  define s' where "s' = s\<lparr>finished := True,
            lock_log := lock_log s @ [(Main_thread, Acquire Mutex_queue),
               (Main_thread, Release Mutex_queue)],
            clock := clock s + 3, mpc := M_join 0\<rparr>"
  have st: "main_step n s = Inr s'"
    by (simp add: main_step_def pc wait_for_completion_signal_ok[OF D(1) D(6)] then_r_def s'_def)
  have c: "cinv g n s' q" by (rule cinv_frame[OF C]) (simp_all add: s'_def)
  have "abs_state s' q = (abs_state s q)\<lparr>a_finished := finished s', a_mpc := mpc s'\<rparr>"
    by (rule abs_frame) (simp_all add: s'_def)
  then have a: "abs_state s' q = (abs_state s q)\<lparr>a_finished := True, a_mpc := M_join 0\<rparr>"
    by (simp add: s'_def)
  from st c a show ?thesis by blast
qed

lemma sim_join:
  assumes C: "cinv g n s q" and pc: "mpc s = M_join i" and i: "i < n"
    and ex: "workers s ! i = W_exited"
  shows "\<exists>s' q'. main_step n s = Inr s' \<and> cinv g n s' q' \<and>
           abs_state s' q' = (abs_state s q)\<lparr>a_mpc := M_join (Suc i)\<rparr>"
proof -
  note D = cinv_D[OF C]
  define s' where "s' = s\<lparr>clock := Suc (clock s), mpc := M_join (Suc i)\<rparr>"
  have t: "i < length (threads s)" "threads s ! i = Some i" "i < length (workers s)"
    using i by (simp_all add: D(4,5))
  have st: "main_step n s = Inr s'"
    using i
    by (simp add: main_step_def pc D(3) wait_for_completion_join_ok[OF D(1) t ex]
        then_r_def s'_def)
  have c: "cinv g n s' q" by (rule cinv_frame[OF C]) (simp_all add: s'_def)
  have "abs_state s' q = (abs_state s q)\<lparr>a_finished := finished s', a_mpc := mpc s'\<rparr>"
    by (rule abs_frame) (simp_all add: s'_def)
  then have a: "abs_state s' q = (abs_state s q)\<lparr>a_mpc := M_join (Suc i)\<rparr>"
    by (simp add: s'_def abs_state_def)
  from st c a show ?thesis by blast
qed

lemma sim_join_blocked:
  assumes C: "cinv g n s q" and pc: "mpc s = M_join i" and i: "i < n"
    and ex: "workers s ! i \<noteq> W_exited"
  shows "main_step n s = Inl Blocked"
proof -
  note D = cinv_D[OF C]
  have t: "i < length (threads s)" "threads s ! i = Some i" "i < length (workers s)"
    using i by (simp_all add: D(4,5))
  show ?thesis
    using i
    by (simp add: main_step_def pc D(3) wait_for_completion_join_blocked[OF t ex] then_r_def)
qed

lemma sim_finish:
  assumes C: "cinv g n s q" and pc: "mpc s = M_join i" and i: "\<not> i < n" and q: "q = []"
  shows "\<exists>s' q'. main_step n s = Inr s' \<and> cinv g n s' q' \<and>
           abs_state s' q' = (abs_state s q)\<lparr>a_mpc := M_exit\<rparr> \<and>
           printed s' = Some (sum_total s)"
proof -
  note D = cinv_D[OF C]
  define s' where "s' = s\<lparr>clock := clock s + 3, printed := Some (sum_total s), mpc := M_exit\<rparr>"
  have h: "lnext s Head = Head" by (rule queue_inv_empty(3)) (use D(7) q in simp)
  have st: "main_step n s = Inr s'"
    using i by (simp add: main_step_def pc D(3) main_finish_ok[OF D(1) h] then_r_def s'_def)
  have c: "cinv g n s' q" by (rule cinv_frame[OF C]) (simp_all add: s'_def)
  have "abs_state s' q = (abs_state s q)\<lparr>a_finished := finished s', a_mpc := mpc s'\<rparr>"
    by (rule abs_frame) (simp_all add: s'_def)
  then have a: "abs_state s' q = (abs_state s q)\<lparr>a_mpc := M_exit\<rparr>"
    by (simp add: s'_def abs_state_def)
  have p: "printed s' = Some (sum_total s)" by (simp add: s'_def)
  from st c a p show ?thesis by blast
qed

lemma sim_seed:
  assumes C: "cinv g n s q" and pc: "mpc s = M_seed" and q: "q = []"
  shows "\<exists>s' q'. main_step n s = Inr s' \<and> cinv g n s' q' \<and>
           abs_state s' q' = (abs_state s q)\<lparr>a_queue := a_queue (abs_state s q) @ [0],
              a_mpc := M_wait\<rparr>"
proof -
  note D = cinv_D[OF C]
  define t' where "t' = Suc (brk s)"
  define s' where "s' = s\<lparr>num_tasks := num_tasks s + 1,
            lnext := (lnext s)(lprev s Head := Task_node (Suc (brk s)),
                               Task_node (Suc (brk s)) := Head),
            lprev := (lprev s)(Task_node (Suc (brk s)) := lprev s Head,
                               Head := Task_node (Suc (brk s))),
            tasks := (tasks s)(Suc (brk s) \<mapsto>
               \<lparr>argument = brk s, action = Process_node, destroy_arg = Some Free_function\<rparr>),
            uints := (uints s)(brk s \<mapsto> 0),
            brk := Suc (Suc (brk s)),
            lock_log := lock_log s @ [(Main_thread, Acquire Mutex_queue),
                                      (Main_thread, Release Mutex_queue)],
            clock := clock s + 5, mpc := M_wait\<rparr>"
  have st: "main_step n s = Inr s'"
    by (simp add: main_step_def pc main_seed_ok[OF D(1) D(6)] then_r_def s'_def)
  have ws: "workers s' = workers s"
    and T: "tasks s' = (tasks s)(Suc (brk s) \<mapsto>
              \<lparr>argument = brk s, action = Process_node, destroy_arg = Some Free_function\<rparr>)"
    and U: "uints s' = (uints s)(brk s \<mapsto> 0)"
    and B: "brk s' = Suc (Suc (brk s))"
    and ql: "lnext s' = (lnext s)(lprev s Head := Task_node t', Task_node t' := Head)"
      "lprev s' = (lprev s)(Task_node t' := lprev s Head, Head := Task_node t')"
      "num_tasks s' = num_tasks s + 1"
    and mu: "mutex s' = mutex s"
    and env: "rcs s' = rcs s" "nodes s' = nodes s" "num_threads s' = num_threads s"
      "threads s' = threads s"
    and gr: "visited s' = visited s" "sum_total s' = sum_total s" "finished s' = finished s"
      "mpc s' = M_wait"
    by (simp_all add: s'_def t'_def)
  have len: "length (workers s') = length (workers s)" by (simp add: ws)
  have held: "held_task (workers s' ! k) = held_task (workers s ! k)"
    if "k < length (workers s)" for k
    by (simp add: ws)
  note H = cinv_heap_push[OF D(9) T U B len held]
  have hp: "cinv_heap s' (q @ [t'])" unfolding t'_def by (rule H(1))
  have agp: "\<forall>t\<in>pending s q. idx_of s' t = idx_of s t" by (rule H(2))
  have nw: "idx_of s' t' = 0" unfolding t'_def by (rule H(3))
  have fresh: "t' \<notin> set q" by (simp add: q)
  have bd: "length q < 2 ^ 32 - 1" by (simp add: q)
  have mx: "cinv_mutex s'" by (rule cinv_mutex_same[OF D(8) ws]) (simp add: mu)
  have qi: "queue_inv s' (q @ [t'])" by (rule queue_inv_push[OF D(7) fresh bd ql])
  have c: "cinv g n s' (q @ [t'])"
    by (rule cinv_I[OF _ _ _ _ _ _ qi mx hp])
       (use D in \<open>simp_all add: ws mu env calls_ok_def\<close>)
  have agp': "\<forall>t\<in>pending s' q. idx_of s' t = idx_of s t"
    using agp by (simp add: pending_def ws)
  have aw: "map (apc_of s') (workers s') = map (apc_of s) (workers s)"
    by (rule a_workers_same[OF ws agp'])
  have a: "abs_state s' (q @ [t']) = (abs_state s q)\<lparr>a_queue := a_queue (abs_state s q) @ [0],
              a_mpc := M_wait\<rparr>"
  proof (rule abs_state_eqI)
    show "a_workers ((abs_state s q)\<lparr>a_queue := a_queue (abs_state s q) @ [0],
              a_mpc := M_wait\<rparr>) = map (apc_of s') (workers s')"
      unfolding aw by (simp add: abs_state_def)
    show "a_queue ((abs_state s q)\<lparr>a_queue := a_queue (abs_state s q) @ [0],
              a_mpc := M_wait\<rparr>) = map (idx_of s') (q @ [t'])"
      by (simp add: abs_state_def q nw)
  qed (simp_all add: abs_state_def gr)
  from st c a show ?thesis by blast
qed

lemma apc_of_exited: "apc_of s pc = A_exited \<longleftrightarrow> pc = W_exited"
  by (cases pc) simp_all

lemma main_step_sim:
  assumes C: "cinv g n s q" and A: "ainv g n (abs_state s q)"
  shows "case a_main_step g n (abs_state s q) of
           None \<Rightarrow> main_step n s = Inl Blocked
         | Some a' \<Rightarrow> \<exists>s' q'. main_step n s = Inr s' \<and> cinv g n s' q' \<and> abs_state s' q' = a'"
proof -
  note D = cinv_D[OF C]
  let ?a = "abs_state s q"
  note K = ainv_D(6)[OF A, unfolded ainv_ctl_def]
  have am: "a_mpc ?a = mpc s" by (simp add: abs_state_def)
  have aq: "a_queue ?a = [] \<longleftrightarrow> q = []" by (simp add: abs_state_def)
  show ?thesis
  proof (cases "mpc s")
    case M_start
    with K am show ?thesis by simp
  next
    case M_seed
    with K am aq have q: "q = []" by simp
    have "a_main_step g n ?a = Some (?a\<lparr>a_queue := a_queue ?a @ [0], a_mpc := M_wait\<rparr>)"
      by (simp add: a_main_step_def am M_seed)
    with sim_seed[OF C M_seed q] show ?thesis by simp
  next
    case M_wait
    have "a_main_step g n ?a = Some (?a\<lparr>a_finished := True, a_mpc := M_join 0\<rparr>)"
      by (simp add: a_main_step_def am M_wait)
    with sim_wait[OF C M_wait] show ?thesis by simp
  next
    case (M_join i)
    show ?thesis
    proof (cases "i < n")
      case i: True
      then have wi: "a_workers ?a ! i = apc_of s (workers s ! i)"
        by (simp add: abs_worker_nth D(4))
      show ?thesis
      proof (cases "workers s ! i = W_exited")
        case True
        have "a_main_step g n ?a = Some (?a\<lparr>a_mpc := M_join (Suc i)\<rparr>)"
          using i True by (simp add: a_main_step_def am M_join wi)
        with sim_join[OF C M_join i True] show ?thesis by simp
      next
        case False
        have "a_main_step g n ?a = None"
          using i False by (simp add: a_main_step_def am M_join wi apc_of_exited)
        with sim_join_blocked[OF C M_join i False] show ?thesis by simp
      qed
    next
      case i: False
      from K am M_join have "i \<le> n" "\<forall>j<i. a_workers ?a ! j = A_exited" by simp_all
      with i have "\<forall>j<n. a_workers ?a ! j = A_exited" by simp
      with K have "a_queue ?a = []" by blast
      then have q: "q = []" by (simp add: aq)
      have "a_main_step g n ?a = Some (?a\<lparr>a_mpc := M_exit\<rparr>)"
        using i by (simp add: a_main_step_def am M_join)
      with sim_finish[OF C M_join i q] show ?thesis by auto
    qed
  next
    case M_exit
    have "a_main_step g n ?a = None" by (simp add: a_main_step_def am M_exit)
    moreover have "main_step n s = Inl Blocked" by (simp add: main_step_def M_exit)
    ultimately show ?thesis by simp
  qed
qed

lemma step_sim:
  assumes C: "cinv g n s q" and A: "ainv g n (abs_state s q)" and G: "wf_graph g"
  shows "case a_step g n th (abs_state s q) of
           None \<Rightarrow> step n th s = Inl Blocked
         | Some a' \<Rightarrow> \<exists>s' q'. step n th s = Inr s' \<and> cinv g n s' q' \<and> abs_state s' q' = a'"
proof (cases th)
  case Main_thread
  have e: "a_step g n th = a_main_step g n" "step n th = main_step n"
    by (simp_all add: a_step_def step_def fun_eq_iff Main_thread)
  show ?thesis unfolding e by (rule main_step_sim[OF C A])
next
  case (Worker w)
  have e: "a_step g n th = a_worker_step g w" "step n th = worker_step w"
    by (simp_all add: a_step_def step_def fun_eq_iff Worker)
  show ?thesis unfolding e by (rule worker_step_sim[OF C A G])
qed

section \<open>Runs\<close>

lemma all_exited_set:
  assumes "length ws = n" "\<forall>j<n. ws ! j = A_exited" "p \<in> set ws"
  shows "p = A_exited"
  using assms by (auto simp: in_set_conv_nth)

text \<open>At the exit of \<^verbatim>\<open>main\<close> the nodes marked are the reachable ones.\<close>

lemma ainv_final:
  assumes A: "ainv g n a" and G: "wf_graph g" and e: "a_mpc a = M_exit"
  shows "done_nodes g a = reachable g"
    and "a_sum a = (\<Sum>v\<in>reachable g. info (g ! v))"
proof -
  note I = ainv_D[OF A]
  from I(1) have ln: "length (a_workers a) = n" by (simp add: ainv_shape_def)
  from I(6) e have ex: "\<forall>j<n. a_workers a ! j = A_exited" and q: "a_queue a = []"
    unfolding ainv_ctl_def by blast+
  have w: "p = A_exited" if "p \<in> set (a_workers a)" for p
    by (rule all_exited_set[OF ln ex that])
  have nu: "\<not> underway a v" for v
    using q w[of "A_action v"] by (auto simp: underway_def)
  have nl: "A_loop u i \<notin> set (a_workers a)" for u i
    using w[of "A_loop u i"] by auto
  from I(4) have cl: "\<forall>u\<in>done_nodes g a. \<forall>j<deg g u. neighbours (g ! u) ! j \<in> done_nodes g a"
    and z: "0 \<in> done_nodes g a"
    unfolding ainv_closed_def using nu nl e by auto
  have "v \<in> done_nodes g a" if "(0, v) \<in> (edges g)\<^sup>*" for v
    using that
  proof (induction rule: rtrancl_induct)
    case base
    show ?case by (rule z)
  next
    case (step y z)
    from step(2) obtain j where "j < deg g y" "z = neighbours (g ! y) ! j"
      by (auto simp: edges_def deg_def in_set_conv_nth)
    with cl step(3) show ?case by blast
  qed
  then have "reachable g \<subseteq> done_nodes g a" by (auto simp: reachable_def)
  moreover from I(2) have "done_nodes g a \<subseteq> reachable g" by (simp add: ainv_reach_def)
  ultimately show d: "done_nodes g a = reachable g" by blast
  from I(3) show "a_sum a = (\<Sum>v\<in>reachable g. info (g ! v))"
    by (simp add: ainv_sum_def d)
qed

text \<open>Until \<^verbatim>\<open>main\<close> has exited, some thread can move.\<close>

lemma loop_enabled:
  assumes "w < length (a_workers a)" "a_workers a ! w = A_loop u i"
  shows "\<exists>a'. a_worker_step g w a = Some a'"
  using assms by (simp add: a_worker_step_def)

lemma ainv_progress:
  assumes A: "ainv g n a" and ne: "a_mpc a \<noteq> M_exit"
  shows "\<exists>th a'. a_step g n th a = Some a'"
proof -
  note I = ainv_D[OF A]
  from I(1) have ln: "length (a_workers a) = n" by (simp add: ainv_shape_def)
  have m: "a_step g n Main_thread a = a_main_step g n a" by (simp add: a_step_def)
  have wk: "a_step g n (Worker w) a = a_worker_step g w a" for w by (simp add: a_step_def)
  show ?thesis
  proof (cases "a_mpc a")
    case M_start
    with I(6) show ?thesis by (simp add: ainv_ctl_def)
  next
    case M_seed
    then have "\<exists>a'. a_step g n Main_thread a = Some a'" by (simp add: m a_main_step_def)
    then show ?thesis by blast
  next
    case M_wait
    then have "\<exists>a'. a_step g n Main_thread a = Some a'" by (simp add: m a_main_step_def)
    then show ?thesis by blast
  next
    case (M_join i)
    from I(6) M_join have fin: "a_finished a" unfolding ainv_ctl_def by blast
    show ?thesis
    proof (cases "i < n")
      case False
      with M_join have "\<exists>a'. a_step g n Main_thread a = Some a'"
        by (simp add: m a_main_step_def)
      then show ?thesis by blast
    next
      case i: True
      then have il: "i < length (a_workers a)" by (simp add: ln)
      show ?thesis
      proof (cases "a_workers a ! i")
        case A_exited
        with M_join i have "\<exists>a'. a_step g n Main_thread a = Some a'"
          by (simp add: m a_main_step_def)
        then show ?thesis by blast
      next
        case A_dequeue
        with il fin have "\<exists>a'. a_step g n (Worker i) a = Some a'"
          by (simp add: wk a_worker_step_def)
        then show ?thesis by blast
      next
        case (A_loop u k)
        from loop_enabled[OF il this] have "\<exists>a'. a_step g n (Worker i) a = Some a'"
          by (simp add: wk)
        then show ?thesis by blast
      next
        case (A_action idx)
        show ?thesis
        proof (cases "a_locked a")
          case False
          with il A_action have "\<exists>a'. a_step g n (Worker i) a = Some a'"
            by (simp add: wk a_worker_step_def)
          then show ?thesis by blast
        next
          case True
          then obtain w where w: "w < length (a_workers a)" "is_loop (a_workers a ! w)"
            by (auto simp: a_locked_def in_set_conv_nth)
          then obtain u k where "a_workers a ! w = A_loop u k"
            by (cases "a_workers a ! w") simp_all
          from loop_enabled[OF w(1) this] have "\<exists>a'. a_step g n (Worker w) a = Some a'"
            by (simp add: wk)
          then show ?thesis by blast
        qed
      qed
    qed
  next
    case M_exit
    with ne show ?thesis by simp
  qed
qed

text \<open>A step marks at most one node, one that was not marked, and unmarks none.\<close>

lemma a_step_visited:
  assumes "a_step g n th a = Some a'"
  shows "a_visited a' = a_visited a \<or>
         (\<exists>idx. a_visited a ! idx = NOT_VISITED \<and> a_visited a' = (a_visited a)[idx := DONE])"
proof (cases th)
  case Main_thread
  with assms have "a_main_step g n a = Some a'" by (simp add: a_step_def)
  from a_main_step_frame[OF this] show ?thesis by blast
next
  case (Worker w)
  with assms have "a_worker_step g w a = Some a'" by (simp add: a_step_def)
  then show ?thesis
    by (cases rule: a_worker_step_cases) (auto simp: a_set_worker_def)
qed

lemma ainv_init:
  assumes "wf_graph g"
  shows "ainv g n (a_init g n)"
proof -
  have u: "unvisited g (a_init g n) = {..<length g}"
    by (auto simp: unvisited_def a_init_def)
  have d: "done_nodes g (a_init g n) = {}"
    by (auto simp: done_nodes_def a_init_def)
  have p: "sum_list (map (pot_w g) (replicate n A_dequeue)) = 0"
    by (induction n) simp_all
  have "ainv_shape g n (a_init g n)" by (simp add: ainv_shape_def a_init_def)
  moreover have "ainv_reach g (a_init g n)"
    unfolding ainv_reach_def d by (auto simp: a_init_def)
  moreover have "ainv_sum g (a_init g n)"
    unfolding ainv_sum_def d by (simp add: a_init_def)
  moreover have "ainv_closed g (a_init g n)"
    unfolding ainv_closed_def d by (simp add: a_init_def)
  moreover have "ainv_lock n (a_init g n)"
    by (simp add: ainv_lock_def a_init_def)
  moreover have "ainv_ctl g n (a_init g n)"
    by (auto simp: ainv_ctl_def a_init_def)
  moreover have "ainv_pot g (a_init g n)"
    unfolding ainv_pot_def potential_def u
    by (simp add: a_init_def p num_edges_def deg_def)
  ultimately show ?thesis by (simp add: ainv_def)
qed

lemma mu_init: "mu g n (a_init g n) = 2 * n + 4 * num_edges g + 6"
proof -
  have u: "unvisited g (a_init g n) = {..<length g}"
    by (auto simp: unvisited_def a_init_def)
  have p: "sum_list (map (mu_w g) (replicate k A_dequeue)) = k" for k
    by (induction k) simp_all
  have w: "a_workers (a_init g n) = replicate n A_dequeue" by (simp add: a_init_def)
  show ?thesis unfolding mu_def u w p by (simp add: a_init_def num_edges_def deg_def)
qed

lemma boot_step:
  assumes lv: "length vs = length g"
  shows "\<exists>s1. step n Main_thread (boot (\<lambda>i. 0) g vs) = Inr s1 \<and> cinv g n s1 [] \<and>
           abs_state s1 [] = a_init g n"
proof -
  define s0 where "s0 = boot (\<lambda>i. 0) g vs"
  define s1 where "s1 = s0\<lparr>num_threads := n, threads := map Some [0..<n], num_tasks := 0,
            finished := False,
            lnext := (lnext s0)(Head := Head), lprev := (lprev s0)(Head := Head),
            brk := Suc (Suc (brk s0)),
            sum_total := 0,
            visited := replicate (length (nodes s0)) NOT_VISITED,
            mutex := (mutex s0)(Mutex_graph := None, Mutex_queue := None),
            clock := clock s0 + 5 + n,
            workers := replicate n W_dequeue, mpc := M_seed\<rparr>"
  have b: "calls_ok s0" "workers s0 = []" "length (visited s0) = length (nodes s0)"
    "mpc s0 = M_start"
    by (simp_all add: s0_def boot_def calls_ok_def lv)
  have st: "step n Main_thread s0 = Inr s1"
    by (simp add: step_def main_step_def b(4) main_init_ok[OF b(1-3)] then_r_def s1_def)
  have f: "rcs s1 = (\<lambda>i. 0)" "nodes s1 = g" "num_threads s1 = n"
    "workers s1 = replicate n W_dequeue" "threads s1 = map Some [0..<n]"
    "mutex s1 Mutex_queue = None" "mutex s1 Mutex_graph = None"
    "lnext s1 Head = Head" "lprev s1 Head = Head" "num_tasks s1 = 0"
    "tasks s1 = Map.empty" "uints s1 = Map.empty"
    "visited s1 = replicate (length g) NOT_VISITED" "sum_total s1 = 0" "\<not> finished s1"
    "mpc s1 = M_seed"
    by (simp_all add: s1_def s0_def boot_def)
  have qi: "queue_inv s1 []" by (simp add: queue_inv_def linked_def f)
  have mx: "cinv_mutex s1" by (simp add: cinv_mutex_def f)
  have pe: "pending s1 [] = {}" by (auto simp: pending_def f)
  have hp: "cinv_heap s1 []" unfolding cinv_heap_def pe by (simp add: f)
  have c: "cinv g n s1 []"
    by (rule cinv_I[OF _ _ _ _ _ _ qi mx hp]) (simp_all add: f calls_ok_def)
  have a: "abs_state s1 [] = a_init g n"
    by (simp add: abs_state_def a_init_def f)
  from st c a show ?thesis unfolding s0_def by blast
qed

lemma boot_worker_blocked: "step n (Worker w) (boot env g vs) = Inl Blocked"
  by (simp add: step_def worker_step_def boot_def)

lemma run_Cons_Inr:
  assumes "run n (th # ths) s = Inr s'"
  obtains s1 where "step n th s = Inr s1" "run n ths s1 = Inr s'"
  using assms by (cases "step n th s") (simp_all add: then_r_def)

lemma run_Cons_Inl:
  assumes "run n (th # ths) s = Inl e"
  shows "step n th s = Inl e \<or> (\<exists>s1. step n th s = Inr s1 \<and> run n ths s1 = Inl e)"
  using assms by (cases "step n th s") (simp_all add: then_r_def)

text \<open>What one step of the program keeps and how it moves the measure.\<close>

lemma step_inv:
  assumes C: "cinv g n s q" and A: "ainv g n (abs_state s q)" and G: "wf_graph g"
    and n: "0 < n" and st: "step n th s = Inr s1"
  shows "\<exists>q1. cinv g n s1 q1 \<and> ainv g n (abs_state s1 q1) \<and>
           a_step g n th (abs_state s q) = Some (abs_state s1 q1) \<and>
           mu g n (abs_state s1 q1) < mu g n (abs_state s q)"
proof (cases "a_step g n th (abs_state s q)")
  case None
  with step_sim[OF C A G, of th] st show ?thesis by simp
next
  case (Some a')
  with step_sim[OF C A G, of th] st obtain q1 where
    c1: "cinv g n s1 q1" and a1: "abs_state s1 q1 = a'" by auto
  from Some a1 have as: "a_step g n th (abs_state s q) = Some (abs_state s1 q1)" by simp
  have i1: "ainv g n (abs_state s1 q1)" by (rule ainv_step[OF A G n as])
  note I = ainv_D[OF A]
  from a_step_sizes[OF as I(2) I(1) G] have "mu g n (abs_state s1 q1) < mu g n (abs_state s q)"
    by simp
  with c1 i1 as show ?thesis by blast
qed

lemma step_no_error:
  assumes C: "cinv g n s q" and A: "ainv g n (abs_state s q)" and G: "wf_graph g"
    and st: "step n th s = Inl e"
  shows "e = Blocked"
proof (cases "a_step g n th (abs_state s q)")
  case None
  with step_sim[OF C A G, of th] st show ?thesis by simp
next
  case (Some a')
  with step_sim[OF C A G, of th] st show ?thesis by auto
qed

lemma run_inv:
  assumes "cinv g n s q" "ainv g n (abs_state s q)" "wf_graph g" "0 < n"
    "run n sched s = Inr s'"
  shows "\<exists>q'. cinv g n s' q' \<and> ainv g n (abs_state s' q') \<and>
           length sched + mu g n (abs_state s' q') \<le> mu g n (abs_state s q)"
  using assms
proof (induction sched arbitrary: s q)
  case Nil
  then show ?case by auto
next
  case (Cons th ths)
  from Cons.prems(5) obtain s1 where st: "step n th s = Inr s1" and r: "run n ths s1 = Inr s'"
    by (rule run_Cons_Inr)
  from step_inv[OF Cons.prems(1-4) st] obtain q1 where
    c1: "cinv g n s1 q1" and a1: "ainv g n (abs_state s1 q1)"
    and m1: "mu g n (abs_state s1 q1) < mu g n (abs_state s q)" by blast
  from Cons.IH[OF c1 a1 Cons.prems(3,4) r] obtain q' where
    "cinv g n s' q'" "ainv g n (abs_state s' q')"
    "length ths + mu g n (abs_state s' q') \<le> mu g n (abs_state s1 q1)" by blast
  with m1 show ?case by (intro exI[of _ q']) simp
qed

lemma run_no_error:
  assumes "cinv g n s q" "ainv g n (abs_state s q)" "wf_graph g" "0 < n"
    "run n sched s = Inl e"
  shows "e = Blocked"
  using assms
proof (induction sched arbitrary: s q)
  case Nil
  then show ?case by simp
next
  case (Cons th ths)
  from run_Cons_Inl[OF Cons.prems(5)] show ?case
  proof
    assume "step n th s = Inl e"
    then show ?thesis by (rule step_no_error[OF Cons.prems(1-3)])
  next
    assume "\<exists>s1. step n th s = Inr s1 \<and> run n ths s1 = Inl e"
    then obtain s1 where st: "step n th s = Inr s1" and r: "run n ths s1 = Inl e" by blast
    from step_inv[OF Cons.prems(1-4) st] obtain q1 where
      c1: "cinv g n s1 q1" and a1: "ainv g n (abs_state s1 q1)" by blast
    show ?thesis by (rule Cons.IH[OF c1 a1 Cons.prems(3,4) r])
  qed
qed

text \<open>From every state of a run some schedule leads to the exit of \<^verbatim>\<open>main\<close>.\<close>

lemma run_complete:
  assumes "cinv g n s q" "ainv g n (abs_state s q)" "wf_graph g" "0 < n"
  shows "\<exists>sched s'. run n sched s = Inr s' \<and> mpc s' = M_exit"
  using assms
proof (induction "mu g n (abs_state s q)" arbitrary: s q rule: less_induct)
  case less
  show ?case
  proof (cases "mpc s = M_exit")
    case True
    then have "run n [] s = Inr s \<and> mpc s = M_exit" by simp
    then show ?thesis by blast
  next
    case False
    then have "a_mpc (abs_state s q) \<noteq> M_exit" by (simp add: abs_state_def)
    from ainv_progress[OF less.prems(2) this] obtain th a' where
      as: "a_step g n th (abs_state s q) = Some a'" by blast
    with step_sim[OF less.prems(1-3), of th] obtain s1 where st: "step n th s = Inr s1"
      by auto
    from step_inv[OF less.prems st] obtain q1 where
      c1: "cinv g n s1 q1" and a1: "ainv g n (abs_state s1 q1)"
      and m1: "mu g n (abs_state s1 q1) < mu g n (abs_state s q)" by blast
    from less.hyps[OF m1 c1 a1 less.prems(3,4)] obtain sched s' where
      "run n sched s1 = Inr s'" "mpc s' = M_exit" by blast
    with st have "run n (th # sched) s = Inr s' \<and> mpc s' = M_exit" by (simp add: then_r_def)
    then show ?thesis by blast
  qed
qed

lemma step_marks:
  assumes C: "cinv g n s q" and A: "ainv g n (abs_state s q)" and G: "wf_graph g"
    and n: "0 < n" and st: "step n th s = Inr s1" and v: "v < length g"
  shows "(if v < length (visited s) \<and> visited s ! v = NOT_VISITED \<and> visited s1 ! v = DONE
          then 1 else 0) + marked s v = marked s1 v"
proof -
  from step_inv[OF C A G n st] obtain q1 where
    as: "a_step g n th (abs_state s q) = Some (abs_state s1 q1)" by blast
  have lv: "length (visited s) = length g"
    using ainv_D(1)[OF A] by (simp add: ainv_shape_def abs_state_def)
  from a_step_visited[OF as]
  have "visited s1 = visited s \<or>
      (\<exists>idx. visited s ! idx = NOT_VISITED \<and> visited s1 = (visited s)[idx := DONE])"
    by (simp add: abs_state_def)
  then show ?thesis
  proof
    assume e: "visited s1 = visited s"
    show ?thesis by (simp add: marked_def e)
  next
    assume "\<exists>idx. visited s ! idx = NOT_VISITED \<and> visited s1 = (visited s)[idx := DONE]"
    then obtain idx where i: "visited s ! idx = NOT_VISITED"
      and e: "visited s1 = (visited s)[idx := DONE]" by blast
    show ?thesis
    proof (cases "idx = v")
      case True
      with i v lv show ?thesis by (simp add: marked_def e)
    next
      case False
      then show ?thesis by (simp add: marked_def e)
    qed
  qed
qed

lemma run_marks:
  assumes "cinv g n s q" "ainv g n (abs_state s q)" "wf_graph g" "0 < n"
    "run n sched s = Inr s'" "v < length g"
  shows "visits n v sched s + marked s v = marked s' v"
  using assms
proof (induction sched arbitrary: s q)
  case Nil
  then show ?case by simp
next
  case (Cons th ths)
  from Cons.prems(5) obtain s1 where st: "step n th s = Inr s1" and r: "run n ths s1 = Inr s'"
    by (rule run_Cons_Inr)
  from step_inv[OF Cons.prems(1-4) st] obtain q1 where
    c1: "cinv g n s1 q1" and a1: "ainv g n (abs_state s1 q1)" by blast
  note IH = Cons.IH[OF c1 a1 Cons.prems(3,4) r Cons.prems(6)]
  note M = step_marks[OF Cons.prems(1-4) st Cons.prems(6)]
  have "visits n v (th # ths) s =
      (if v < length (visited s) \<and> visited s ! v = NOT_VISITED \<and> visited s1 ! v = DONE
       then 1 else 0) + visits n v ths s1"
    by (simp add: st)
  with IH M show ?case by linarith
qed

lemma step_printed:
  assumes C: "cinv g n s q" and A: "ainv g n (abs_state s q)" and G: "wf_graph g"
    and n: "0 < n" and st: "step n th s = Inr s1" and e: "mpc s1 = M_exit"
    and p: "mpc s = M_exit \<longrightarrow> printed s = Some (sum_total s)"
  shows "printed s1 = Some (sum_total s1)"
proof -
  note D = cinv_D[OF C]
  note K = ainv_D(6)[OF A, unfolded ainv_ctl_def]
  from step_inv[OF C A G n st] obtain q1 where
    as: "a_step g n th (abs_state s q) = Some (abs_state s1 q1)" by blast
  have am: "a_mpc (abs_state s q) = mpc s" "a_mpc (abs_state s1 q1) = mpc s1"
    by (simp_all add: abs_state_def)
  have ln: "length (a_workers (abs_state s q)) = n" by (simp add: abs_state_def D(4))
  show ?thesis
  proof (cases th)
    case (Worker w)
    with as have ws: "a_worker_step g w (abs_state s q) = Some (abs_state s1 q1)"
      by (simp add: a_step_def)
    from a_worker_step_frame[OF ws] have "a_mpc (abs_state s1 q1) = a_mpc (abs_state s q)"
      by blast
    with e am have x: "a_mpc (abs_state s q) = M_exit" by simp
    with K have ex: "\<forall>j<n. a_workers (abs_state s q) ! j = A_exited" by blast
    have "a_worker_step g w (abs_state s q) = None"
    proof (cases "w < n")
      case True
      with ex have "a_workers (abs_state s q) ! w = A_exited" by blast
      then show ?thesis by (simp add: a_worker_step_def)
    next
      case False
      then show ?thesis by (simp add: a_worker_step_def ln)
    qed
    with ws show ?thesis by simp
  next
    case Main_thread
    with as have ms: "a_main_step g n (abs_state s q) = Some (abs_state s1 q1)"
      by (simp add: a_step_def)
    from Main_thread st have st': "main_step n s = Inr s1" by (simp add: step_def)
    from ms show ?thesis
    proof (cases rule: a_main_step_cases)
      case seed
      from arg_cong[OF seed(2), of a_mpc] e am show ?thesis by simp
    next
      case wait
      from arg_cong[OF wait(2), of a_mpc] e am show ?thesis by simp
    next
      case (join i)
      from arg_cong[OF join(4), of a_mpc] e am show ?thesis by simp
    next
      case (finish i)
      from finish(1) have pc: "mpc s = M_join i" by (simp add: am)
      from K finish(1) have "i \<le> n" "\<forall>j<i. a_workers (abs_state s q) ! j = A_exited"
        by simp_all
      with finish(2) have "\<forall>j<n. a_workers (abs_state s q) ! j = A_exited" by simp
      with K have "a_queue (abs_state s q) = []" by blast
      then have q: "q = []" by (simp add: abs_state_def)
      have h: "lnext s Head = Head" by (rule queue_inv_empty(3)) (use D(7) q in simp)
      from st' finish(2) show ?thesis
        by (auto simp: main_step_def pc D(3) main_finish_ok[OF D(1) h] then_r_def)
    qed
  qed
qed

lemma run_printed:
  assumes "cinv g n s q" "ainv g n (abs_state s q)" "wf_graph g" "0 < n"
    "run n sched s = Inr s'" "mpc s' = M_exit"
    "mpc s = M_exit \<longrightarrow> printed s = Some (sum_total s)"
  shows "printed s' = Some (sum_total s')"
  using assms
proof (induction sched arbitrary: s q)
  case Nil
  then show ?case by simp
next
  case (Cons th ths)
  from Cons.prems(5) obtain s1 where st: "step n th s = Inr s1" and r: "run n ths s1 = Inr s'"
    by (rule run_Cons_Inr)
  from step_inv[OF Cons.prems(1-4) st] obtain q1 where
    c1: "cinv g n s1 q1" and a1: "ainv g n (abs_state s1 q1)" by blast
  have p1: "mpc s1 = M_exit \<longrightarrow> printed s1 = Some (sum_total s1)"
    using step_printed[OF Cons.prems(1-4) st _ Cons.prems(7)] by blast
  show ?case by (rule Cons.IH[OF c1 a1 Cons.prems(3,4) r Cons.prems(6) p1])
qed

lemma final_state:
  assumes C: "cinv g n s q" and A: "ainv g n (abs_state s q)" and G: "wf_graph g"
    and e: "mpc s = M_exit"
  shows "\<forall>v<length g. visited s ! v = (if v \<in> reachable g then DONE else NOT_VISITED)"
    and "sum_total s = (\<Sum>v\<in>reachable g. info (g ! v))"
proof -
  have m: "a_mpc (abs_state s q) = M_exit" by (simp add: abs_state_def e)
  note F = ainv_final[OF A G m]
  show "\<forall>v<length g. visited s ! v = (if v \<in> reachable g then DONE else NOT_VISITED)"
  proof (intro allI impI)
    fix v assume v: "v < length g"
    have "v \<in> reachable g \<longleftrightarrow> visited s ! v = DONE"
      using F(1) v by (auto simp: done_nodes_def abs_state_def)
    then show "visited s ! v = (if v \<in> reachable g then DONE else NOT_VISITED)"
      by (cases "visited s ! v") simp_all
  qed
  from F(2) show "sum_total s = (\<Sum>v\<in>reachable g. info (g ! v))"
    by (simp add: abs_state_def)
qed

text \<open>
Claim C1. Take a graph with node 0, every neighbour index below the number of nodes and
  fewer than \<open>2 ^ 32 - 1\<close> edges, any content of the visited array, any number
  \<open>n > 0\<close> of workers, and let no library call fail. Then some schedule runs the program
  to the exit of \<^verbatim>\<open>main\<close>; every schedule has at most \<open>2 * n + 4 * num_edges g + 7\<close>
  steps, so the program stops under every scheduler; as long as \<^verbatim>\<open>main\<close> has not exited
  some thread can move, so the pool is always drained; no run ends in a fatal error, in
  undefined behaviour or in a loop. And in every run that reaches the exit of \<^verbatim>\<open>main\<close>,
  whatever the schedule and the number of workers: the nodes marked \<^verbatim>\<open>DONE\<close> are the
  nodes reachable from node 0 and the others are \<^verbatim>\<open>NOT_VISITED\<close>, each reachable node
  was marked by exactly one step of the run and no other node by any, the total is the
  sum of the values of the reachable nodes, and it is the number printed.
\<close>

theorem traversal_correct:
  assumes G: "wf_graph g" and lv: "length vs = length g" and n: "0 < n"
  shows "(\<exists>sched s. run n sched (boot (\<lambda>i. 0) g vs) = Inr s \<and> mpc s = M_exit) \<and>
         (\<forall>sched s. run n sched (boot (\<lambda>i. 0) g vs) = Inr s \<longrightarrow>
            length sched \<le> 2 * n + 4 * num_edges g + 7 \<and>
            (mpc s \<noteq> M_exit \<longrightarrow> (\<exists>th s'. step n th s = Inr s')) \<and>
            (mpc s = M_exit \<longrightarrow>
               (\<forall>v<length g. visited s ! v = (if v \<in> reachable g then DONE else NOT_VISITED)) \<and>
               (\<forall>v<length g. visits n v sched (boot (\<lambda>i. 0) g vs)
                    = (if v \<in> reachable g then 1 else 0)) \<and>
               sum_total s = (\<Sum>v\<in>reachable g. info (g ! v)) \<and>
               printed s = Some (sum_total s))) \<and>
         (\<forall>sched e. run n sched (boot (\<lambda>i. 0) g vs) = Inl e \<longrightarrow> e = Blocked)"
proof -
  let ?b = "boot (\<lambda>i. 0) g vs"
  from boot_step[OF lv, of n] obtain s1 where
    b: "step n Main_thread ?b = Inr s1" and c1: "cinv g n s1 []"
    and a1: "abs_state s1 [] = a_init g n" by blast
  have i1: "ainv g n (abs_state s1 [])" unfolding a1 by (rule ainv_init[OF G])
  have m1: "mu g n (abs_state s1 []) = 2 * n + 4 * num_edges g + 6"
    unfolding a1 by (rule mu_init)
  have v1: "visited s1 = replicate (length g) NOT_VISITED"
    using arg_cong[OF a1, of a_visited] by (simp add: abs_state_def a_init_def)
  have p1: "mpc s1 = M_exit \<longrightarrow> printed s1 = Some (sum_total s1)"
    using arg_cong[OF a1, of a_mpc] by (simp add: abs_state_def a_init_def)
  have mb: "mpc ?b = M_start" by (simp add: boot_def)
  have first: "th = Main_thread \<and> run n ths s1 = Inr s"
    if "run n (th # ths) ?b = Inr s" for th ths s
  proof (cases th)
    case (Worker w)
    with that show ?thesis by (simp add: boot_worker_blocked then_r_def)
  next
    case Main_thread
    with that b show ?thesis by (simp add: then_r_def)
  qed
  have ex: "\<exists>sched s. run n sched ?b = Inr s \<and> mpc s = M_exit"
  proof -
    from run_complete[OF c1 i1 G n] obtain sched s where
      "run n sched s1 = Inr s" "mpc s = M_exit" by blast
    with b have "run n (Main_thread # sched) ?b = Inr s \<and> mpc s = M_exit"
      by (simp add: then_r_def)
    then show ?thesis by blast
  qed
  have al: "length sched \<le> 2 * n + 4 * num_edges g + 7 \<and>
            (mpc s \<noteq> M_exit \<longrightarrow> (\<exists>th s'. step n th s = Inr s')) \<and>
            (mpc s = M_exit \<longrightarrow>
               (\<forall>v<length g. visited s ! v = (if v \<in> reachable g then DONE else NOT_VISITED)) \<and>
               (\<forall>v<length g. visits n v sched ?b = (if v \<in> reachable g then 1 else 0)) \<and>
               sum_total s = (\<Sum>v\<in>reachable g. info (g ! v)) \<and>
               printed s = Some (sum_total s))"
    if r: "run n sched ?b = Inr s" for sched s
  proof (cases sched)
    case Nil
    with r have s: "s = ?b" by simp
    from b have "\<exists>th s'. step n th ?b = Inr s'" by blast
    then show ?thesis by (simp add: Nil s mb)
  next
    case (Cons th ths)
    from first[OF r[unfolded Cons]] have th: "th = Main_thread" and r1: "run n ths s1 = Inr s"
      by simp_all
    from run_inv[OF c1 i1 G n r1] obtain q where c: "cinv g n s q"
      and a: "ainv g n (abs_state s q)"
      and l: "length ths + mu g n (abs_state s q) \<le> mu g n (abs_state s1 [])" by blast
    from l have len: "length sched \<le> 2 * n + 4 * num_edges g + 7" by (simp add: Cons m1)
    have pr: "\<exists>th s'. step n th s = Inr s'" if ne: "mpc s \<noteq> M_exit"
    proof -
      from ne have "a_mpc (abs_state s q) \<noteq> M_exit" by (simp add: abs_state_def)
      from ainv_progress[OF a this] obtain th' a' where
        "a_step g n th' (abs_state s q) = Some a'" by blast
      with step_sim[OF c a G, of th'] show ?thesis by auto
    qed
    have fin: "(\<forall>v<length g. visited s ! v = (if v \<in> reachable g then DONE else NOT_VISITED)) \<and>
               (\<forall>v<length g. visits n v sched ?b = (if v \<in> reachable g then 1 else 0)) \<and>
               sum_total s = (\<Sum>v\<in>reachable g. info (g ! v)) \<and>
               printed s = Some (sum_total s)" if e: "mpc s = M_exit"
    proof -
      note F = final_state[OF c a G e]
      have vs: "visits n v sched ?b = (if v \<in> reachable g then 1 else 0)"
        if v: "v < length g" for v
      proof -
        have "visits n v sched ?b = visits n v ths s1"
          using v by (simp add: Cons th b v1)
        moreover have "visits n v ths s1 + marked s1 v = marked s v"
          by (rule run_marks[OF c1 i1 G n r1 v])
        moreover have "marked s1 v = 0" using v by (simp add: marked_def v1)
        moreover have "marked s v = (if v \<in> reachable g then 1 else 0)"
          using F(1) v by (simp add: marked_def)
        ultimately show ?thesis by simp
      qed
      have "printed s = Some (sum_total s)"
        by (rule run_printed[OF c1 i1 G n r1 e p1])
      with F vs show ?thesis by blast
    qed
    from len pr fin show ?thesis by blast
  qed
  have ne: "e = Blocked" if r: "run n sched ?b = Inl e" for sched e
  proof (cases sched)
    case Nil
    with r show ?thesis by simp
  next
    case (Cons th ths)
    show ?thesis
    proof (cases th)
      case (Worker w)
      with r Cons show ?thesis by (simp add: boot_worker_blocked then_r_def)
    next
      case Main_thread
      with r Cons b have "run n ths s1 = Inl e" by (simp add: then_r_def)
      then show ?thesis by (rule run_no_error[OF c1 i1 G n])
    qed
  qed
  from ex al ne show ?thesis by blast
qed

lemma g0_nth:
  "g0 ! 0 = \<lparr>info = 10, neighbours = [1, 2]\<rparr>" "g0 ! 1 = \<lparr>info = 20, neighbours = [3]\<rparr>"
  "g0 ! 2 = \<lparr>info = 30, neighbours = [3, 0]\<rparr>" "g0 ! 3 = \<lparr>info = 40, neighbours = []\<rparr>"
  "g0 ! 4 = \<lparr>info = 99, neighbours = [0]\<rparr>" "length g0 = 5"
  "g0 ! Suc 0 = \<lparr>info = 20, neighbours = [3]\<rparr>"
  by (simp_all add: g0_def)

lemma lt5: "u < (5::nat) \<longleftrightarrow> u = 0 \<or> u = 1 \<or> u = 2 \<or> u = 3 \<or> u = 4"
  by arith

lemma g0_edges: "edges g0 = {(0, 1), (0, 2), (1, 3), (2, 3), (2, 0), (4, 0)}"
  unfolding edges_def g0_nth(6) lt5 by (auto simp: g0_nth)

lemma g0_wf: "wf_graph g0"
proof -
  have "num_edges g0 = 6"
    by (simp add: num_edges_def g0_nth lessThan_nat_numeral lessThan_Suc)
  moreover have "\<forall>u<length g0. \<forall>v\<in>set (neighbours (g0 ! u)). v < length g0"
    unfolding g0_nth(6) lt5 by (auto simp: g0_nth)
  ultimately show ?thesis by (simp add: wf_graph_def g0_nth)
qed

lemma g0_reachable: "reachable g0 = {0, 1, 2, 3}"
proof
  have "v \<in> {0, 1, 2, 3}" if "(0, v) \<in> (edges g0)\<^sup>*" for v
    using that by (induction rule: rtrancl_induct) (auto simp: g0_edges)
  then show "reachable g0 \<subseteq> {0, 1, 2, 3}" by (auto simp: reachable_def)
  have e: "(0, 1) \<in> edges g0" "(0, 2) \<in> edges g0" "(1, 3) \<in> edges g0"
    by (simp_all add: g0_edges)
  have "(0, 0) \<in> (edges g0)\<^sup>*" "(0, 1) \<in> (edges g0)\<^sup>*" "(0, 2) \<in> (edges g0)\<^sup>*"
    using e by auto
  moreover have "(0, 3) \<in> (edges g0)\<^sup>*"
    using e(1,3) by (meson rtrancl.rtrancl_into_rtrancl rtrancl.rtrancl_refl)
  ultimately show "{0, 1, 2, 3} \<subseteq> reachable g0" by (simp add: reachable_def)
qed

section \<open>Processing a node that is done\<close>

lemma mutex_relock:
  "mutex s m = None \<Longrightarrow> (mutex s)(m := None) = mutex s"
  by (metis fun_upd_triv)

lemma process_node_done_eq:
  assumes "uints s arg = Some idx" "idx < length (visited s)" "visited s ! idx = DONE"
  shows "process_node me arg s =
       (if mutex s Mutex_graph \<noteq> None then Inl Blocked
        else if rcs s (clock s) \<noteq> 0 then Inl (Fatal ''pthread_mutex_lock'')
        else if rcs s (Suc (clock s)) \<noteq> 0 then Inl (Fatal ''pthread_mutex_unlock'')
        else Inr (s\<lparr>lock_log := lock_log s @ [(me, Acquire Mutex_graph), (me, Release Mutex_graph)],
                    clock := clock s + 2\<rparr>))"
proof (cases "mutex s Mutex_graph")
  case (Some other)
  then show ?thesis using assms
    by (simp add: process_node_def process_node_visit_def pthread_mutex_lock_def then_r_def)
next
  case None
  note m = mutex_relock[OF None]
  show ?thesis using assms None
    by (simp add: process_node_def process_node_visit_def process_node_unlock_def
        pthread_mutex_lock_def pthread_mutex_unlock_def libc_call_def then_r_def DIE_def m)
qed

text \<open>
Claim C4. \<^verbatim>\<open>process_node\<close> called for a node that is already \<^verbatim>\<open>DONE\<close> takes the graph
  mutex and releases it, and that is all: the state it returns in differs from the state
  it was called in by the two lock events and the two library calls only, so the total,
  every visited flag, the queue and its count, the tasks and their arguments are as they
  were. It does not return only when the graph mutex is held by another thread (it waits)
  or when the lock or the unlock itself fails (\<^verbatim>\<open>DIE\<close>): the node being done is never an
  error. A worker that runs a task for such a node goes back to \<^verbatim>\<open>dequeue_task\<close>, having
  freed the task and its argument and changed nothing else.
\<close>

theorem process_node_done_noop:
  assumes "uints s arg = Some idx" "idx < length (visited s)" "visited s ! idx = DONE"
  shows "process_node me arg s =
       (if mutex s Mutex_graph \<noteq> None then Inl Blocked
        else if rcs s (clock s) \<noteq> 0 then Inl (Fatal ''pthread_mutex_lock'')
        else if rcs s (Suc (clock s)) \<noteq> 0 then Inl (Fatal ''pthread_mutex_unlock'')
        else Inr (s\<lparr>lock_log := lock_log s @ [(me, Acquire Mutex_graph), (me, Release Mutex_graph)],
                    clock := clock s + 2\<rparr>))
     \<and> (\<forall>s'. process_node me arg s = Inr s' \<longrightarrow>
           sum_total s' = sum_total s \<and> visited s' = visited s \<and> num_tasks s' = num_tasks s \<and>
           lnext s' = lnext s \<and> lprev s' = lprev s \<and> tasks s' = tasks s \<and> uints s' = uints s \<and>
           mutex s' = mutex s \<and> finished s' = finished s)
     \<and> (\<forall>w t. w < length (workers s) \<and> workers s ! w = W_action t \<and>
           tasks s t = Some \<lparr>argument = arg, action = Process_node,
                              destroy_arg = Some Free_function\<rparr> \<and>
           mutex s Mutex_graph = None \<and> rcs s (clock s) = 0 \<and> rcs s (Suc (clock s)) = 0 \<longrightarrow>
           (\<exists>s'. worker_step w s = Inr s' \<and> workers s' = (workers s)[w := W_dequeue] \<and>
              sum_total s' = sum_total s \<and> visited s' = visited s \<and>
              num_tasks s' = num_tasks s \<and> lnext s' = lnext s \<and> lprev s' = lprev s \<and>
              tasks s' = (tasks s)(t := None) \<and> uints s' = (uints s)(arg := None) \<and>
              mutex s' = mutex s))"
proof (intro conjI allI impI)
  note E = process_node_done_eq[OF assms, of me]
  show "process_node me arg s =
       (if mutex s Mutex_graph \<noteq> None then Inl Blocked
        else if rcs s (clock s) \<noteq> 0 then Inl (Fatal ''pthread_mutex_lock'')
        else if rcs s (Suc (clock s)) \<noteq> 0 then Inl (Fatal ''pthread_mutex_unlock'')
        else Inr (s\<lparr>lock_log := lock_log s @ [(me, Acquire Mutex_graph), (me, Release Mutex_graph)],
                    clock := clock s + 2\<rparr>))" by (rule E)
  fix s' assume r: "process_node me arg s = Inr s'"
  from r E have s': "s' = s\<lparr>lock_log := lock_log s @ [(me, Acquire Mutex_graph),
      (me, Release Mutex_graph)], clock := clock s + 2\<rparr>"
    by (simp split: if_splits)
  show "sum_total s' = sum_total s" "visited s' = visited s" "num_tasks s' = num_tasks s"
    "lnext s' = lnext s" "lprev s' = lprev s" "tasks s' = tasks s" "uints s' = uints s"
    "mutex s' = mutex s" "finished s' = finished s"
    by (simp_all add: s')
next
  fix w t
  assume a: "w < length (workers s) \<and> workers s ! w = W_action t \<and>
           tasks s t = Some \<lparr>argument = arg, action = Process_node,
                              destroy_arg = Some Free_function\<rparr> \<and>
           mutex s Mutex_graph = None \<and> rcs s (clock s) = 0 \<and> rcs s (Suc (clock s)) = 0"
  then have w: "w < length (workers s)" and pc: "workers s ! w = W_action t"
    and tk: "tasks s t = Some \<lparr>argument = arg, action = Process_node,
                              destroy_arg = Some Free_function\<rparr>"
    and fr: "mutex s Mutex_graph = None" and r0: "rcs s (clock s) = 0"
    and r1: "rcs s (Suc (clock s)) = 0" by simp_all
  note m = mutex_relock[OF fr]
  define s' where "s' = set_worker w W_dequeue
     (s\<lparr>lock_log := lock_log s @ [(Worker w, Acquire Mutex_graph), (Worker w, Release Mutex_graph)],
        clock := clock s + 2, tasks := (tasks s)(t := None), uints := (uints s)(arg := None)\<rparr>)"
  have st: "worker_step w s = Inr s'"
    using assms w pc tk fr r0 r1
    by (simp add: worker_step_def process_node_visit_def process_node_unlock_def
        pthread_mutex_lock_def pthread_mutex_unlock_def libc_call_def then_r_def DIE_def m
        destroy_task_def call_destroy_arg_def free_function_def free_uint_def free_task_def
        s'_def set_worker_def domIff)
  have "workers s' = (workers s)[w := W_dequeue]" "sum_total s' = sum_total s"
    "visited s' = visited s" "num_tasks s' = num_tasks s" "lnext s' = lnext s"
    "lprev s' = lprev s" "tasks s' = (tasks s)(t := None)" "uints s' = (uints s)(arg := None)"
    "mutex s' = mutex s"
    by (simp_all add: s'_def set_worker_def)
  with st show "\<exists>s'. worker_step w s = Inr s' \<and> workers s' = (workers s)[w := W_dequeue] \<and>
              sum_total s' = sum_total s \<and> visited s' = visited s \<and>
              num_tasks s' = num_tasks s \<and> lnext s' = lnext s \<and> lprev s' = lprev s \<and>
              tasks s' = (tasks s)(t := None) \<and> uints s' = (uints s)(arg := None) \<and>
              mutex s' = mutex s" by blast
qed

theorem process_node_done_noop_witness:
  "visited seen_node ! 0 = DONE \<and>
   (\<exists>s'. process_node (Worker 0) 2 seen_node = Inr s' \<and> sum_total s' = 5 \<and>
      visited s' = [DONE] \<and> num_tasks s' = 0 \<and> lnext s' Head = Head \<and>
      mutex s' Mutex_graph = None \<and>
      lock_log s' = [(Worker 0, Acquire Mutex_graph), (Worker 0, Release Mutex_graph)]) \<and>
   (\<exists>s'. worker_step 0 seen_node = Inr s' \<and> workers s' = [W_dequeue] \<and> sum_total s' = 5 \<and>
      visited s' = [DONE] \<and> num_tasks s' = 0 \<and> tasks s' 3 = None \<and> uints s' 2 = None)"
proof -
  have h: "uints seen_node 2 = Some 0" "0 < length (visited seen_node)"
    "visited seen_node ! 0 = DONE"
    by (simp_all add: seen_node_def boot_def)
  have f: "mutex seen_node Mutex_graph = None" "rcs seen_node (clock seen_node) = 0"
    "rcs seen_node (Suc (clock seen_node)) = 0" "sum_total seen_node = 5"
    "visited seen_node = [DONE]" "num_tasks seen_node = 0" "lnext seen_node Head = Head"
    "lock_log seen_node = []" "workers seen_node = [W_action 3]"
    "tasks seen_node 3 = Some \<lparr>argument = 2, action = Process_node,
        destroy_arg = Some Free_function\<rparr>"
    by (simp_all add: seen_node_def boot_def)
  note T = process_node_done_noop[OF h, of "Worker 0"]
  from T[THEN conjunct1] obtain s1 where
    s1: "process_node (Worker 0) 2 seen_node = Inr s1"
    and l1: "lock_log s1 = [(Worker 0, Acquire Mutex_graph), (Worker 0, Release Mutex_graph)]"
    by (simp add: f)
  from T[THEN conjunct2, THEN conjunct1, rule_format, OF s1]
  have p1: "sum_total s1 = 5" "visited s1 = [DONE]" "num_tasks s1 = 0" "lnext s1 Head = Head"
    "mutex s1 Mutex_graph = None"
    by (simp_all add: f)
  have "\<exists>s'. worker_step 0 seen_node = Inr s' \<and>
      workers s' = (workers seen_node)[0 := W_dequeue] \<and>
      sum_total s' = sum_total seen_node \<and> visited s' = visited seen_node \<and>
      num_tasks s' = num_tasks seen_node \<and> lnext s' = lnext seen_node \<and>
      lprev s' = lprev seen_node \<and>
      tasks s' = (tasks seen_node)(3 := None) \<and> uints s' = (uints seen_node)(2 := None) \<and>
      mutex s' = mutex seen_node"
    by (rule T[THEN conjunct2, THEN conjunct2, rule_format]) (simp add: f)
  then obtain s2 where "worker_step 0 seen_node = Inr s2" "workers s2 = [W_dequeue]"
    "sum_total s2 = 5" "visited s2 = [DONE]" "num_tasks s2 = 0" "tasks s2 3 = None"
    "uints s2 2 = None"
    by (auto simp: f)
  with s1 l1 p1 h(3) show ?thesis by blast
qed

section \<open>The seed\<close>

lemma queue_inv_count:
  assumes "queue_inv s q"
  shows "num_tasks s = of_nat (length q)"
proof -
  have "word_of_nat (unat (num_tasks s)) = num_tasks s" by simp
  with assms show ?thesis by (simp add: queue_inv_def)
qed

lemma map_eq_length: "map f xs = map h ys \<Longrightarrow> length xs = length ys"
  by (metis length_map)

lemma word_succ_neq: "(x :: 32 word) \<noteq> x + 1"
  by simp

lemma main_step_submitted:
  assumes C: "cinv g n s q" and A: "ainv g n (abs_state s q)" and G: "wf_graph g"
    and n: "0 < n" and st: "step n Main_thread s = Inr s1"
  shows "submitted s s1 = (if mpc s = M_seed then [0] else [])"
    and "mpc s = M_seed \<Longrightarrow> mpc s1 \<noteq> M_seed"
    and "mpc s \<noteq> M_seed \<Longrightarrow> mpc s1 \<noteq> M_seed"
proof -
  from step_inv[OF C A G n st] obtain q1 where c1: "cinv g n s1 q1"
    and as: "a_step g n Main_thread (abs_state s q) = Some (abs_state s1 q1)" by blast
  then have ms: "a_main_step g n (abs_state s q) = Some (abs_state s1 q1)"
    by (simp add: a_step_def)
  note Q = cinv_D(7)[OF C] and Q1 = cinv_D(7)[OF c1]
  have am: "a_mpc (abs_state s q) = mpc s" "a_mpc (abs_state s1 q1) = mpc s1"
    by (simp_all add: abs_state_def)
  have aq: "a_queue (abs_state s q) = map (idx_of s) q"
    "a_queue (abs_state s1 q1) = map (idx_of s1) q1"
    by (simp_all add: abs_state_def)
  from ms have
    "submitted s s1 = (if mpc s = M_seed then [0] else []) \<and>
     (mpc s = M_seed \<longrightarrow> mpc s1 \<noteq> M_seed) \<and> (mpc s \<noteq> M_seed \<longrightarrow> mpc s1 \<noteq> M_seed)"
  proof (cases rule: a_main_step_cases)
    case seed
    from arg_cong[OF seed(2), of a_queue] have e: "map (idx_of s1) q1 = map (idx_of s) q @ [0]"
      by (simp add: aq)
    from arg_cong[OF e, of length] have l: "length q1 = Suc (length q)" by simp
    then obtain xs x where q1: "q1 = xs @ [x]" by (cases q1 rule: rev_cases) auto
    from e q1 have x: "idx_of s1 x = 0" by simp
    from Q1 q1 have "linked s1 (xs @ [x])" by (simp add: queue_inv_def)
    from linked_pop(1)[OF this] have lp: "lprev s1 Head = Task_node x" .
    have nt: "num_tasks s1 = num_tasks s + 1"
      by (simp add: queue_inv_count[OF Q] queue_inv_count[OF Q1] l)
    from arg_cong[OF seed(2), of a_mpc] have "mpc s1 = M_wait" by (simp add: am)
    with seed(1) nt lp x show ?thesis by (simp add: submitted_def am)
  next
    case wait
    from arg_cong[OF wait(2), of a_queue] have "map (idx_of s1) q1 = map (idx_of s) q"
      by (simp add: aq)
    then have "length q1 = length q" by (rule map_eq_length)
    then have "num_tasks s1 = num_tasks s"
      by (simp add: queue_inv_count[OF Q] queue_inv_count[OF Q1])
    moreover from arg_cong[OF wait(2), of a_mpc] have "mpc s1 = M_join 0" by (simp add: am)
    ultimately show ?thesis using wait(1) by (simp add: submitted_def am)
  next
    case (join i)
    from arg_cong[OF join(4), of a_queue] have "map (idx_of s1) q1 = map (idx_of s) q"
      by (simp add: aq)
    then have "length q1 = length q" by (rule map_eq_length)
    then have "num_tasks s1 = num_tasks s"
      by (simp add: queue_inv_count[OF Q] queue_inv_count[OF Q1])
    moreover from arg_cong[OF join(4), of a_mpc] have "mpc s1 = M_join (Suc i)"
      by (simp add: am)
    ultimately show ?thesis using join(1) by (simp add: submitted_def am)
  next
    case (finish i)
    from arg_cong[OF finish(3), of a_queue] have "map (idx_of s1) q1 = map (idx_of s) q"
      by (simp add: aq)
    then have "length q1 = length q" by (rule map_eq_length)
    then have "num_tasks s1 = num_tasks s"
      by (simp add: queue_inv_count[OF Q] queue_inv_count[OF Q1])
    moreover from arg_cong[OF finish(3), of a_mpc] have "mpc s1 = M_exit" by (simp add: am)
    ultimately show ?thesis using finish(1) by (simp add: submitted_def am)
  qed
  then show "submitted s s1 = (if mpc s = M_seed then [0] else [])"
    and "mpc s = M_seed \<Longrightarrow> mpc s1 \<noteq> M_seed"
    and "mpc s \<noteq> M_seed \<Longrightarrow> mpc s1 \<noteq> M_seed" by blast+
qed

lemma worker_step_mpc:
  assumes C: "cinv g n s q" and A: "ainv g n (abs_state s q)" and G: "wf_graph g"
    and n: "0 < n" and st: "step n (Worker w) s = Inr s1"
  shows "mpc s1 = mpc s"
proof -
  from step_inv[OF C A G n st] obtain q1 where
    as: "a_step g n (Worker w) (abs_state s q) = Some (abs_state s1 q1)" by blast
  then have "a_worker_step g w (abs_state s q) = Some (abs_state s1 q1)"
    by (simp add: a_step_def)
  from a_worker_step_frame[OF this] show ?thesis by (simp add: abs_state_def)
qed

lemma run_submissions:
  assumes "cinv g n s q" "ainv g n (abs_state s q)" "wf_graph g" "0 < n"
    "run n sched s = Inr s'"
  shows "submissions n Main_thread sched s = (if mpc s = M_seed \<and> mpc s' \<noteq> M_seed then [0] else [])
       \<and> (mpc s \<noteq> M_seed \<longrightarrow> mpc s' \<noteq> M_seed)"
  using assms
proof (induction sched arbitrary: s q)
  case Nil
  then show ?case by simp
next
  case (Cons th ths)
  from Cons.prems(5) obtain s1 where st: "step n th s = Inr s1" and r: "run n ths s1 = Inr s'"
    by (rule run_Cons_Inr)
  from step_inv[OF Cons.prems(1-4) st] obtain q1 where
    c1: "cinv g n s1 q1" and a1: "ainv g n (abs_state s1 q1)" by blast
  note IH = Cons.IH[OF c1 a1 Cons.prems(3,4) r]
  have e: "submissions n Main_thread (th # ths) s =
      (if th = Main_thread then submitted s s1 else []) @ submissions n Main_thread ths s1"
    by (simp add: st)
  show ?case
  proof (cases th)
    case (Worker w)
    from st Worker have "step n (Worker w) s = Inr s1" by simp
    from worker_step_mpc[OF Cons.prems(1-4) this] have m: "mpc s1 = mpc s" .
    from IH show ?thesis unfolding e by (simp add: Worker m)
  next
    case Main_thread
    from st Main_thread have st': "step n Main_thread s = Inr s1" by simp
    note M = main_step_submitted[OF Cons.prems(1-4) st']
    show ?thesis
    proof (cases "mpc s = M_seed")
      case True
      from M(2)[OF True] have "mpc s1 \<noteq> M_seed" .
      with IH M(1) True show ?thesis unfolding e by (simp add: Main_thread)
    next
      case False
      from M(3)[OF False] have "mpc s1 \<noteq> M_seed" .
      with IH M(1) False show ?thesis unfolding e by (simp add: Main_thread)
    qed
  qed
qed

lemma unreachable_unvisited:
  assumes C: "cinv g n s q" and A: "ainv g n (abs_state s q)" and v: "v < length g"
    and u: "v \<notin> reachable g"
  shows "visited s ! v = NOT_VISITED"
proof -
  from ainv_D(2)[OF A] have "done_nodes g (abs_state s q) \<subseteq> reachable g"
    by (simp add: ainv_reach_def)
  with u have "v \<notin> done_nodes g (abs_state s q)" by blast
  with v have "visited s ! v \<noteq> DONE" by (simp add: done_nodes_def abs_state_def)
  then show ?thesis by (cases "visited s ! v") simp_all
qed

lemma complete_run_exists:
  assumes G: "wf_graph g" and lv: "length vs = length g" and n: "0 < n"
  shows "\<exists>sched s. run n sched (boot (\<lambda>i. 0) g vs) = Inr s \<and> mpc s = M_exit"
proof -
  from boot_step[OF lv, of n] obtain s1 where
    b: "step n Main_thread (boot (\<lambda>i. 0) g vs) = Inr s1" and c1: "cinv g n s1 []"
    and a1: "abs_state s1 [] = a_init g n" by blast
  have i1: "ainv g n (abs_state s1 [])" unfolding a1 by (rule ainv_init[OF G])
  from run_complete[OF c1 i1 G n] obtain sched s where
    "run n sched s1 = Inr s" "mpc s = M_exit" by blast
  with b have "run n (Main_thread # sched) (boot (\<lambda>i. 0) g vs) = Inr s \<and> mpc s = M_exit"
    by (simp add: then_r_def)
  then show ?thesis by blast
qed

text \<open>
Claim C9. Whatever the graph and the number of workers, when no library call fails
  the first two steps of \<^verbatim>\<open>main\<close> return, and after them the queue holds exactly one
  task, \<^verbatim>\<open>process_node\<close> with \<^verbatim>\<open>free_function\<close>, whose argument cell holds 0. On a graph
  the traversal is defined on, in every run the steps of \<^verbatim>\<open>main\<close> have submitted
  nothing up to the seed and the one task for node 0 from then on, so \<^verbatim>\<open>main\<close> submits
  no other task; and once the visited array is initialised, a node that is not reachable
  from node 0 is \<^verbatim>\<open>NOT_VISITED\<close> in every state of every run, its last state included.
\<close>

theorem seed_is_node_zero:
  assumes lv: "length vs = length g"
  shows "(\<exists>s1 s2 t a. step n Main_thread (boot (\<lambda>i. 0) g vs) = Inr s1 \<and> mpc s1 = M_seed \<and>
            queue_inv s1 [] \<and> step n Main_thread s1 = Inr s2 \<and> mpc s2 = M_wait \<and>
            queue_inv s2 [t] \<and>
            tasks s2 t = Some \<lparr>argument = a, action = Process_node,
                                destroy_arg = Some Free_function\<rparr> \<and>
            uints s2 a = Some 0)
       \<and> (wf_graph g \<and> 0 < n \<longrightarrow>
            (\<forall>sched s. run n sched (boot (\<lambda>i. 0) g vs) = Inr s \<longrightarrow>
               submissions n Main_thread sched (boot (\<lambda>i. 0) g vs)
                 = (if mpc s = M_start \<or> mpc s = M_seed then [] else [0]) \<and>
               (mpc s \<noteq> M_start \<longrightarrow>
                  (\<forall>v<length g. v \<notin> reachable g \<longrightarrow> visited s ! v = NOT_VISITED))))"
proof (intro conjI impI allI)
  let ?b = "boot (\<lambda>i. 0) g vs"
  from boot_step[OF lv, of n] obtain s1 where
    b: "step n Main_thread ?b = Inr s1" and c1: "cinv g n s1 []"
    and a1: "abs_state s1 [] = a_init g n" by blast
  from arg_cong[OF a1, of a_mpc] have m1: "mpc s1 = M_seed"
    by (simp add: abs_state_def a_init_def)
  from sim_seed[OF c1 m1 refl] obtain s2 q2 where
    st: "main_step n s1 = Inr s2" and c2: "cinv g n s2 q2"
    and a2: "abs_state s2 q2 = (abs_state s1 [])\<lparr>a_queue := a_queue (abs_state s1 []) @ [0],
              a_mpc := M_wait\<rparr>" by blast
  from arg_cong[OF a2, of a_queue] have e: "map (idx_of s2) q2 = [0]"
    by (simp add: abs_state_def)
  then obtain t where q2: "q2 = [t]" and i: "idx_of s2 t = 0" by auto
  from arg_cong[OF a2, of a_mpc] have m2: "mpc s2 = M_wait" by (simp add: abs_state_def)
  have "t \<in> pending s2 q2" by (simp add: pending_def q2)
  from cinv_heap_pending_lt(3)[OF cinv_D(9)[OF c2] this] obtain a v where
    tk: "tasks s2 t = Some \<lparr>argument = a, action = Process_node,
            destroy_arg = Some Free_function\<rparr>" and ua: "uints s2 a = Some v"
    unfolding valid_task_def by blast
  from i tk ua have "v = 0" by (simp add: idx_of_def)
  with ua have u0: "uints s2 a = Some 0" by simp
  from st have st': "step n Main_thread s1 = Inr s2" by (simp add: step_def)
  from b m1 cinv_D(7)[OF c1] st' m2 cinv_D(7)[OF c2, unfolded q2] tk u0
  show "\<exists>s1 s2 t a. step n Main_thread ?b = Inr s1 \<and> mpc s1 = M_seed \<and>
            queue_inv s1 [] \<and> step n Main_thread s1 = Inr s2 \<and> mpc s2 = M_wait \<and>
            queue_inv s2 [t] \<and>
            tasks s2 t = Some \<lparr>argument = a, action = Process_node,
                                destroy_arg = Some Free_function\<rparr> \<and>
            uints s2 a = Some 0" by blast
next
  fix sched s
  let ?b = "boot (\<lambda>i. 0) g vs"
  assume h: "wf_graph g \<and> 0 < n" and r: "run n sched ?b = Inr s"
  then have G: "wf_graph g" and n: "0 < n" by simp_all
  from boot_step[OF lv, of n] obtain s1 where
    b: "step n Main_thread ?b = Inr s1" and c1: "cinv g n s1 []"
    and a1: "abs_state s1 [] = a_init g n" by blast
  have i1: "ainv g n (abs_state s1 [])" unfolding a1 by (rule ainv_init[OF G])
  from arg_cong[OF a1, of a_mpc] have m1: "mpc s1 = M_seed"
    by (simp add: abs_state_def a_init_def)
  have nb: "num_tasks ?b = 0" "mpc ?b = M_start" by (simp_all add: boot_def)
  have n1: "num_tasks s1 = 0" using queue_inv_count[OF cinv_D(7)[OF c1]] by simp
  have sb: "submitted ?b s1 = []" by (simp add: submitted_def nb n1)
  have "submissions n Main_thread sched ?b
                 = (if mpc s = M_start \<or> mpc s = M_seed then [] else [0]) \<and>
               (mpc s \<noteq> M_start \<longrightarrow>
                  (\<forall>v<length g. v \<notin> reachable g \<longrightarrow> visited s ! v = NOT_VISITED))"
  proof (cases sched)
    case Nil
    with r have "s = ?b" by simp
    then show ?thesis by (simp add: Nil nb)
  next
    case (Cons th ths)
    have th: "th = Main_thread"
    proof (cases th)
      case (Worker w)
      with r Cons show ?thesis by (simp add: boot_worker_blocked then_r_def)
    qed simp
    from r Cons th b have r1: "run n ths s1 = Inr s" by (simp add: then_r_def)
    from run_inv[OF c1 i1 G n r1] obtain q where c: "cinv g n s q"
      and a: "ainv g n (abs_state s q)" by blast
    from ainv_D(6)[OF a] have ns: "mpc s \<noteq> M_start" by (simp add: ainv_ctl_def abs_state_def)
    note S = run_submissions[OF c1 i1 G n r1, THEN conjunct1]
    have "submissions n Main_thread sched ?b = submissions n Main_thread ths s1"
      by (simp add: Cons th b sb)
    with S m1 ns have 1: "submissions n Main_thread sched ?b
        = (if mpc s = M_start \<or> mpc s = M_seed then [] else [0])" by simp
    have 2: "\<forall>v<length g. v \<notin> reachable g \<longrightarrow> visited s ! v = NOT_VISITED"
      using unreachable_unvisited[OF c a] by blast
    from 1 2 show ?thesis by blast
  qed
  then show "submissions n Main_thread sched ?b
                 = (if mpc s = M_start \<or> mpc s = M_seed then [] else [0])"
    and "\<And>v. mpc s \<noteq> M_start \<Longrightarrow> v < length g \<Longrightarrow> v \<notin> reachable g \<Longrightarrow> visited s ! v = NOT_VISITED"
    by blast+
qed

section \<open>The order of the locks\<close>

lemma worker_step_log:
  assumes C: "cinv g n s q" and A: "ainv g n (abs_state s q)" and G: "wf_graph g"
    and st: "worker_step w s = Inr s'"
  shows "lock_log s' = lock_log s @ worker_events w s"
proof -
  from st have w: "w < length (workers s)"
    by (cases "w < length (workers s)") (simp_all add: worker_step_def)
  note D = cinv_D[OF C]
  let ?a = "abs_state s q"
  have wa: "w < length (a_workers ?a)" using w by (simp add: abs_state_def)
  have aw: "a_workers ?a ! w = apc_of s (workers s ! w)" by (rule abs_worker_nth[OF w])
  have lv: "length (visited s) = length g"
    using ainv_D(1)[OF A] by (simp add: ainv_shape_def abs_state_def)
  have ok: "apc_ok g ?a (apc_of s (workers s ! w))"
    using ainv_worker_ok[OF A wa] by (simp only: aw)
  show ?thesis
  proof (cases "workers s ! w")
    case W_dequeue
    show ?thesis
    proof (cases q rule: rev_cases)
      case Nil
      from D(7) Nil have e: "num_tasks s = 0" "queue_is_empty s"
        by (simp_all add: queue_inv_empty)
      show ?thesis
      proof (cases "finished s")
        case True
        have d: "dequeue_task (Worker w) s = Inr (None,
            s\<lparr>lock_log := lock_log s @ [(Worker w, Acquire Mutex_queue),
                 (Worker w, Release Mutex_queue)], clock := clock s + 2\<rparr>)"
          by (rule dequeue_task_null[OF D(1,6) _ e(1)]) (simp add: True)
        from st have "s' = set_worker w W_exited
            (s\<lparr>lock_log := lock_log s @ [(Worker w, Acquire Mutex_queue),
                 (Worker w, Release Mutex_queue)], clock := clock s + 2\<rparr>)"
          by (simp add: worker_step_def w W_dequeue d then_r_def)
        then show ?thesis
          by (simp add: worker_events_def W_dequeue queue_events_def set_worker_def)
      next
        case False
        from dequeue_task_wait[OF D(1,6) e(2) False, of "Worker w"] st show ?thesis
          by (simp add: worker_step_def w W_dequeue then_r_def)
      qed
    next
      case (snoc xs x)
      note P = queue_inv_pop[OF D(7)[unfolded snoc]]
      have d: "dequeue_task (Worker w) s = Inr (Some x,
          s\<lparr>num_tasks := num_tasks s - 1,
            lnext := (lnext s)(lprev s (Task_node x) := lnext s (Task_node x)),
            lprev := (lprev s)(lnext s (Task_node x) := lprev s (Task_node x)),
            lock_log := lock_log s @ [(Worker w, Acquire Mutex_queue),
               (Worker w, Release Mutex_queue)],
            clock := clock s + 2\<rparr>)"
        by (rule dequeue_task_some[OF D(1,6) _ P(2) P(1)]) (simp add: P(3))
      from st have "s' = set_worker w (W_action x)
          (s\<lparr>num_tasks := num_tasks s - 1,
            lnext := (lnext s)(lprev s (Task_node x) := lnext s (Task_node x)),
            lprev := (lprev s)(lnext s (Task_node x) := lprev s (Task_node x)),
            lock_log := lock_log s @ [(Worker w, Acquire Mutex_queue),
               (Worker w, Release Mutex_queue)],
            clock := clock s + 2\<rparr>)"
        by (simp add: worker_step_def w W_dequeue d then_r_def)
      then show ?thesis
        by (simp add: worker_events_def W_dequeue queue_events_def set_worker_def)
    qed
  next
    case (W_action t)
    have ht: "held_task (workers s ! w) = Some t" by (simp add: W_action)
    from held_valid[OF D(9) w ht] obtain a where
      tk: "tasks s t = Some \<lparr>argument = a, action = Process_node,
              destroy_arg = Some Free_function\<rparr>"
      and ua: "uints s a = Some (idx_of s t)" by auto
    have "idx_of s t \<in> reachable g" using ok by (simp add: W_action)
    then have il: "idx_of s t < length g" by (rule reachable_lt[OF G])
    show ?thesis
    proof (cases "mutex s Mutex_graph")
      case (Some other)
      from process_node_visit_blocked[OF ua Some, of "Worker w"] st show ?thesis
        by (simp add: worker_step_def w W_action tk then_r_def)
    next
      case None
      show ?thesis
      proof (cases "visited s ! idx_of s t = NOT_VISITED")
        case True
        have v: "process_node_visit (Worker w) a s = Inr ((idx_of s t, True),
            s\<lparr>sum_total := sum_total s + info (nodes s ! idx_of s t),
              visited := (visited s)[idx_of s t := DONE],
              mutex := (mutex s)(Mutex_graph := Some (Worker w)),
              lock_log := lock_log s @ [(Worker w, Acquire Mutex_graph)],
              clock := Suc (clock s)\<rparr>)"
          by (rule process_node_visit_fresh[OF D(1) ua None _ True])
             (simp_all add: lv il D(2))
        from st have "s' = set_worker w (W_loop t (idx_of s t) 0)
            (s\<lparr>sum_total := sum_total s + info (nodes s ! idx_of s t),
              visited := (visited s)[idx_of s t := DONE],
              mutex := (mutex s)(Mutex_graph := Some (Worker w)),
              lock_log := lock_log s @ [(Worker w, Acquire Mutex_graph)],
              clock := Suc (clock s)\<rparr>)"
          by (simp add: worker_step_def w W_action tk v then_r_def)
        then show ?thesis
          by (simp add: worker_events_def W_action True set_worker_def)
      next
        case False
        define s1 where "s1 = s\<lparr>mutex := (mutex s)(Mutex_graph := Some (Worker w)),
            lock_log := lock_log s @ [(Worker w, Acquire Mutex_graph)],
            clock := Suc (clock s)\<rparr>"
        define s2 where "s2 = s1\<lparr>mutex := (mutex s1)(Mutex_graph := None),
            lock_log := lock_log s1 @ [(Worker w, Release Mutex_graph)],
            clock := Suc (clock s1)\<rparr>"
        define s3 where "s3 = s2\<lparr>tasks := (tasks s2)(t := None),
            uints := (uints s2)(a := None)\<rparr>"
        have v: "process_node_visit (Worker w) a s = Inr ((idx_of s t, False), s1)"
          unfolding s1_def
          by (rule process_node_visit_done[OF D(1) ua None _ False]) (simp add: lv il)
        have ok1: "calls_ok s1" "mutex s1 Mutex_graph = Some (Worker w)"
          using D(1) by (simp_all add: s1_def calls_ok_def)
        have u: "process_node_unlock (Worker w) s1 = Inr s2"
          unfolding s2_def by (rule process_node_unlock_ok[OF ok1])
        have tk2: "tasks s2 t = Some \<lparr>argument = a, action = Process_node,
            destroy_arg = Some Free_function\<rparr>" "uints s2 a = Some (idx_of s t)"
          using tk ua by (simp_all add: s2_def s1_def)
        have dt: "destroy_task t s2 = Inr s3"
          unfolding s3_def by (rule destroy_task_ok[OF tk2])
        from st have "s' = set_worker w W_dequeue s3"
          by (simp add: worker_step_def w W_action tk v u dt then_r_def)
        then show ?thesis
          by (simp add: worker_events_def W_action False set_worker_def s3_def s2_def s1_def)
      qed
    qed
  next
    case (W_loop t idx i)
    have ht: "held_task (workers s ! w) = Some t" by (simp add: W_loop)
    from held_valid[OF D(9) w ht] obtain a where
      tk: "tasks s t = Some \<lparr>argument = a, action = Process_node,
              destroy_arg = Some Free_function\<rparr>"
      and ua: "uints s a = Some (idx_of s t)" by auto
    have "idx \<in> reachable g" using ok by (simp add: W_loop)
    then have il: "idx < length g" by (rule reachable_lt[OF G])
    show ?thesis
    proof (cases "i < length (neighbours (g ! idx))")
      case i: True
      then have "i < deg g idx" by (simp add: deg_def)
      from neighbour_lt[OF G il this]
      have nl: "neighbours (g ! idx) ! i < length (visited s)" by (simp add: lv)
      show ?thesis
      proof (cases "visited s ! (neighbours (g ! idx) ! i) = NOT_VISITED")
        case True
        have nb: "process_node_neighbour (Worker w) idx i s =
           Inr (s\<lparr>num_tasks := num_tasks s + 1,
                  lnext := (lnext s)(lprev s Head := Task_node (Suc (brk s)),
                                     Task_node (Suc (brk s)) := Head),
                  lprev := (lprev s)(Task_node (Suc (brk s)) := lprev s Head,
                                     Head := Task_node (Suc (brk s))),
                  tasks := (tasks s)(Suc (brk s) \<mapsto>
                     \<lparr>argument = brk s, action = Process_node,
                        destroy_arg = Some Free_function\<rparr>),
                  uints := (uints s)(brk s \<mapsto> neighbours (nodes s ! idx) ! i),
                  brk := Suc (Suc (brk s)),
                  lock_log := lock_log s @ [(Worker w, Acquire Mutex_queue),
                     (Worker w, Release Mutex_queue)],
                  clock := clock s + 5\<rparr>)"
          by (rule process_node_neighbour_new[OF D(1) D(6)]) (use il i nl True D(2) in simp_all)
        from st i have "lock_log s' = lock_log s @ [(Worker w, Acquire Mutex_queue),
                     (Worker w, Release Mutex_queue)]"
          by (auto simp add: worker_step_def w W_loop nb then_r_def D(2) set_worker_def)
        then show ?thesis
          using i True by (simp add: worker_events_def W_loop queue_events_def D(2))
      next
        case False
        have nb: "process_node_neighbour (Worker w) idx i s = Inr s"
          by (rule process_node_neighbour_skip) (use il i nl False D(2) in simp_all)
        from st i have "lock_log s' = lock_log s"
          by (auto simp add: worker_step_def w W_loop nb then_r_def D(2) set_worker_def)
        then show ?thesis
          using i False by (simp add: worker_events_def W_loop D(2))
      qed
    next
      case False
      have own: "mutex s Mutex_graph = Some (Worker w)"
        by (rule cinv_mutex_owner[OF D(8) w]) (simp add: W_loop)
      define s2 where "s2 = s\<lparr>mutex := (mutex s)(Mutex_graph := None),
            lock_log := lock_log s @ [(Worker w, Release Mutex_graph)],
            clock := Suc (clock s)\<rparr>"
      define s3 where "s3 = s2\<lparr>tasks := (tasks s2)(t := None),
            uints := (uints s2)(a := None)\<rparr>"
      have u: "process_node_unlock (Worker w) s = Inr s2"
        unfolding s2_def by (rule process_node_unlock_ok[OF D(1) own])
      have tk2: "tasks s2 t = Some \<lparr>argument = a, action = Process_node,
          destroy_arg = Some Free_function\<rparr>" "uints s2 a = Some (idx_of s t)"
        using tk ua by (simp_all add: s2_def)
      have dt: "destroy_task t s2 = Inr s3"
        unfolding s3_def by (rule destroy_task_ok[OF tk2])
      from st False have "s' = set_worker w W_dequeue s3"
        by (simp add: worker_step_def w W_loop u dt then_r_def D(2))
      then show ?thesis
        using False by (simp add: worker_events_def W_loop set_worker_def s3_def s2_def D(2))
    qed
  next
    case W_exited
    with st w show ?thesis by (simp add: worker_step_def)
  qed
qed

lemma main_step_log:
  assumes C: "cinv g n s q" and A: "ainv g n (abs_state s q)"
    and st: "main_step n s = Inr s'"
  shows "lock_log s' = lock_log s @ main_events s"
proof -
  note D = cinv_D[OF C]
  note K = ainv_D(6)[OF A, unfolded ainv_ctl_def]
  have am: "a_mpc (abs_state s q) = mpc s" by (simp add: abs_state_def)
  have aq: "a_queue (abs_state s q) = [] \<longleftrightarrow> q = []" by (simp add: abs_state_def)
  show ?thesis
  proof (cases "mpc s")
    case M_start
    with K am show ?thesis by simp
  next
    case M_seed
    from st show ?thesis
      by (auto simp add: main_step_def M_seed main_seed_ok[OF D(1) D(6)] then_r_def
          main_events_def queue_events_def)
  next
    case M_wait
    from st show ?thesis
      by (auto simp add: main_step_def M_wait wait_for_completion_signal_ok[OF D(1) D(6)]
          then_r_def main_events_def queue_events_def)
  next
    case (M_join i)
    show ?thesis
    proof (cases "i < n")
      case i: True
      have t: "i < length (threads s)" "threads s ! i = Some i" "i < length (workers s)"
        using i by (simp_all add: D(4,5))
      show ?thesis
      proof (cases "workers s ! i = W_exited")
        case True
        from st i show ?thesis
          by (auto simp add: main_step_def M_join D(3)
              wait_for_completion_join_ok[OF D(1) t True] then_r_def main_events_def)
      next
        case False
        from st i show ?thesis
          by (simp add: main_step_def M_join D(3)
              wait_for_completion_join_blocked[OF t False] then_r_def)
      qed
    next
      case i: False
      from K am M_join have "i \<le> n" "\<forall>j<i. a_workers (abs_state s q) ! j = A_exited"
        by simp_all
      with i have "\<forall>j<n. a_workers (abs_state s q) ! j = A_exited" by simp
      with K have "a_queue (abs_state s q) = []" by blast
      then have q: "q = []" by (simp add: aq)
      have h: "lnext s Head = Head" by (rule queue_inv_empty(3)) (use D(7) q in simp)
      from st i show ?thesis
        by (auto simp add: main_step_def M_join D(3) main_finish_ok[OF D(1) h] then_r_def
            main_events_def)
    qed
  next
    case M_exit
    with st show ?thesis by (simp add: main_step_def)
  qed
qed

lemma step_log:
  assumes C: "cinv g n s q" and A: "ainv g n (abs_state s q)" and G: "wf_graph g"
    and st: "step n th s = Inr s'"
  shows "lock_log s' = lock_log s @ step_events th s"
proof (cases th)
  case Main_thread
  with st have "main_step n s = Inr s'" by (simp add: step_def)
  from main_step_log[OF C A this] show ?thesis by (simp add: step_events_def Main_thread)
next
  case (Worker w)
  with st have "worker_step w s = Inr s'" by (simp add: step_def)
  from worker_step_log[OF C A G this] show ?thesis by (simp add: step_events_def Worker)
qed

lemma holding_snoc:
  "holding (log @ [e]) th m =
     (if e = (th, Acquire m) then True else if e = (th, Release m) then False
      else holding log th m)"
  by (simp add: holding_def)

lemma acquired_under_snoc:
  "acquired_under m m' (log @ [e]) =
     ((snd e = Acquire m \<and> holding log (fst e) m') \<or> acquired_under m m' log)"
  by (simp add: acquired_under_def holding_def)

lemma step_events_shape:
  "step_events th s = [] \<or> step_events th s = queue_events th \<or>
   step_events th s = [(th, Acquire Mutex_graph)] \<or>
   step_events th s = [(th, Release Mutex_graph)] \<or>
   step_events th s = [(th, Acquire Mutex_graph), (th, Release Mutex_graph)]"
proof (cases th)
  case Main_thread
  then show ?thesis
    by (cases "mpc s") (simp_all add: step_events_def main_events_def)
next
  case (Worker w)
  then show ?thesis
    by (cases "workers s ! w") (simp_all add: step_events_def worker_events_def)
qed

lemma log_inv_snoc_graph:
  assumes "log_inv log" "e = (th, Acquire Mutex_graph) \<or> e = (th, Release Mutex_graph)"
  shows "log_inv (log @ [e])"
  using assms unfolding log_inv_def by (auto simp: holding_snoc acquired_under_snoc)

lemma log_inv_queue:
  assumes "log_inv log"
  shows "log_inv (log @ queue_events th)"
proof -
  define log1 where "log1 = log @ [(th, Acquire Mutex_queue)]"
  have e: "log @ queue_events th = log1 @ [(th, Release Mutex_queue)]"
    by (simp add: queue_events_def log1_def)
  have h1: "holding log1 th' Mutex_queue = (th' = th)" for th'
    using assms unfolding log1_def by (auto simp: log_inv_def holding_snoc)
  have a1: "\<not> acquired_under Mutex_graph Mutex_queue log1"
    using assms unfolding log1_def by (simp add: log_inv_def acquired_under_snoc)
  have h2: "\<not> holding (log1 @ [(th, Release Mutex_queue)]) th' Mutex_queue" for th'
    by (simp add: holding_snoc h1)
  have a2: "\<not> acquired_under Mutex_graph Mutex_queue (log1 @ [(th, Release Mutex_queue)])"
    by (simp add: acquired_under_snoc a1)
  from h2 a2 show ?thesis unfolding e log_inv_def by blast
qed

lemma log_inv_events:
  assumes "log_inv log"
  shows "log_inv (log @ step_events th s)"
proof -
  from step_events_shape[of th s] consider
    "step_events th s = []" | "step_events th s = queue_events th"
    | "step_events th s = [(th, Acquire Mutex_graph)]"
    | "step_events th s = [(th, Release Mutex_graph)]"
    | "step_events th s = [(th, Acquire Mutex_graph), (th, Release Mutex_graph)]" by blast
  then show ?thesis
  proof cases
    case 1
    with assms show ?thesis by simp
  next
    case 2
    with log_inv_queue[OF assms] show ?thesis by simp
  next
    case 3
    with log_inv_snoc_graph[OF assms, of _ th] show ?thesis by simp
  next
    case 4
    with log_inv_snoc_graph[OF assms, of _ th] show ?thesis by simp
  next
    case 5
    have "log_inv (log @ [(th, Acquire Mutex_graph)])"
      by (rule log_inv_snoc_graph[OF assms]) simp
    then have "log_inv ((log @ [(th, Acquire Mutex_graph)]) @ [(th, Release Mutex_graph)])"
      by (rule log_inv_snoc_graph) simp
    with 5 show ?thesis by simp
  qed
qed

lemma run_log_inv:
  assumes "cinv g n s q" "ainv g n (abs_state s q)" "wf_graph g" "0 < n"
    "run n sched s = Inr s'" "log_inv (lock_log s)"
  shows "log_inv (lock_log s')"
  using assms
proof (induction sched arbitrary: s q)
  case Nil
  then show ?case by simp
next
  case (Cons th ths)
  from Cons.prems(5) obtain s1 where st: "step n th s = Inr s1" and r: "run n ths s1 = Inr s'"
    by (rule run_Cons_Inr)
  from step_inv[OF Cons.prems(1-4) st] obtain q1 where
    c1: "cinv g n s1 q1" and a1: "ainv g n (abs_state s1 q1)" by blast
  have "log_inv (lock_log s1)"
    unfolding step_log[OF Cons.prems(1-3) st] by (rule log_inv_events[OF Cons.prems(6)])
  from Cons.IH[OF c1 a1 Cons.prems(3,4) r this] show ?case .
qed

lemma boot_step_log:
  assumes lv: "length vs = length g"
    and st: "step n Main_thread (boot (\<lambda>i. 0) g vs) = Inr s1"
  shows "lock_log s1 = []"
proof -
  define s0 where "s0 = boot (\<lambda>i. 0) g vs"
  have b: "calls_ok s0" "workers s0 = []" "length (visited s0) = length (nodes s0)"
    "mpc s0 = M_start" "lock_log s0 = []"
    by (simp_all add: s0_def boot_def calls_ok_def lv)
  from st have "step n Main_thread s0 = Inr s1" by (simp add: s0_def)
  then have "lock_log s1 = lock_log s0"
    by (auto simp add: step_def main_step_def b(4) main_init_ok[OF b(1-3)] then_r_def)
  then show ?thesis by (simp add: b)
qed

lemma log_inv_Nil: "log_inv []"
  by (simp add: log_inv_def holding_def acquired_under_def)

lemma step_events_abs:
  assumes "cinv g n s q" "step n th s = Inr s'"
  shows "step_events th s = a_events g th (abs_state s q)"
proof (cases th)
  case Main_thread
  show ?thesis
    by (cases "mpc s") (simp_all add: step_events_def main_events_def a_events_def
        Main_thread abs_state_def)
next
  case (Worker w)
  with assms(2) have w: "w < length (workers s)"
    by (cases "w < length (workers s)") (simp_all add: step_def worker_step_def)
  note D = cinv_D[OF assms(1)]
  show ?thesis
    using w
    by (cases "workers s ! w") (simp_all add: step_events_def worker_events_def a_events_def
        Worker abs_state_def D(2))
qed

text \<open>A run of the abstraction is the run of the program under the same schedule.\<close>

lemma run_of_a_run:
  assumes "cinv g n s q" "ainv g n (abs_state s q)" "wf_graph g" "0 < n"
    "a_run g n sched (abs_state s q) = Some a'"
  shows "\<exists>s' q'. run n sched s = Inr s' \<and> cinv g n s' q' \<and> abs_state s' q' = a' \<and>
           lock_log s' = lock_log s @ a_log g n sched (abs_state s q)"
  using assms
proof (induction sched arbitrary: s q)
  case Nil
  then show ?case by auto
next
  case (Cons th ths)
  from Cons.prems(5) obtain a1 where as: "a_step g n th (abs_state s q) = Some a1"
    and ar: "a_run g n ths a1 = Some a'"
    by (cases "a_step g n th (abs_state s q)") simp_all
  from step_sim[OF Cons.prems(1-3), of th] as obtain s1 q1 where
    st: "step n th s = Inr s1" and c1: "cinv g n s1 q1" and e1: "abs_state s1 q1 = a1"
    by auto
  have i1: "ainv g n (abs_state s1 q1)"
    unfolding e1 by (rule ainv_step[OF Cons.prems(2,3,4) as])
  from Cons.IH[OF c1 i1 Cons.prems(3,4)] ar e1 obtain s' q' where
    r: "run n ths s1 = Inr s'" and c: "cinv g n s' q'" and e: "abs_state s' q' = a'"
    and l: "lock_log s' = lock_log s1 @ a_log g n ths a1" by auto
  have l1: "lock_log s1 = lock_log s @ a_events g th (abs_state s q)"
    using step_log[OF Cons.prems(1-3) st] step_events_abs[OF Cons.prems(1) st] by simp
  have "run n (th # ths) s = Inr s'" using st r by (simp add: then_r_def)
  moreover have "lock_log s' = lock_log s @ a_log g n (th # ths) (abs_state s q)"
    by (simp add: l l1 as)
  ultimately show ?case using c e by blast
qed

lemma boot_a_run:
  assumes G: "wf_graph g" and lv: "length vs = length g" and n: "0 < n"
    and ar: "a_run g n sched (a_init g n) = Some a'"
  shows "\<exists>s q. run n (Main_thread # sched) (boot (\<lambda>i. 0) g vs) = Inr s \<and>
           abs_state s q = a' \<and> lock_log s = a_log g n sched (a_init g n)"
proof -
  from boot_step[OF lv, of n] obtain s1 where
    b: "step n Main_thread (boot (\<lambda>i. 0) g vs) = Inr s1" and c1: "cinv g n s1 []"
    and a1: "abs_state s1 [] = a_init g n" by blast
  have i1: "ainv g n (abs_state s1 [])" unfolding a1 by (rule ainv_init[OF G])
  have l1: "lock_log s1 = []" by (rule boot_step_log[OF lv b])
  from ar have "a_run g n sched (abs_state s1 []) = Some a'" by (simp add: a1)
  from run_of_a_run[OF c1 i1 G n this] obtain s q where
    "run n sched s1 = Inr s" "abs_state s q = a'"
    "lock_log s = lock_log s1 @ a_log g n sched (abs_state s1 [])" by blast
  with b l1 a1 have "run n (Main_thread # sched) (boot (\<lambda>i. 0) g vs) = Inr s \<and>
           abs_state s q = a' \<and> lock_log s = a_log g n sched (a_init g n)"
    by (simp add: then_r_def)
  then show ?thesis by blast
qed

lemma a_init_g0:
  "a_init g0 1 = \<lparr>a_queue = [], a_workers = [A_dequeue],
      a_visited = [NOT_VISITED, NOT_VISITED, NOT_VISITED, NOT_VISITED, NOT_VISITED],
      a_sum = 0, a_finished = False, a_mpc = M_seed\<rparr>"
  by (simp add: a_init_def g0_nth eval_nat_numeral)

lemma nested_a_run:
  "a_run g0 1 [Main_thread, Worker 0, Worker 0, Worker 0] (a_init g0 1) =
     Some \<lparr>a_queue = [1], a_workers = [A_loop 0 1],
      a_visited = [DONE, NOT_VISITED, NOT_VISITED, NOT_VISITED, NOT_VISITED],
      a_sum = 10, a_finished = False, a_mpc = M_wait\<rparr>"
  "a_log g0 1 [Main_thread, Worker 0, Worker 0, Worker 0] (a_init g0 1) =
     [(Main_thread, Acquire Mutex_queue), (Main_thread, Release Mutex_queue),
      (Worker 0, Acquire Mutex_queue), (Worker 0, Release Mutex_queue),
      (Worker 0, Acquire Mutex_graph),
      (Worker 0, Acquire Mutex_queue), (Worker 0, Release Mutex_queue)]"
  unfolding a_init_g0
  by (simp_all add: a_step_def a_main_step_def a_worker_step_def a_set_worker_def a_locked_def
      a_events_def queue_events_def g0_nth)

lemma nested_run:
  "\<exists>s. run 1 [Main_thread, Main_thread, Worker 0, Worker 0, Worker 0]
          (boot (\<lambda>i. 0) g0 [DONE, DONE, DONE, DONE, DONE]) = Inr s \<and>
        lock_log s =
          [(Main_thread, Acquire Mutex_queue), (Main_thread, Release Mutex_queue),
           (Worker 0, Acquire Mutex_queue), (Worker 0, Release Mutex_queue),
           (Worker 0, Acquire Mutex_graph),
           (Worker 0, Acquire Mutex_queue), (Worker 0, Release Mutex_queue)]"
proof -
  have l: "length [DONE, DONE, DONE, DONE, DONE] = length g0" by (simp add: g0_nth)
  from boot_a_run[OF g0_wf l _ nested_a_run(1)] show ?thesis
    unfolding nested_a_run(2) by auto
qed

text \<open>
Against claim C6 as it is stated: one worker on the graph of five nodes takes the seed,
  locks the graph mutex, marks node 0 and, in the loop over the neighbours of node 0,
  calls \<^verbatim>\<open>enqueue_task\<close> for node 1 (line 54 of \<^verbatim>\<open>parallel.c\<close>), which locks the queue
  mutex. At the sixth lock event of this run worker 0 acquires the queue mutex while it
  holds the graph mutex, which it releases at line 60 only.
\<close>

theorem locks_nested:
  "\<exists>s. run 1 [Main_thread, Main_thread, Worker 0, Worker 0, Worker 0]
          (boot (\<lambda>i. 0) g0 [DONE, DONE, DONE, DONE, DONE]) = Inr s \<and>
        holding (take 5 (lock_log s)) (Worker 0) Mutex_graph \<and>
        lock_log s ! 5 = (Worker 0, Acquire Mutex_queue) \<and>
        acquired_under Mutex_queue Mutex_graph (lock_log s)"
proof -
  from nested_run obtain s where
    r: "run 1 [Main_thread, Main_thread, Worker 0, Worker 0, Worker 0]
          (boot (\<lambda>i. 0) g0 [DONE, DONE, DONE, DONE, DONE]) = Inr s"
    and l: "lock_log s =
          [(Main_thread, Acquire Mutex_queue), (Main_thread, Release Mutex_queue),
           (Worker 0, Acquire Mutex_queue), (Worker 0, Release Mutex_queue),
           (Worker 0, Acquire Mutex_graph),
           (Worker 0, Acquire Mutex_queue), (Worker 0, Release Mutex_queue)]" by blast
  have "holding (take 5 (lock_log s)) (Worker 0) Mutex_graph"
    "lock_log s ! 5 = (Worker 0, Acquire Mutex_queue)"
    "acquired_under Mutex_queue Mutex_graph (lock_log s)"
    unfolding l by (simp_all add: holding_def acquired_under_def)
  with r show ?thesis by blast
qed

text \<open>
Claim C6, amended. The two locks are nested in one order only. In every run, when no
  library call fails: the graph mutex is never acquired by a thread that holds the queue
  mutex, and the queue mutex is held within one call of \<^verbatim>\<open>enqueue_task\<close>,
  \<^verbatim>\<open>dequeue_task\<close> or \<^verbatim>\<open>wait_for_completion\<close> only, so no thread holds it when a step
  of the run is over and none waits for a lock while holding it. (That the queue mutex
  is acquired under the graph mutex is the run above.)
\<close>

theorem lock_order:
  assumes G: "wf_graph g" and lv: "length vs = length g" and n: "0 < n"
  shows "\<forall>sched s. run n sched (boot (\<lambda>i. 0) g vs) = Inr s \<longrightarrow>
           \<not> acquired_under Mutex_graph Mutex_queue (lock_log s) \<and>
           (\<forall>th. \<not> holding (lock_log s) th Mutex_queue) \<and>
           mutex s Mutex_queue = None"
proof (intro allI impI)
  fix sched s
  let ?b = "boot (\<lambda>i. 0) g vs"
  assume r: "run n sched ?b = Inr s"
  have "log_inv (lock_log s) \<and> mutex s Mutex_queue = None"
  proof (cases sched)
    case Nil
    with r have "s = ?b" by simp
    then show ?thesis by (simp add: boot_def log_inv_Nil)
  next
    case (Cons th ths)
    from boot_step[OF lv, of n] obtain s1 where
      b: "step n Main_thread ?b = Inr s1" and c1: "cinv g n s1 []"
      and a1: "abs_state s1 [] = a_init g n" by blast
    have i1: "ainv g n (abs_state s1 [])" unfolding a1 by (rule ainv_init[OF G])
    have th: "th = Main_thread"
    proof (cases th)
      case (Worker w)
      with r Cons show ?thesis by (simp add: boot_worker_blocked then_r_def)
    qed simp
    from r Cons th b have r1: "run n ths s1 = Inr s" by (simp add: then_r_def)
    have "log_inv (lock_log s1)" by (simp add: boot_step_log[OF lv b] log_inv_Nil)
    from run_log_inv[OF c1 i1 G n r1 this] have 1: "log_inv (lock_log s)" .
    from run_inv[OF c1 i1 G n r1] obtain q where "cinv g n s q" by blast
    from cinv_D(6)[OF this] 1 show ?thesis by simp
  qed
  then show "\<not> acquired_under Mutex_graph Mutex_queue (lock_log s) \<and>
           (\<forall>th. \<not> holding (lock_log s) th Mutex_queue) \<and>
           mutex s Mutex_queue = None"
    by (simp add: log_inv_def)
qed

theorem lock_order_witness:
  "\<exists>s. run 1 [Main_thread, Main_thread, Worker 0, Worker 0, Worker 0]
          (boot (\<lambda>i. 0) g0 [DONE, DONE, DONE, DONE, DONE]) = Inr s \<and>
        length (lock_log s) = 7 \<and>
        \<not> acquired_under Mutex_graph Mutex_queue (lock_log s) \<and>
        \<not> holding (lock_log s) (Worker 0) Mutex_queue \<and>
        \<not> holding (lock_log s) Main_thread Mutex_queue \<and>
        holding (lock_log s) (Worker 0) Mutex_graph \<and>
        mutex s Mutex_queue = None"
proof -
  from nested_run obtain s where
    r: "run 1 [Main_thread, Main_thread, Worker 0, Worker 0, Worker 0]
          (boot (\<lambda>i. 0) g0 [DONE, DONE, DONE, DONE, DONE]) = Inr s"
    and l: "lock_log s =
          [(Main_thread, Acquire Mutex_queue), (Main_thread, Release Mutex_queue),
           (Worker 0, Acquire Mutex_queue), (Worker 0, Release Mutex_queue),
           (Worker 0, Acquire Mutex_graph),
           (Worker 0, Acquire Mutex_queue), (Worker 0, Release Mutex_queue)]" by blast
  have lv: "length [DONE, DONE, DONE, DONE, DONE] = length g0" by (simp add: g0_nth)
  have n: "0 < (1::nat)" by simp
  note T = lock_order[OF g0_wf lv n, rule_format, OF r]
  have "length (lock_log s) = 7" "holding (lock_log s) (Worker 0) Mutex_graph"
    unfolding l by (simp_all add: holding_def)
  with r T show ?thesis by blast
qed

section \<open>A run of two workers\<close>

lemma a_init_g0_2:
  "a_init g0 2 = \<lparr>a_queue = [], a_workers = [A_dequeue, A_dequeue],
      a_visited = [NOT_VISITED, NOT_VISITED, NOT_VISITED, NOT_VISITED, NOT_VISITED],
      a_sum = 0, a_finished = False, a_mpc = M_seed\<rparr>"
  by (simp add: a_init_def g0_nth eval_nat_numeral)

lemma sched0_a_run:
  "a_run g0 2 sched0 (a_init g0 2) =
     Some \<lparr>a_queue = [], a_workers = [A_exited, A_exited],
      a_visited = [DONE, DONE, DONE, DONE, NOT_VISITED],
      a_sum = 100, a_finished = True, a_mpc = M_exit\<rparr>"
  unfolding a_init_g0_2 sched0_def
  by (simp add: a_step_def a_main_step_def a_worker_step_def a_set_worker_def a_locked_def
      g0_nth)

theorem traversal_correct_witness:
  "wf_graph g0 \<and>
   (\<exists>s. run 2 (Main_thread # sched0)
          (boot (\<lambda>i. 0) g0 [DONE, NOT_VISITED, DONE, DONE, DONE]) = Inr s \<and>
      mpc s = M_exit \<and> length (Main_thread # sched0) \<le> 35 \<and>
      visited s = [DONE, DONE, DONE, DONE, NOT_VISITED] \<and>
      visits 2 0 (Main_thread # sched0)
        (boot (\<lambda>i. 0) g0 [DONE, NOT_VISITED, DONE, DONE, DONE]) = 1 \<and>
      visits 2 3 (Main_thread # sched0)
        (boot (\<lambda>i. 0) g0 [DONE, NOT_VISITED, DONE, DONE, DONE]) = 1 \<and>
      visits 2 4 (Main_thread # sched0)
        (boot (\<lambda>i. 0) g0 [DONE, NOT_VISITED, DONE, DONE, DONE]) = 0 \<and>
      sum_total s = 100 \<and> printed s = Some 100)"
proof -
  let ?vs = "[DONE, NOT_VISITED, DONE, DONE, DONE]"
  let ?b = "boot (\<lambda>i. 0) g0 ?vs"
  let ?sched = "Main_thread # sched0"
  have l: "length ?vs = length g0" by (simp add: g0_nth)
  have n: "0 < (2::nat)" by simp
  from boot_a_run[OF g0_wf l n sched0_a_run] obtain s q where
    r: "run 2 ?sched ?b = Inr s"
    and a: "abs_state s q = \<lparr>a_queue = [], a_workers = [A_exited, A_exited],
      a_visited = [DONE, DONE, DONE, DONE, NOT_VISITED],
      a_sum = 100, a_finished = True, a_mpc = M_exit\<rparr>" by blast
  from arg_cong[OF a, of a_mpc] have e: "mpc s = M_exit" by (simp add: abs_state_def)
  from arg_cong[OF a, of a_visited] have v: "visited s = [DONE, DONE, DONE, DONE, NOT_VISITED]"
    by (simp add: abs_state_def)
  note T = traversal_correct[OF g0_wf l n]
  note U = T[THEN conjunct2, THEN conjunct1, rule_format, OF r]
  have ne: "num_edges g0 = 6"
    by (simp add: num_edges_def g0_nth lessThan_nat_numeral lessThan_Suc)
  from U[THEN conjunct1] have len: "length ?sched \<le> 35" by (simp add: ne)
  note F = U[THEN conjunct2, THEN conjunct2, THEN mp, OF e]
  note W = F[THEN conjunct2, THEN conjunct1, rule_format]
  have w: "visits 2 0 ?sched ?b = 1" "visits 2 3 ?sched ?b = 1" "visits 2 4 ?sched ?b = 0"
    using W[of 0] W[of 3] W[of 4] by (simp_all add: g0_nth g0_reachable)
  have "sum_total s = (\<Sum>v\<in>{0, 1, 2, 3}. info (g0 ! v))"
    using F[THEN conjunct2, THEN conjunct2, THEN conjunct1] by (simp only: g0_reachable)
  then have t: "sum_total s = 100" by (simp add: g0_nth)
  from F[THEN conjunct2, THEN conjunct2, THEN conjunct2] t have p: "printed s = Some 100"
    by simp
  from r e len v w t p g0_wf show ?thesis by blast
qed

theorem seed_is_node_zero_witness:
  "(\<exists>s1 s2 t a. step 2 Main_thread (boot (\<lambda>i. 0) g0 [DONE, DONE, DONE, DONE, DONE]) = Inr s1 \<and>
      mpc s1 = M_seed \<and> queue_inv s1 [] \<and> step 2 Main_thread s1 = Inr s2 \<and> mpc s2 = M_wait \<and>
      queue_inv s2 [t] \<and>
      tasks s2 t = Some \<lparr>argument = a, action = Process_node,
                          destroy_arg = Some Free_function\<rparr> \<and>
      uints s2 a = Some 0) \<and>
   (\<exists>s. run 2 (Main_thread # sched0) (boot (\<lambda>i. 0) g0 [DONE, DONE, DONE, DONE, DONE]) = Inr s \<and>
      mpc s = M_exit \<and>
      submissions 2 Main_thread (Main_thread # sched0)
        (boot (\<lambda>i. 0) g0 [DONE, DONE, DONE, DONE, DONE]) = [0] \<and>
      visited s ! 4 = NOT_VISITED)"
proof -
  let ?vs = "[DONE, DONE, DONE, DONE, DONE]"
  let ?b = "boot (\<lambda>i. 0) g0 ?vs"
  let ?sched = "Main_thread # sched0"
  have l: "length ?vs = length g0" by (simp add: g0_nth)
  have n: "wf_graph g0 \<and> 0 < (2::nat)" by (simp add: g0_wf)
  note T = seed_is_node_zero[OF l, of 2]
  from boot_a_run[OF g0_wf l _ sched0_a_run] obtain s q where
    r: "run 2 ?sched ?b = Inr s"
    and a: "abs_state s q = \<lparr>a_queue = [], a_workers = [A_exited, A_exited],
      a_visited = [DONE, DONE, DONE, DONE, NOT_VISITED],
      a_sum = 100, a_finished = True, a_mpc = M_exit\<rparr>" by auto
  from arg_cong[OF a, of a_mpc] have e: "mpc s = M_exit" by (simp add: abs_state_def)
  note U = T[THEN conjunct2, THEN mp, OF n, rule_format, OF r]
  from U[THEN conjunct1] e have 1: "submissions 2 Main_thread ?sched ?b = [0]" by simp
  have "visited s ! 4 = NOT_VISITED"
    by (rule U[THEN conjunct2, rule_format]) (simp_all add: e g0_nth g0_reachable)
  with r e 1 have "\<exists>s. run 2 ?sched ?b = Inr s \<and> mpc s = M_exit \<and>
      submissions 2 Main_thread ?sched ?b = [0] \<and> visited s ! 4 = NOT_VISITED" by blast
  with T[THEN conjunct1] show ?thesis by blast
qed

section \<open>Destroying the pool\<close>

text \<open>
  \<^verbatim>\<open>destroy_threadpool\<close> on a queue of live tasks: the walk frees every task with its
  argument and comes back to the head, whatever the count says.
\<close>

lemma destroy_tasks_walk:
  assumes "distinct q" "\<forall>t\<in>set q. valid_task s t" "inj_on (arg_of s) (set q)"
    and "case q of [] \<Rightarrow> n = Head
         | x # xs \<Rightarrow> n = Task_node x \<and> lprev s n = Head \<and> chain (lnext s) n xs Head"
  shows "\<exists>s'. destroy_tasks n s = Some (Inr s') \<and>
           tasks s' = (\<lambda>t. if t \<in> set q then None else tasks s t) \<and>
           uints s' = (\<lambda>a. if a \<in> arg_of s ` set q then None else uints s a) \<and>
           num_tasks s' = num_tasks s \<and> clock s' = clock s \<and> rcs s' = rcs s \<and>
           sum_total s' = sum_total s"
  using assms
proof (induction q arbitrary: s n)
  case Nil
  then show ?case by (simp add: destroy_tasks.simps)
next
  case (Cons x xs)
  from Cons.prems(4) have n: "n = Task_node x" and pv: "lprev s n = Head"
    and ch: "chain (lnext s) n xs Head" by auto
  from Cons.prems(2) have "valid_task s x" by simp
  then obtain a v where tk: "tasks s x = Some \<lparr>argument = a, action = Process_node,
      destroy_arg = Some Free_function\<rparr>" and ua: "uints s a = Some v"
    unfolding valid_task_def by blast
  have ax: "arg_of s x = a" by (simp add: arg_of_def tk)
  define p where "p = lnext s n"
  define s1 where "s1 = s\<lparr>lnext := (lnext s)(Head := p), lprev := (lprev s)(p := Head)\<rparr>"
  define s2 where "s2 = s1\<lparr>tasks := (tasks s1)(x := None), uints := (uints s1)(a := None)\<rparr>"
  from pv n have pv': "lprev s (Task_node x) = Head" by simp
  have ld: "list_del n s = s1"
    by (simp add: list_del_def Let_def pv' n s1_def p_def)
  have tk1: "tasks s1 x = Some \<lparr>argument = a, action = Process_node,
      destroy_arg = Some Free_function\<rparr>" "uints s1 a = Some v"
    using tk ua by (simp_all add: s1_def)
  have dt: "destroy_task x s1 = Inr s2"
    unfolding s2_def by (rule destroy_task_ok[OF tk1])
  have st: "destroy_tasks n s = destroy_tasks p s2"
    by (subst destroy_tasks.simps) (simp add: n list_entry_def ld[unfolded n] dt p_def)
  have f: "tasks s2 = (tasks s)(x := None)" "uints s2 = (uints s)(a := None)"
    "lnext s2 = (lnext s)(Head := p)" "lprev s2 p = Head" "num_tasks s2 = num_tasks s"
    "clock s2 = clock s" "rcs s2 = rcs s" "sum_total s2 = sum_total s"
    by (simp_all add: s2_def s1_def)
  from Cons.prems(1) have dx: "x \<notin> set xs" "distinct xs" by simp_all
  have fr: "valid_task s2 y \<and> idx_of s2 y = idx_of s y \<and> arg_of s2 y = arg_of s y"
    if y: "y \<in> set xs" for y
  proof (rule valid_task_frame)
    from Cons.prems(2) y show "valid_task s y" by simp
    from y dx show "tasks s2 y = tasks s y" by (auto simp: f)
    from Cons.prems(3) y dx have "arg_of s y \<noteq> arg_of s x" by (auto simp: inj_on_def)
    then show "uints s2 (arg_of s y) = uints s (arg_of s y)" by (simp add: f ax)
  qed
  have v2: "\<forall>t\<in>set xs. valid_task s2 t" using fr by blast
  have ae: "arg_of s2 ` set xs = arg_of s ` set xs" using fr by (auto simp: image_iff)
  have i2: "inj_on (arg_of s2) (set xs)"
  proof (rule inj_onI)
    fix y z assume "y \<in> set xs" "z \<in> set xs" "arg_of s2 y = arg_of s2 z"
    with fr have "arg_of s y = arg_of s z" by simp
    with Cons.prems(3) \<open>y \<in> set xs\<close> \<open>z \<in> set xs\<close> show "y = z" by (auto simp: inj_on_def)
  qed
  have w2: "case xs of [] \<Rightarrow> p = Head
         | y # ys \<Rightarrow> p = Task_node y \<and> lprev s2 p = Head \<and> chain (lnext s2) p ys Head"
  proof (cases xs)
    case Nil
    with ch show ?thesis by (simp add: p_def)
  next
    case (Cons y ys)
    with ch have py: "p = Task_node y" and c: "chain (lnext s) (Task_node y) ys Head"
      by (simp_all add: p_def)
    have "chain ((lnext s)(Head := p)) (Task_node y) ys Head = chain (lnext s) (Task_node y) ys Head"
      by (rule chain_upd_other) auto
    with c py f(4) show ?thesis by (simp add: Cons f(3))
  qed
  from Cons.IH[OF dx(2) v2 i2 w2] obtain s' where
    r: "destroy_tasks p s2 = Some (Inr s')"
    and t': "tasks s' = (\<lambda>t. if t \<in> set xs then None else tasks s2 t)"
    and u': "uints s' = (\<lambda>a. if a \<in> arg_of s2 ` set xs then None else uints s2 a)"
    and o': "num_tasks s' = num_tasks s2" "clock s' = clock s2" "rcs s' = rcs s2"
      "sum_total s' = sum_total s2" by blast
  have "tasks s' = (\<lambda>t. if t \<in> set (x # xs) then None else tasks s t)"
    by (auto simp: t' f fun_eq_iff)
  moreover have "uints s' = (\<lambda>b. if b \<in> arg_of s ` set (x # xs) then None else uints s b)"
    unfolding u' ae by (auto simp: f fun_eq_iff ax)
  ultimately show ?case using r st o' by (simp add: f)
qed

lemma destroy_threadpool_frees:
  assumes "linked s q" "\<forall>t\<in>set q. valid_task s t" "inj_on (arg_of s) (set q)"
  shows "\<exists>s'. destroy_threadpool s = Inr s' \<and> (\<forall>t\<in>set q. tasks s' t = None) \<and>
           (\<forall>t. t \<notin> set q \<longrightarrow> tasks s' t = tasks s t) \<and>
           (\<forall>t\<in>set q. uints s' (arg_of s t) = None) \<and>
           num_tasks s' = num_tasks s \<and> sum_total s' = sum_total s"
proof -
  define s2 where "s2 = s\<lparr>clock := Suc (Suc (clock s))\<rparr>"
  have e: "destroy_threadpool s =
      (case destroy_tasks (lnext s2 Head) s2 of None \<Rightarrow> Inl Diverges | Some r \<Rightarrow> r)"
    by (simp add: destroy_threadpool_def pthread_mutex_destroy_def pthread_cond_destroy_def
        libc_call_def s2_def)
  from assms(1) have d: "distinct q" and c: "chain (lnext s) Head q Head"
    and b: "chain (lprev s) Head (rev q) Head" by (simp_all add: linked_def)
  have v2: "\<forall>t\<in>set q. valid_task s2 t" using assms(2) by (simp add: valid_task_def s2_def)
  have a2: "arg_of s2 = arg_of s" by (simp add: arg_of_def fun_eq_iff s2_def)
  have i2: "inj_on (arg_of s2) (set q)" using assms(3) by (simp add: a2)
  have w: "case q of [] \<Rightarrow> lnext s2 Head = Head
         | x # xs \<Rightarrow> lnext s2 Head = Task_node x \<and> lprev s2 (lnext s2 Head) = Head \<and>
             chain (lnext s2) (lnext s2 Head) xs Head"
  proof (cases q)
    case Nil
    with c show ?thesis by (simp add: s2_def)
  next
    case (Cons x xs)
    with b have "chain (lprev s) Head (rev xs @ [x]) Head" by simp
    then have "lprev s (Task_node x) = Head" by (simp add: chain_snoc)
    with c Cons show ?thesis by (simp add: s2_def)
  qed
  from destroy_tasks_walk[OF d v2 i2 w] obtain s' where
    r: "destroy_tasks (lnext s2 Head) s2 = Some (Inr s')"
    and t': "tasks s' = (\<lambda>t. if t \<in> set q then None else tasks s2 t)"
    and u': "uints s' = (\<lambda>a. if a \<in> arg_of s2 ` set q then None else uints s2 a)"
    and o': "num_tasks s' = num_tasks s2" "sum_total s' = sum_total s2" by blast
  have "destroy_threadpool s = Inr s'" by (simp add: e r)
  moreover have "\<forall>t\<in>set q. tasks s' t = None" "\<forall>t. t \<notin> set q \<longrightarrow> tasks s' t = tasks s t"
    by (simp_all add: t' s2_def)
  moreover have "\<forall>t\<in>set q. uints s' (arg_of s t) = None" by (simp add: u' a2)
  moreover have "num_tasks s' = num_tasks s" "sum_total s' = sum_total s"
    by (simp_all add: o' s2_def)
  ultimately show ?thesis by blast
qed

end
